(* ===== verification/Kernel_Prelude.thy ===== *)
theory Kernel_Prelude
  imports Main "HOL-Library.Word"
begin

unbundle bit_operations_syntax

text \<open>
  Shared vocabulary of the development: machine integers, the outcome of a kernel
  operation (a value, a panic, an access C leaves undefined, or giving up the CPU), the
  sequencing operator over such outcomes, and the generic lemmas on lists, options and
  words that the component theories use.
\<close>

section \<open>Machine integers\<close>

type_synonym u8 = "8 word"
type_synonym u16 = "16 word"
type_synonym u32 = "32 word"
type_synonym u64 = "64 word"

lemma unat_lt64: "unat (x :: u64) < 2 ^ 64"
  using unsigned_less [of x, where ?'a = nat] by simp

lemma unat_of_nat64: "n < 2 ^ 64 \<Longrightarrow> unat (of_nat n :: u64) = n"
  by (simp add: unat_of_nat)

lemma unat_plus64: "unat a + unat b < 2 ^ 64 \<Longrightarrow> unat (a + b :: u64) = unat a + unat b"
  by (simp add: unat_word_ariths)

lemma unat_of_int64: "0 \<le> k \<Longrightarrow> k < 2 ^ 64 \<Longrightarrow> unat (word_of_int k :: u64) = nat k"
  by (simp add: unsigned_of_int take_bit_int_eq_self)

lemma sint_of_int64: "- (2 ^ 63) \<le> k \<Longrightarrow> k < 2 ^ 63 \<Longrightarrow> sint (word_of_int k :: u64) = k"
  by (simp add: signed_of_int signed_take_bit_int_eq_self)

section \<open>Outcomes of kernel operations\<close>

text \<open>
  An operation that does not return to its caller stops in one of three ways:
  \<^item> \<open>Panic msg\<close>: a call of \<open>panic(msg)\<close> or a failing \<open>assert\<close> (kernel/console.c);
  \<^item> \<open>Fault what\<close>: an access the C code makes without a check and that has no defined
    result, such as reading through a null pointer or past the end of an array;
  \<^item> \<open>Asleep s\<close>: the process gave up the CPU in \<open>sched\<close>, leaving the kernel in state \<open>s\<close>.
  Everything else is a value: \<open>Inr x\<close>.
\<close>

datatype 's stop = Panic string | Fault string | Asleep 's

text \<open>Sequencing: a stop ends the whole operation, a value is passed on.\<close>

definition bindr :: "'e + 'a \<Rightarrow> ('a \<Rightarrow> 'e + 'b) \<Rightarrow> 'e + 'b" where
  "bindr m f = (case m of Inl e \<Rightarrow> Inl e | Inr x \<Rightarrow> f x)"

named_theorems bindr_iff \<open>when a sequenced operation returns, and with what\<close>

lemma bindr_simps [simp]:
  "bindr (Inl e) f = Inl e"
  "bindr (Inr x) f = f x"
  by (simp_all add: bindr_def)

lemma bindr_cong [fundef_cong]:
  assumes "m = m'" and "\<And>x. m' = Inr x \<Longrightarrow> f x = f' x"
  shows "bindr m f = bindr m' f'"
  using assms by (auto simp: bindr_def split: sum.split)

lemma bindr_InrE [bindr_iff]: "bindr m f = Inr y \<longleftrightarrow> (\<exists>x. m = Inr x \<and> f x = Inr y)"
  by (auto simp: bindr_def split: sum.splits)

lemma bindr_InlE [bindr_iff]:
  "bindr m f = Inl e \<longleftrightarrow> m = Inl e \<or> (\<exists>x. m = Inr x \<and> f x = Inl e)"
  by (auto simp: bindr_def split: sum.splits)

lemma bindr_assoc: "bindr (bindr m f) g = bindr m (\<lambda>x. bindr (f x) g)"
  by (simp add: bindr_def split: sum.split)

text \<open>Reading element \<open>i\<close> of a C array with no bounds check in the code.\<close>

definition arr_get :: "string \<Rightarrow> 'a list \<Rightarrow> nat \<Rightarrow> 's stop + 'a" where
  "arr_get what xs i = (if i < length xs then Inr (xs ! i) else Inl (Fault what))"

lemma arr_get_Inr [bindr_iff]: "arr_get w xs i = Inr y \<longleftrightarrow> i < length xs \<and> y = xs ! i"
  by (auto simp: arr_get_def)

lemma arr_get_in [simp]: "i < length xs \<Longrightarrow> arr_get w xs i = Inr (xs ! i)"
  by (simp add: arr_get_def)

text \<open>Following a pointer that the code does not compare with null.\<close>

definition deref :: "string \<Rightarrow> 'a option \<Rightarrow> 's stop + 'a" where
  "deref what p = (case p of None \<Rightarrow> Inl (Fault what) | Some x \<Rightarrow> Inr x)"

lemma deref_simps [simp]:
  "deref w None = Inl (Fault w)"
  "deref w (Some x) = Inr x"
  by (simp_all add: deref_def)

lemma deref_Inr [bindr_iff]: "deref w p = Inr x \<longleftrightarrow> p = Some x"
  by (simp add: deref_def split: option.split)

text \<open>\<open>assert\<close> and \<open>assertm\<close>.\<close>

definition kassert :: "string \<Rightarrow> bool \<Rightarrow> 's stop + unit" where
  "kassert msg b = (if b then Inr () else Inl (Panic msg))"

lemma kassert_simps [simp]:
  "kassert m True = Inr ()"
  "kassert m False = Inl (Panic m)"
  by (simp_all add: kassert_def)

lemma kassert_Inr [bindr_iff]: "kassert m b = Inr u \<longleftrightarrow> b"
  by (simp add: kassert_def)

section \<open>Counting loops\<close>

text \<open>\<open>for (i = start; i < start + n; i++) f(i)\<close>, stopping when \<open>f\<close> stops.\<close>

fun for_range :: "nat \<Rightarrow> nat \<Rightarrow> (nat \<Rightarrow> 's \<Rightarrow> 'e + 's) \<Rightarrow> 's \<Rightarrow> 'e + 's" where
  "for_range i 0 f s = Inr s"
| "for_range i (Suc n) f s = bindr (f i s) (for_range (Suc i) n f)"

text \<open>The invariant rule: \<open>I k\<close> holds before the iteration for \<open>k\<close>.\<close>

lemma for_range_inv:
  assumes "I i s" and "\<And>k s. i \<le> k \<Longrightarrow> k < i + n \<Longrightarrow> I k s \<Longrightarrow> \<exists>s'. f k s = Inr s' \<and> I (Suc k) s'"
  shows "\<exists>s'. for_range i n f s = Inr s' \<and> I (i + n) s'"
  using assms
proof (induction n arbitrary: i s)
  case (Suc n)
  obtain s1 where s1: "f i s = Inr s1" "I (Suc i) s1" using Suc.prems(2) [of i s] Suc.prems(1) by auto
  have "\<exists>s'. for_range (Suc i) n f s1 = Inr s' \<and> I (Suc i + n) s'"
    using s1(2) Suc.prems(2) by (intro Suc.IH) simp_all
  then show ?case using s1(1) by simp
qed simp

section \<open>Postconditions\<close>

text \<open>
  \<open>wp P Q r\<close>: when \<open>r\<close> is a value, it satisfies \<open>P\<close>; when the process gave up the CPU, the state
  it left satisfies \<open>Q\<close>. The equations below compute the condition of a composed operation
  from those of its parts.
\<close>

definition wp :: "('a \<Rightarrow> bool) \<Rightarrow> ('s \<Rightarrow> bool) \<Rightarrow> 's stop + 'a \<Rightarrow> bool" where
  "wp P Q r = (case r of Inr x \<Rightarrow> P x | Inl (Asleep t) \<Rightarrow> Q t | Inl _ \<Rightarrow> True)"

named_theorems wp_eq \<open>equations that compute postconditions\<close>

lemma wp_simps [simp, wp_eq]:
  "wp P Q (Inr x) = P x"
  "wp P Q (Inl (Panic m)) = True"
  "wp P Q (Inl (Fault m)) = True"
  "wp P Q (Inl (Asleep t)) = Q t"
  by (simp_all add: wp_def)

lemma wp_bindr [wp_eq]: "wp P Q (bindr m f) = wp (\<lambda>x. wp P Q (f x)) Q m"
  by (simp add: wp_def split: sum.split stop.split)

lemma wp_mono:
  assumes "wp P Q r" "\<And>x. P x \<Longrightarrow> P' x" "\<And>t. Q t \<Longrightarrow> Q' t"
  shows "wp P' Q' r"
  using assms by (auto simp: wp_def split: sum.splits stop.splits)

lemma wp_post: "wp R Q r \<Longrightarrow> (\<And>x. R x \<Longrightarrow> P x) \<Longrightarrow> wp P Q r"
  by (rule wp_mono)

lemma wp_kassert [wp_eq]: "wp P Q (kassert m b) = (b \<longrightarrow> P ())"
  by (cases b) simp_all

lemma wp_deref [wp_eq]: "wp P Q (deref m p) = (\<forall>x. p = Some x \<longrightarrow> P x)"
  by (cases p) simp_all

lemma wp_arr_get [wp_eq]: "wp P Q (arr_get m xs i) = (i < length xs \<longrightarrow> P (xs ! i))"
  by (simp add: arr_get_def)

lemma wp_for_range:
  assumes "I s" "\<And>k s. I s \<Longrightarrow> wp I Q (f k s)"
  shows "wp I Q (for_range i n f s)"
  using assms(1)
proof (induction n arbitrary: i s)
  case (Suc n)
  have "wp (\<lambda>s. wp I Q (for_range (Suc i) n f s)) Q (f i s)"
    by (rule wp_mono [OF assms(2) [OF Suc.prems]]) (use Suc.IH in auto)
  then show ?case by (simp add: wp_bindr)
qed simp

text \<open>The same, and the operation neither panics nor makes an undefined access.\<close>

definition wpt :: "('a \<Rightarrow> bool) \<Rightarrow> ('s \<Rightarrow> bool) \<Rightarrow> 's stop + 'a \<Rightarrow> bool" where
  "wpt P Q r = (case r of Inr x \<Rightarrow> P x | Inl (Asleep t) \<Rightarrow> Q t | Inl _ \<Rightarrow> False)"

named_theorems wpt_eq \<open>equations that compute total postconditions\<close>

lemma wpt_simps [simp, wpt_eq]:
  "wpt P Q (Inr x) = P x"
  "wpt P Q (Inl (Panic m)) = False"
  "wpt P Q (Inl (Fault m)) = False"
  "wpt P Q (Inl (Asleep t)) = Q t"
  by (simp_all add: wpt_def)

lemma wpt_bindr [wpt_eq]: "wpt P Q (bindr m f) = wpt (\<lambda>x. wpt P Q (f x)) Q m"
  by (simp add: wpt_def split: sum.split stop.split)

lemma wpt_mono:
  assumes "wpt P Q r" "\<And>x. P x \<Longrightarrow> P' x" "\<And>t. Q t \<Longrightarrow> Q' t"
  shows "wpt P' Q' r"
  using assms by (auto simp: wpt_def split: sum.splits stop.splits)

lemma wpt_wp: "wpt P Q r \<Longrightarrow> wp P' Q' r \<Longrightarrow> wpt (\<lambda>x. P x \<and> P' x) (\<lambda>t. Q t \<and> Q' t) r"
  by (auto simp: wpt_def wp_def split: sum.splits stop.splits)

lemma wpt_post: "wpt R Q r \<Longrightarrow> (\<And>x. R x \<Longrightarrow> P x) \<Longrightarrow> wpt P Q r"
  by (rule wpt_mono)

lemma wpt_kassert [wpt_eq]: "wpt P Q (kassert m b) = (b \<and> P ())"
  by (cases b) simp_all

lemma wpt_deref [wpt_eq]: "wpt P Q (deref m p) = (\<exists>x. p = Some x \<and> P x)"
  by (cases p) simp_all

lemma wpt_arr_get [wpt_eq]: "wpt P Q (arr_get m xs i) = (i < length xs \<and> P (xs ! i))"
  by (simp add: arr_get_def)

lemma wpt_for_range:
  assumes "I i s" "\<And>k s. i \<le> k \<Longrightarrow> k < i + n \<Longrightarrow> I k s \<Longrightarrow> wpt (I (Suc k)) Q (f k s)"
  shows "wpt (I (i + n)) Q (for_range i n f s)"
  using assms
proof (induction n arbitrary: i s)
  case (Suc n)
  have one: "wpt (I (Suc i)) Q (f i s)" using Suc.prems by simp
  have "wpt (I (Suc i + n)) Q (for_range (Suc i) n f t)" if "I (Suc i) t" for t
    using that Suc.prems(2) by (intro Suc.IH) auto
  with one have "wpt (\<lambda>s. wpt (I (Suc i + n)) Q (for_range (Suc i) n f s)) Q (f i s)"
    by (rule wpt_mono)
  then show ?case by (simp add: wpt_bindr)
qed simp

section \<open>First index with a property\<close>

text \<open>
  Most table scans of the kernel are \<open>for (p = tab; p < &tab[N]; p++) if (P p) ...\<close>:
  the first slot that satisfies a condition.
\<close>

fun first_from :: "('a \<Rightarrow> bool) \<Rightarrow> 'a list \<Rightarrow> nat \<Rightarrow> nat option" where
  "first_from P [] i = None"
| "first_from P (x # xs) i = (if P x then Some i else first_from P xs (Suc i))"

definition first_idx :: "('a \<Rightarrow> bool) \<Rightarrow> 'a list \<Rightarrow> nat option" where
  "first_idx P xs = first_from P xs 0"

lemma first_from_Some:
  "first_from P xs i = Some j \<Longrightarrow>
     i \<le> j \<and> j - i < length xs \<and> P (xs ! (j - i)) \<and> (\<forall>k < j - i. \<not> P (xs ! k))"
proof (induction xs arbitrary: i)
  case Nil
  then show ?case by simp
next
  case (Cons x xs)
  show ?case
  proof (cases "P x")
    case True
    with Cons.prems show ?thesis by simp
  next
    case False
    with Cons.prems have "first_from P xs (Suc i) = Some j" by simp
    note IH = Cons.IH [OF this]
    then obtain n where n: "j - i = Suc n" "j - Suc i = n"
      by (metis Suc_diff_le diff_Suc_Suc)
    with IH False show ?thesis by (auto simp: less_Suc_eq_0_disj)
  qed
qed

lemma first_from_None: "first_from P xs i = None \<longleftrightarrow> (\<forall>x \<in> set xs. \<not> P x)"
  by (induction xs arbitrary: i) auto

lemma first_idx_Some:
  assumes "first_idx P xs = Some j"
  shows "j < length xs" and "P (xs ! j)" and "\<And>k. k < j \<Longrightarrow> \<not> P (xs ! k)"
  using first_from_Some [of P xs 0 j] assms by (auto simp: first_idx_def)

lemma first_idx_None: "first_idx P xs = None \<longleftrightarrow> (\<forall>x \<in> set xs. \<not> P x)"
  by (simp add: first_idx_def first_from_None)

lemma first_idx_ex: "i < length xs \<Longrightarrow> P (xs ! i) \<Longrightarrow> \<exists>j. first_idx P xs = Some j"
  by (metis first_idx_None nth_mem not_None_eq)

lemma first_from_eqI:
  "k < length xs \<Longrightarrow> P (xs ! k) \<Longrightarrow> (\<And>j. j < k \<Longrightarrow> \<not> P (xs ! j)) \<Longrightarrow>
     first_from P xs i = Some (i + k)"
proof (induction xs arbitrary: i k)
  case Nil
  then show ?case by simp
next
  case (Cons x xs)
  show ?case
  proof (cases k)
    case 0
    with Cons.prems show ?thesis by simp
  next
    case (Suc k')
    have "\<not> P x" using Cons.prems(3) [of 0] Suc by simp
    moreover have "first_from P xs (Suc i) = Some (Suc i + k')"
    proof (rule Cons.IH)
      show "k' < length xs" "P (xs ! k')" using Cons.prems Suc by simp_all
      show "\<not> P (xs ! j)" if "j < k'" for j
        using Cons.prems(3) [of "Suc j"] Suc that by simp
    qed
    ultimately show ?thesis using Suc by simp
  qed
qed

lemma first_idx_eqI:
  "k < length xs \<Longrightarrow> P (xs ! k) \<Longrightarrow> (\<And>j. j < k \<Longrightarrow> \<not> P (xs ! j)) \<Longrightarrow>
     first_idx P xs = Some k"
  using first_from_eqI [of k xs P 0] by (simp add: first_idx_def)

section \<open>Lists updated by index\<close>

lemma length_filter_update:
  assumes "i < length xs"
  shows "int (length (filter P (xs[i := y]))) =
    int (length (filter P xs)) - (if P (xs ! i) then 1 else 0) + (if P y then 1 else 0)"
proof -
  have xs: "xs = take i xs @ xs ! i # drop (Suc i) xs"
    using assms by (rule id_take_nth_drop)
  have "filter P (xs[i := y]) = filter P (take i xs) @ filter P [y] @ filter P (drop (Suc i) xs)"
    using assms by (simp add: upd_conv_take_nth_drop)
  moreover have "filter P xs = filter P (take i xs) @ filter P [xs ! i] @ filter P (drop (Suc i) xs)"
    by (subst xs) simp
  ultimately show ?thesis by simp
qed

lemma nth_list_update_if: "i < length xs \<Longrightarrow> xs[i := y] ! j = (if j = i then y else xs ! j)"
  by (auto simp: nth_list_update)

end
