(* ===== verification/Spinlock.thy ===== *)
theory Spinlock
  imports Kernel_Prelude
begin

text \<open>
  Spin locks, kernel/spinlock.c. The first half is the code as it runs: a lock word, the
  CPU that holds it, the caller's return addresses, and the interrupt flag that
  \<open>pushcli\<close>/\<open>popcli\<close> nest. The kernel runs on one CPU (\<open>mycpu()\<close> in inc/proc.h is
  \<open>&cpus[0]\<close>). The second half is what the rest of the kernel relies on: the set of locks
  that are held. The refinement lemmas relate the two, so that the component theories
  carry only the set.
\<close>

section \<open>Lock names\<close>

text \<open>Every spin lock of the kernel is a static object or a field of one; the model names them.\<close>

datatype slid = SLBuf nat | SLInode nat | SLInodefile

datatype lockid =
    LKmem          \<comment> \<open>\<open>kmem.lock\<close>, kernel/kalloc.c\<close>
  | LPtable        \<comment> \<open>\<open>ptable.lock\<close>, kernel/proc.c\<close>
  | LBcache        \<comment> \<open>\<open>bcache.lock\<close>, kernel/bio.c\<close>
  | LIde           \<comment> \<open>\<open>idelock\<close>, kernel/ide.c\<close>
  | LIcache        \<comment> \<open>\<open>icache.lock\<close>, kernel/fs.c\<close>
  | LFtable        \<comment> \<open>\<open>ftable.lock\<close>, kernel/file.c\<close>
  | LPipe u64      \<comment> \<open>the \<open>lock\<close> field of a pipe, kernel/pipe.c\<close>
  | LCons          \<comment> \<open>\<open>cons.lock\<close>, kernel/console.c\<close>
  | LTicks         \<comment> \<open>\<open>tickslock\<close>, kernel/trap.c\<close>
  | LSleep slid    \<comment> \<open>the spin lock inside a sleep lock, inc/sleeplock.h\<close>

section \<open>The code\<close>

text \<open>\<open>struct spinlock\<close>, inc/spinlock.h; \<open>lk_cpu\<close> is an index into \<open>cpus\<close>, \<open>None\<close> for 0.\<close>

record spinlock =
  locked :: u32
  lk_name :: string
  lk_cpu :: "nat option"
  lk_pcs :: "u64 list"

text \<open>
  What the code reads and writes: the flags register, the nesting fields of \<open>cpus[0]\<close>, the
  frame pointer and the stack words it leads to, and the locks.
\<close>

record spin_machine =
  eflags :: u64
  ncli :: int
  intena :: u64
  rbp :: u64
  stack64 :: "u64 \<Rightarrow> u64"
  lks :: "lockid \<Rightarrow> spinlock"

abbreviation (input) FLAGS_IF :: u64 where "FLAGS_IF \<equiv> 0x200"
abbreviation (input) KERNBASE :: u64 where "KERNBASE \<equiv> 0xFFFFFFFF80000000"
abbreviation (input) mycpu :: nat where "mycpu \<equiv> 0"

definition if_set :: "spin_machine \<Rightarrow> bool" where
  "if_set m \<longleftrightarrow> bit (eflags m) 9"

definition cli :: "spin_machine \<Rightarrow> spin_machine" where
  "cli m = m\<lparr>eflags := unset_bit 9 (eflags m)\<rparr>"

definition sti :: "spin_machine \<Rightarrow> spin_machine" where
  "sti m = m\<lparr>eflags := set_bit 9 (eflags m)\<rparr>"

definition initlock :: "lockid \<Rightarrow> string \<Rightarrow> spin_machine \<Rightarrow> spin_machine" where
  "initlock l name m =
     m\<lparr>lks := (lks m)(l := (lks m l)\<lparr>lk_name := name, locked := 0, lk_cpu := None\<rparr>)\<rparr>"

text \<open>\<open>getcallerpcs\<close>: ten return addresses along the frame chain, zero once the chain ends.\<close>

fun callerpcs :: "(u64 \<Rightarrow> u64) \<Rightarrow> u64 \<Rightarrow> nat \<Rightarrow> u64 list" where
  "callerpcs mem fp 0 = []"
| "callerpcs mem fp (Suc k) =
     (if fp = 0 \<or> fp < KERNBASE \<or> fp = 0xffffffffffffffff then replicate (Suc k) 0
      else mem (fp + 8) # callerpcs mem (mem fp) k)"

definition getcallerpcs :: "(u64 \<Rightarrow> u64) \<Rightarrow> u64 \<Rightarrow> u64 list" where
  "getcallerpcs mem fp = callerpcs mem fp 10"

definition spin_holding :: "lockid \<Rightarrow> spin_machine \<Rightarrow> bool" where
  "spin_holding l m \<longleftrightarrow> locked (lks m l) \<noteq> 0 \<and> lk_cpu (lks m l) = Some mycpu"

definition pushcli :: "spin_machine \<Rightarrow> spin_machine" where
  "pushcli m =
     (let ef = eflags m;
          m = cli m;
          m = (if ncli m = 0 then m\<lparr>intena := ef AND FLAGS_IF\<rparr> else m)
      in m\<lparr>ncli := ncli m + 1\<rparr>)"

definition popcli :: "spin_machine \<Rightarrow> spin_machine stop + spin_machine" where
  "popcli m =
     (if if_set m then Inl (Panic ''popcli - interruptible'')
      else let m = m\<lparr>ncli := ncli m - 1\<rparr> in
        if ncli m < 0 then Inl (Panic ''popcli'')
        else if ncli m = 0 \<and> intena m \<noteq> 0 then Inr (sti m)
        else Inr m)"

text \<open>
  \<open>while (xchg(&lk->locked, 1) != 0);\<close> Interrupts are off and there is one CPU, so nobody
  else can clear the word: \<open>None\<close> is a loop that never ends.
\<close>

partial_function (option) spin :: "lockid \<Rightarrow> spin_machine \<Rightarrow> spin_machine option" where
  "spin l m =
     (let old = locked (lks m l); m' = m\<lparr>lks := (lks m)(l := (lks m l)\<lparr>locked := 1\<rparr>)\<rparr>
      in if old \<noteq> 0 then spin l m' else Some m')"

definition spin_acquire ::
    "lockid \<Rightarrow> spin_machine \<Rightarrow> (spin_machine stop + spin_machine) option" where
  "spin_acquire l m =
     (let m = pushcli m in
      if spin_holding l m then Some (Inl (Panic ''acquire''))
      else map_option
        (\<lambda>m. Inr (m\<lparr>lks := (lks m)(l := (lks m l)\<lparr>lk_cpu := Some mycpu,
                                    lk_pcs := getcallerpcs (stack64 m) (rbp m)\<rparr>)\<rparr>))
        (spin l m))"

definition spin_release :: "lockid \<Rightarrow> spin_machine \<Rightarrow> spin_machine stop + spin_machine" where
  "spin_release l m =
     (if \<not> spin_holding l m then Inl (Panic ''release'')
      else popcli (m\<lparr>lks := (lks m)(l := (lks m l)\<lparr>lk_pcs := (lk_pcs (lks m l))[0 := 0],
                                               lk_cpu := None, locked := 0\<rparr>)\<rparr>))"

section \<open>What the rest of the kernel sees: the set of held locks\<close>

record lk_state =
  held :: "lockid set"

definition holding :: "lockid \<Rightarrow> 'a lk_state_scheme \<Rightarrow> bool" where
  "holding l s \<longleftrightarrow> l \<in> held s"

definition acquire ::
    "lockid \<Rightarrow> 'a lk_state_scheme \<Rightarrow> 'a lk_state_scheme stop + 'a lk_state_scheme" where
  "acquire l s =
     (if holding l s then Inl (Panic ''acquire'') else Inr (s\<lparr>held := insert l (held s)\<rparr>))"

definition release ::
    "lockid \<Rightarrow> 'a lk_state_scheme \<Rightarrow> 'a lk_state_scheme stop + 'a lk_state_scheme" where
  "release l s =
     (if \<not> holding l s then Inl (Panic ''release'') else Inr (s\<lparr>held := held s - {l}\<rparr>))"

lemma wp_acquire [wp_eq]: "wp P Q (acquire l s) = (l \<notin> held s \<longrightarrow> P (s\<lparr>held := insert l (held s)\<rparr>))"
  by (simp add: acquire_def holding_def)

lemma wp_release [wp_eq]: "wp P Q (release l s) = (l \<in> held s \<longrightarrow> P (s\<lparr>held := held s - {l}\<rparr>))"
  by (simp add: release_def holding_def)

lemma wpt_acquire [wpt_eq]: "wpt P Q (acquire l s) = (l \<notin> held s \<and> P (s\<lparr>held := insert l (held s)\<rparr>))"
  by (simp add: acquire_def holding_def)

lemma wpt_release [wpt_eq]: "wpt P Q (release l s) = (l \<in> held s \<and> P (s\<lparr>held := held s - {l}\<rparr>))"
  by (simp add: release_def holding_def)

named_theorems lock_simps \<open>evaluation of lock operations on the set of held locks\<close>

lemma acquire_free [simp, lock_simps]:
  "l \<notin> held s \<Longrightarrow> acquire l s = Inr (s\<lparr>held := insert l (held s)\<rparr>)"
  by (simp add: acquire_def holding_def)

lemma acquire_held [simp, lock_simps]: "l \<in> held s \<Longrightarrow> acquire l s = Inl (Panic ''acquire'')"
  by (simp add: acquire_def holding_def)

lemma release_held [simp, lock_simps]:
  "l \<in> held s \<Longrightarrow> release l s = Inr (s\<lparr>held := held s - {l}\<rparr>)"
  by (simp add: release_def holding_def)

lemma acquire_Inr [bindr_iff]:
  "acquire l s = Inr s' \<longleftrightarrow> l \<notin> held s \<and> s' = s\<lparr>held := insert l (held s)\<rparr>"
  by (auto simp: acquire_def holding_def)

lemma release_Inr [bindr_iff]:
  "release l s = Inr s' \<longleftrightarrow> l \<in> held s \<and> s' = s\<lparr>held := held s - {l}\<rparr>"
  by (auto simp: release_def holding_def)

lemma held_insert_diff [simp]: "l \<notin> A \<Longrightarrow> insert l A - {l} = A"
  by simp

lemma held_update_id [simp]: "s\<lparr>held := held s\<rparr> = s"
  by simp

section \<open>Facts about the code\<close>

lemma length_callerpcs [simp]: "length (callerpcs mem fp k) = k"
  by (induction k arbitrary: fp) auto

lemma if_set_cli [simp]: "\<not> if_set (cli m)"
  by (simp add: if_set_def cli_def bit_simps)

lemma if_set_sti [simp]: "if_set (sti m)"
  by (simp add: if_set_def sti_def bit_simps)

lemma spin_free:
  "locked (lks m l) = 0 \<Longrightarrow> spin l m = Some (m\<lparr>lks := (lks m)(l := (lks m l)\<lparr>locked := 1\<rparr>)\<rparr>)"
  by (subst spin.simps) simp

lemma spin_locked: "locked (lks m l) \<noteq> 0 \<Longrightarrow> spin l m = None"
proof (rule ccontr)
  assume locked: "locked (lks m l) \<noteq> 0" and "spin l m \<noteq> None"
  then obtain m' where ret: "spin l m = Some m'" by blast
  have "locked (lks m l) = 0"
  proof (rule spin.raw_induct [where P = "\<lambda>l m m'. locked (lks m l) = 0", OF _ ret])
    fix f l m and m' :: spin_machine
    assume IH: "\<And>l m m'. f l m = Some m' \<Longrightarrow> locked (lks m l) = 0"
      and eq: "(let old = locked (lks m l); m' = m\<lparr>lks := (lks m)(l := (lks m l)\<lparr>locked := 1\<rparr>)\<rparr>
                in if old \<noteq> 0 then f l m' else Some m') = Some m'"
    show "locked (lks m l) = 0"
    proof (rule ccontr)
      assume "locked (lks m l) \<noteq> 0"
      with eq have "f l (m\<lparr>lks := (lks m)(l := (lks m l)\<lparr>locked := 1\<rparr>)\<rparr>) = Some m'"
        by (simp add: Let_def)
      from IH [OF this] show False by simp
    qed
  qed
  with locked show False by simp
qed

section \<open>The lock set is a refinement of the lock words\<close>

definition abs_locks :: "spin_machine \<Rightarrow> lk_state" where
  "abs_locks m = \<lparr>held = {l. locked (lks m l) \<noteq> 0}\<rparr>"

text \<open>
  The invariant: a taken lock is recorded as taken by this CPU; the nesting depth is the
  number of taken locks; interrupts are off while it is positive and \<open>intena\<close> remembers
  whether they were on (\<open>ie\<close>) before the outermost \<open>pushcli\<close>.
\<close>

definition spin_inv :: "bool \<Rightarrow> spin_machine \<Rightarrow> bool" where
  "spin_inv ie m \<longleftrightarrow>
     (\<forall>l. locked (lks m l) \<noteq> 0 \<longrightarrow> lk_cpu (lks m l) = Some mycpu) \<and>
     finite {l. locked (lks m l) \<noteq> 0} \<and>
     ncli m = int (card {l. locked (lks m l) \<noteq> 0}) \<and>
     (if ncli m = 0 then if_set m \<longleftrightarrow> ie
      else \<not> if_set m \<and> (intena m \<noteq> 0 \<longleftrightarrow> ie))"

lemma intena_iff: "eflags m AND FLAGS_IF \<noteq> 0 \<longleftrightarrow> if_set m"
proof -
  have *: "bit FLAGS_IF n \<longleftrightarrow> n = 9" for n
  proof -
    have "FLAGS_IF = push_bit 9 (1 :: u64)" by simp
    then show ?thesis by (simp only: bit_push_bit_iff) (auto simp: bit_1_iff)
  qed
  have "bit (eflags m AND FLAGS_IF) n \<longleftrightarrow> n = 9 \<and> if_set m" for n
    unfolding bit_and_iff * if_set_def by auto
  then show ?thesis
    unfolding bit_eq_iff [of "eflags m AND FLAGS_IF" 0] by simp
qed

text \<open>
  The effect of the nesting counter alone, on any predicate that does not look at it.
\<close>

lemma pushcli_fields [simp]:
  "lks (pushcli m) = lks m" "rbp (pushcli m) = rbp m" "stack64 (pushcli m) = stack64 m"
  "ncli (pushcli m) = ncli m + 1" "\<not> if_set (pushcli m)"
  by (simp_all add: pushcli_def cli_def Let_def if_set_def bit_simps)

lemma pushcli_intena:
  "intena (pushcli m) = (if ncli m = 0 then eflags m AND FLAGS_IF else intena m)"
  by (simp add: pushcli_def cli_def Let_def)

lemma spin_acquire_refines:
  assumes inv: "spin_inv ie m"
  shows "\<exists>r. spin_acquire l m = Some r \<and>
           map_sum (map_stop abs_locks) abs_locks r = acquire l (abs_locks m) \<and>
           (\<forall>m'. r = Inr m' \<longrightarrow> spin_inv ie m')"
proof (cases "locked (lks m l) = 0")
  case True
  let ?T = "{l. locked (lks m l) \<noteq> 0}"
  have fin: "finite ?T" and cpu: "\<forall>l. locked (lks m l) \<noteq> 0 \<longrightarrow> lk_cpu (lks m l) = Some mycpu"
    and n: "ncli m = int (card ?T)"
    using inv by (auto simp: spin_inv_def)
  let ?m1 = "(pushcli m)\<lparr>lks := (lks m)(l := (lks m l)\<lparr>locked := 1, lk_cpu := Some mycpu,
                  lk_pcs := getcallerpcs (stack64 m) (rbp m)\<rparr>)\<rparr>"
  have r: "spin_acquire l m = Some (Inr ?m1)"
    using True by (simp add: spin_acquire_def spin_holding_def spin_free Let_def)
  have T: "{l'. locked (lks ?m1 l') \<noteq> 0} = insert l ?T"
    by auto
  have card: "card (insert l ?T) = Suc (card ?T)"
    using True fin by simp
  have abs: "acquire l (abs_locks m) = Inr (abs_locks ?m1)"
    using True T by (simp add: abs_locks_def)
  have "intena ?m1 \<noteq> 0 \<longleftrightarrow> ie"
  proof (cases "ncli m = 0")
    case True
    then have "if_set m \<longleftrightarrow> ie" using inv by (simp add: spin_inv_def)
    with True show ?thesis by (simp add: pushcli_intena intena_iff)
  next
    case False
    then have "intena m \<noteq> 0 \<longleftrightarrow> ie" using inv unfolding spin_inv_def by auto
    with False show ?thesis by (simp add: pushcli_intena)
  qed
  moreover have "\<not> if_set ?m1"
    using pushcli_fields(5) [of m] by (simp add: if_set_def)
  ultimately have "spin_inv ie ?m1"
    using n cpu fin card unfolding spin_inv_def T by (simp add: card)
  with r abs show ?thesis by simp
next
  case False
  then have "spin_acquire l m = Some (Inl (Panic ''acquire''))"
    using inv by (simp add: spin_acquire_def spin_holding_def spin_inv_def Let_def)
  with False show ?thesis by (simp add: abs_locks_def)
qed

lemma spin_release_refines:
  assumes inv: "spin_inv ie m"
  shows "map_sum (map_stop abs_locks) abs_locks (spin_release l m) = release l (abs_locks m) \<and>
         (\<forall>m'. spin_release l m = Inr m' \<longrightarrow> spin_inv ie m')"
proof (cases "locked (lks m l) = 0")
  case True
  then show ?thesis
    by (simp add: spin_release_def spin_holding_def release_def holding_def abs_locks_def)
next
  case False
  let ?T = "{l. locked (lks m l) \<noteq> 0}"
  have fin: "finite ?T" and cpu: "\<forall>l. locked (lks m l) \<noteq> 0 \<longrightarrow> lk_cpu (lks m l) = Some mycpu"
    and n: "ncli m = int (card ?T)"
    using inv by (auto simp: spin_inv_def)
  have mem: "l \<in> ?T" using False by simp
  with fin have pos: "0 < card ?T" by (auto simp: card_gt_0_iff)
  let ?f = "(lks m)(l := (lks m l)\<lparr>lk_pcs := (lk_pcs (lks m l))[0 := 0], lk_cpu := None, locked := 0\<rparr>)"
  let ?m1 = "m\<lparr>lks := ?f, ncli := ncli m - 1\<rparr>"
  define m2 where "m2 = (if ncli ?m1 = 0 \<and> intena m \<noteq> 0 then sti ?m1 else ?m1)"
  have off: "\<not> if_set m" and intena: "intena m \<noteq> 0 \<longleftrightarrow> ie"
    using inv n pos by (auto simp: spin_inv_def)
  have r: "spin_release l m = Inr m2"
    using False cpu off n pos
    by (auto simp: m2_def spin_release_def spin_holding_def popcli_def Let_def if_set_def)
  have fields: "lks m2 = ?f" "ncli m2 = ncli m - 1" "intena m2 = intena m"
    by (simp_all add: m2_def sti_def)
  have T: "{l'. locked (lks m2 l') \<noteq> 0} = ?T - {l}"
    unfolding fields by auto
  have card: "int (card (?T - {l})) = ncli m - 1"
    using mem fin pos n by (simp add: card_Diff_singleton)
  have "if_set m2 \<longleftrightarrow> ncli m - 1 = 0 \<and> ie"
    using off intena by (auto simp: m2_def if_set_def sti_def bit_simps)
  moreover have "\<forall>l'. locked (lks m2 l') \<noteq> 0 \<longrightarrow> lk_cpu (lks m2 l') = Some mycpu"
    using cpu by (simp add: fields)
  ultimately have "spin_inv ie m2"
    using fin intena unfolding spin_inv_def T by (simp add: card fields)
  moreover have "release l (abs_locks m) = Inr (abs_locks m2)"
    using mem unfolding abs_locks_def T by (simp add: release_def holding_def)
  ultimately show ?thesis unfolding r by simp
qed

section \<open>Runs of lock operations\<close>

text \<open>One kernel thread takes and drops locks in any order that does not panic.\<close>

inductive spin_step :: "spin_machine \<Rightarrow> spin_machine \<Rightarrow> bool" where
  take: "spin_acquire l m = Some (Inr m') \<Longrightarrow> spin_step m m'"
| drop: "spin_release l m = Inr m' \<Longrightarrow> spin_step m m'"

lemma spin_step_inv: "spin_step m m' \<Longrightarrow> spin_inv ie m \<Longrightarrow> spin_inv ie m'"
proof (induction rule: spin_step.induct)
  case (take l m m')
  with spin_acquire_refines [of ie m l] show ?case by auto
next
  case (drop l m m')
  with spin_release_refines [of ie m l] show ?case by blast
qed

text \<open>The machine at boot: no lock taken, the counter zero.\<close>

definition spin_boot :: "spin_machine \<Rightarrow> bool" where
  "spin_boot m \<longleftrightarrow> ncli m = 0 \<and> (\<forall>l. locked (lks m l) = 0)"

lemma spin_boot_inv: "spin_boot m \<Longrightarrow> spin_inv (if_set m) m"
  by (simp add: spin_boot_def spin_inv_def)

lemma spin_steps_inv: "spin_step\<^sup>*\<^sup>* m m' \<Longrightarrow> spin_inv ie m \<Longrightarrow> spin_inv ie m'"
  by (induction rule: rtranclp_induct) (auto intro: spin_step_inv)

text \<open>
  C21. From a machine with no lock taken, after any sequence of \<open>acquire\<close> and \<open>release\<close>
  calls that does not panic: interrupts are off exactly while some lock is held or when they
  were off at the start, the counter is the number of held locks, and a further \<open>acquire\<close>
  never spins forever: it panics if the lock is already held and takes it otherwise.
\<close>

theorem spin_interrupts_off:
  assumes "spin_boot m0" and "spin_step\<^sup>*\<^sup>* m0 m"
  shows "(if_set m \<longleftrightarrow> (\<forall>l. locked (lks m l) = 0) \<and> if_set m0) \<and>
         ncli m = int (card {l. locked (lks m l) \<noteq> 0}) \<and>
         (\<forall>l. spin_acquire l m \<noteq> None \<and>
              (spin_acquire l m = Some (Inl (Panic ''acquire'')) \<longleftrightarrow> locked (lks m l) \<noteq> 0))"
proof -
  have inv: "spin_inv (if_set m0) m"
    using assms spin_boot_inv spin_steps_inv by blast
  let ?T = "{l. locked (lks m l) \<noteq> 0}"
  have n: "ncli m = int (card ?T)" and fin: "finite ?T"
    using inv by (auto simp: spin_inv_def)
  have "ncli m = 0 \<longleftrightarrow> ?T = {}" using n fin by simp
  then have "if_set m \<longleftrightarrow> ?T = {} \<and> if_set m0"
    using inv unfolding spin_inv_def by (auto split: if_splits)
  moreover have "spin_acquire l m \<noteq> None \<and>
      (spin_acquire l m = Some (Inl (Panic ''acquire'')) \<longleftrightarrow> locked (lks m l) \<noteq> 0)" for l
  proof -
    obtain r where r: "spin_acquire l m = Some r"
      and map: "map_sum (map_stop abs_locks) abs_locks r = acquire l (abs_locks m)"
      using spin_acquire_refines [OF inv] by blast
    show ?thesis
    proof (cases "locked (lks m l) = 0")
      case True
      with map show ?thesis by (cases r) (auto simp: r abs_locks_def)
    next
      case False
      with map have "map_sum (map_stop abs_locks) abs_locks r = Inl (Panic ''acquire'')"
        by (simp add: abs_locks_def)
      then obtain e where e: "r = Inl e" "map_stop abs_locks e = Panic ''acquire''"
        by (cases r) auto
      then show ?thesis using False by (cases e) (auto simp: r)
    qed
  qed
  ultimately show ?thesis using n by auto
qed

definition boot_machine :: spin_machine where
  "boot_machine = \<lparr>eflags = 0x200, ncli = 0, intena = 0, rbp = 0, stack64 = (\<lambda>_. 0),
     lks = (\<lambda>_. \<lparr>locked = 0, lk_name = ''kmem'', lk_cpu = None, lk_pcs = replicate 10 0\<rparr>)\<rparr>"

theorem spin_interrupts_off_witness:
  "\<exists>m. spin_step\<^sup>*\<^sup>* boot_machine m \<and> spin_boot boot_machine \<and> if_set boot_machine \<and>
       \<not> if_set m \<and> locked (lks m LKmem) = 1 \<and>
       spin_acquire LKmem m = Some (Inl (Panic ''acquire''))"
proof -
  have boot: "spin_boot boot_machine" "if_set boot_machine"
    by (simp_all add: spin_boot_def boot_machine_def if_set_def)
  obtain m where m: "spin_acquire LKmem boot_machine = Some (Inr m)" "locked (lks m LKmem) = 1"
    by (simp add: spin_acquire_def spin_holding_def spin_free boot_machine_def pushcli_def
        cli_def Let_def)
  then have run: "spin_step\<^sup>*\<^sup>* boot_machine m"
    by (blast intro: spin_step.take)
  show ?thesis
    using spin_interrupts_off [OF boot(1) run] boot run m(2) by auto
qed

end
