(* ===== verification/Phys_Mem.thy ===== *)
theory Phys_Mem
  imports Kernel_Prelude
begin

text \<open>
  Memory as the kernel addresses it: bytes at 64-bit addresses, little-endian 64-bit loads
  and stores (page-table entries, stack words), block fill and block copy, and the address
  arithmetic macros of inc/mmu.h and inc/memlayout.h. \<close>

type_synonym mem = "u64 \<Rightarrow> u8"

section \<open>Addresses\<close>

text \<open>inc/mmu.h: pages of 4096 bytes; inc/memlayout.h: the kernel's direct map.\<close>

abbreviation (input) PGSIZE :: nat where "PGSIZE \<equiv> 4096"

definition PGNUM :: "u64 \<Rightarrow> u64" where "PGNUM la = drop_bit 12 la"

definition PGROUNDUP :: "u64 \<Rightarrow> u64" where
  "PGROUNDUP sz = (sz + 4096 - 1) AND NOT (4096 - 1)"

definition PGROUNDDOWN :: "u64 \<Rightarrow> u64" where
  "PGROUNDDOWN a = a AND NOT (4096 - 1)"

abbreviation (input) KBASE :: u64 where "KBASE \<equiv> 0xFFFFFFFF80000000"

definition V2P :: "u64 \<Rightarrow> u64" where "V2P a = a - KBASE"

definition P2V :: "u64 \<Rightarrow> u64" where "P2V a = a + KBASE"

lemma V2P_P2V [simp]: "V2P (P2V a) = a" by (simp add: V2P_def P2V_def)

lemma P2V_V2P [simp]: "P2V (V2P a) = a" by (simp add: V2P_def P2V_def)

lemma P2V_inject [simp]: "P2V a = P2V b \<longleftrightarrow> a = b" by (simp add: P2V_def)

text \<open>Rounding in terms of division.\<close>

lemma unat_PGROUNDDOWN: "unat (PGROUNDDOWN a) = unat a div 4096 * 4096"
proof -
  have mask: "NOT (4096 - 1 :: u64) = NOT (mask 12)" by (simp add: mask_eq_exp_minus_1)
  have "PGROUNDDOWN a = push_bit 12 (drop_bit 12 a)"
    unfolding PGROUNDDOWN_def mask
    by (rule bit_word_eqI) (auto simp: bit_simps)
  also have "unat \<dots> = (unat a div 4096 * 4096) mod 2 ^ 64"
    by (simp add: push_bit_eq_mult drop_bit_eq_div unat_word_ariths unat_div_distrib
        mod_mult_left_eq)
  also have "\<dots> = unat a div 4096 * 4096"
    using unat_lt64 [of a] by (intro mod_less) (meson div_times_less_eq_dividend le_less_trans)
  finally show ?thesis .
qed

lemma unat_PGROUNDUP:
  assumes "unat a + 4095 < 2 ^ 64"
  shows "unat (PGROUNDUP a) = (unat a + 4095) div 4096 * 4096"
proof -
  have "unat (a + 4095) = unat a + 4095"
    using assms by (simp add: unat_word_ariths)
  moreover have "PGROUNDUP a = PGROUNDDOWN (a + 4095)"
    by (simp add: PGROUNDUP_def PGROUNDDOWN_def add.commute)
  ultimately show ?thesis by (simp only: unat_PGROUNDDOWN)
qed

definition page_aligned :: "u64 \<Rightarrow> bool" where
  "page_aligned a \<longleftrightarrow> 4096 dvd unat a"

section \<open>Pages\<close>

lemma pages_disjoint:
  assumes "page_aligned p" "page_aligned q" "p \<noteq> q" "unat (x - q) < 4096"
  shows "\<not> unat (x - p) < 4096"
proof
  assume p: "unat (x - p) < 4096"
  have *: "PGNUM x = PGNUM a" if "page_aligned a" "unat (x - a) < 4096" for a
  proof -
    obtain k where k: "unat a = 4096 * k" using \<open>page_aligned a\<close> by (auto simp: page_aligned_def)
    have "k < 2 ^ 52" using unat_lt64 [of a] k by simp
    then have "unat a + unat (x - a) < 2 ^ 64" using that(2) k by simp
    then have "unat x = unat a + unat (x - a)"
      using unat_plus64 [of a "x - a"] by simp
    then have "unat x div 4096 = unat a div 4096" using that(2) k by simp
    then show ?thesis
      by (simp add: PGNUM_def drop_bit_eq_div word_unat_eq_iff unat_div_distrib)
  qed
  from * [OF assms(1) p] * [OF assms(2,4)] have "PGNUM p = PGNUM q" by simp
  then have "unat p div 4096 = unat q div 4096"
    by (simp add: PGNUM_def drop_bit_eq_div word_unat_eq_iff unat_div_distrib)
  with assms(1,2) have "unat p = unat q" by (metis page_aligned_def dvd_div_mult_self)
  with assms(3) show False by (simp add: word_unat_eq_iff)
qed

section \<open>Block fill and block copy\<close>

definition mem_fill :: "mem \<Rightarrow> u64 \<Rightarrow> nat \<Rightarrow> u8 \<Rightarrow> mem" where
  "mem_fill m a n v = (\<lambda>x. if unat (x - a) < n then v else m x)"

definition mem_copy :: "mem \<Rightarrow> u64 \<Rightarrow> u64 \<Rightarrow> nat \<Rightarrow> mem" where
  "mem_copy m d s n = (\<lambda>x. if unat (x - d) < n then m (s + (x - d)) else m x)"

section \<open>64-bit loads and stores\<close>

definition rd64 :: "mem \<Rightarrow> u64 \<Rightarrow> u64" where
  "rd64 m a = fold (OR) (map (\<lambda>i. push_bit (8 * i) (ucast (m (a + of_nat i)))) [0..<8]) 0"

definition wr64 :: "mem \<Rightarrow> u64 \<Rightarrow> u64 \<Rightarrow> mem" where
  "wr64 m a v = (\<lambda>x. if unat (x - a) < 8 then ucast (drop_bit (8 * unat (x - a)) v) else m x)"

lemma bit_fold_or: "bit (fold (OR) xs (z :: u64)) n \<longleftrightarrow> bit z n \<or> (\<exists>x \<in> set xs. bit x n)"
  by (induction xs arbitrary: z) (auto simp: bit_or_iff)

lemma bit_rd64: "bit (rd64 m a) n \<longleftrightarrow> n < 64 \<and> bit (m (a + of_nat (n div 8))) (n mod 8)"
proof -
  have byte: "bit (push_bit (8 * i) (ucast (b :: u8) :: u64)) n \<longleftrightarrow>
      n < 64 \<and> 8 * i \<le> n \<and> n - 8 * i < 8 \<and> bit b (n - 8 * i)" for i b
    by (auto simp: bit_push_bit_iff bit_ucast_iff dest: bit_imp_le_length)
  have *: "bit (rd64 m a) n \<longleftrightarrow>
      (\<exists>i \<in> {0..<8}. n < 64 \<and> 8 * i \<le> n \<and> n - 8 * i < 8 \<and> bit (m (a + of_nat i)) (n - 8 * i))"
    unfolding rd64_def bit_fold_or by (simp only: set_map bex_simps set_upt byte) simp
  show ?thesis
  proof
    assume "bit (rd64 m a) n"
    then obtain i where i: "n < 64" "8 * i \<le> n" "n - 8 * i < 8"
        "bit (m (a + of_nat i)) (n - 8 * i)"
      using * by blast
    define k where "k = n - 8 * i"
    have "n = 8 * i + k" "k < 8" using i(2,3) by (simp_all add: k_def)
    then have "n div 8 = i" "n mod 8 = n - 8 * i" by simp_all
    with i show "n < 64 \<and> bit (m (a + of_nat (n div 8))) (n mod 8)" by simp
  next
    assume r: "n < 64 \<and> bit (m (a + of_nat (n div 8))) (n mod 8)"
    have "n mod 8 = n - 8 * (n div 8)" by (simp add: minus_mult_div_eq_mod)
    moreover have "n div 8 \<in> {0..<8}" "8 * (n div 8) \<le> n"
      using r by (simp_all add: less_mult_imp_div_less)
    ultimately have "n div 8 \<in> {0..<8} \<and> n < 64 \<and> 8 * (n div 8) \<le> n \<and>
        n - 8 * (n div 8) < 8 \<and> bit (m (a + of_nat (n div 8))) (n - 8 * (n div 8))"
      using r by (metis mod_less_divisor zero_less_numeral)
    then show "bit (rd64 m a) n" using * by blast
  qed
qed

lemma unat_of_nat8: "i < 8 \<Longrightarrow> unat (of_nat i :: u64) = i"
  by (simp add: unat_of_nat take_bit_nat_eq_self_iff)

lemma rd64_wr64_same [simp]: "rd64 (wr64 m a v) a = v"
proof (rule bit_word_eqI)
  fix n assume "n < LENGTH(64)"
  then have n: "n < 64" by simp
  have d: "unat (of_nat (n div 8) :: u64) = n div 8"
    using n by (intro unat_of_nat8) simp
  have "8 * (n div 8) + n mod 8 = n" by simp
  then show "bit (rd64 (wr64 m a v) a) n \<longleftrightarrow> bit v n"
    using n d by (simp add: bit_rd64 wr64_def bit_simps less_mult_imp_div_less)
qed

lemma aligned_apart:
  fixes a b :: u64
  assumes "8 dvd unat a" "8 dvd unat b" "a \<noteq> b" "i < 8"
  shows "8 \<le> unat (b + of_nat i - a)"
proof -
  define d where "d = unat (b - a)"
  have "d = (if unat a \<le> unat b then unat b - unat a else unat b + 2 ^ 64 - unat a)"
    unfolding d_def by (simp add: unat_sub_if_size word_size)
  then have dvd: "8 dvd d"
    using assms(1,2) unat_lt64 [of a] by (auto intro!: dvd_diff_nat)
  have "d \<noteq> 0" unfolding d_def using assms(3) by (simp add: unat_eq_0)
  with dvd have "8 \<le> d" by (auto dest: dvd_imp_le)
  have "d < 2 ^ 64" unfolding d_def by (rule unat_lt64)
  then have "d div 8 < 2 ^ 61" by (intro less_mult_imp_div_less) simp
  with dvd have "d + i < 2 ^ 64" using assms(4) by (auto elim!: dvdE)
  then have "unat (b - a + of_nat i) = d + i"
    using unat_of_nat8 [OF assms(4)] by (simp add: unat_word_ariths d_def)
  with \<open>8 \<le> d\<close> show ?thesis by (simp add: algebra_simps)
qed

lemma rd64_wr64_other:
  assumes "8 dvd unat a" "8 dvd unat b" "a \<noteq> b"
  shows "rd64 (wr64 m a v) b = rd64 m b"
proof (rule bit_word_eqI)
  fix n assume "n < LENGTH(64)"
  then have "n div 8 < 8" by simp
  then have "8 \<le> unat (b + of_nat (n div 8) - a)"
    using assms by (intro aligned_apart)
  then show "bit (rd64 (wr64 m a v) b) n \<longleftrightarrow> bit (rd64 m b) n"
    by (simp add: bit_rd64 wr64_def)
qed

lemma rd64_cong: "(\<And>i. i < 8 \<Longrightarrow> m (a + of_nat i) = m' (a + of_nat i)) \<Longrightarrow> rd64 m a = rd64 m' a"
  by (rule bit_word_eqI) (simp add: bit_rd64)

section \<open>Writing a block of bytes\<close>

fun store_bytes :: "mem \<Rightarrow> u64 \<Rightarrow> u8 list \<Rightarrow> mem" where
  "store_bytes m a [] = m"
| "store_bytes m a (b # bs) = store_bytes (m(a := b)) (a + 1) bs"

section \<open>Loops over the pages of a range\<close>

text \<open>
  \<open>for (a = start; a < stop; a += PGSIZE)\<close>. The body returns \<open>Inl r\<close> to leave the function with
  result \<open>r\<close> and \<open>Inr b\<close> to go on. A loop that uses up the number of pages below \<open>stop\<close> has
  wrapped around and never ends.
\<close>

fun for_pages :: "nat \<Rightarrow> u64 \<Rightarrow> u64 \<Rightarrow> (u64 \<Rightarrow> 'b \<Rightarrow> 's stop + 'r + 'b) \<Rightarrow> 'b \<Rightarrow> 's stop + 'r + 'b" where
  "for_pages 0 a stop f b = Inl (Fault ''loop does not end'')"
| "for_pages (Suc n) a stop f b =
     (if a < stop then
        bindr (f a b) (\<lambda>x. case x of Inl r \<Rightarrow> Inr (Inl r) | Inr b \<Rightarrow> for_pages n (a + 4096) stop f b)
      else Inr (Inr b))"

definition page_fuel :: "u64 \<Rightarrow> nat" where
  "page_fuel stop = unat stop div 4096 + 2"

text \<open>When the last page is not the last of the address space, the fuel is enough.\<close>

lemma for_pages_inv:
  assumes "unat stop + 4096 < 2 ^ 64" "unat stop \<le> unat a + 4096 * n" "I a b"
    and step: "\<And>a b. a < stop \<Longrightarrow> I a b \<Longrightarrow>
      (\<exists>r. f a b = Inr (Inl r) \<and> Q r) \<or> (\<exists>b'. f a b = Inr (Inr b') \<and> I (a + 4096) b')"
  shows "(\<exists>r. for_pages (Suc n) a stop f b = Inr (Inl r) \<and> Q r) \<or>
    (\<exists>a' b'. for_pages (Suc n) a stop f b = Inr (Inr b') \<and> I a' b' \<and> \<not> a' < stop)"
  using assms(2,3)
proof (induction n arbitrary: a b)
  case 0
  then have "\<not> a < stop" by (simp add: word_less_nat_alt)
  with 0 show ?case by auto
next
  case (Suc n)
  show ?case
  proof (cases "a < stop")
    case True
    then have "unat a < unat stop" by (simp add: word_less_nat_alt)
    then have up: "unat (a + 4096) = unat a + 4096"
      using assms(1) unat_plus64 [of a 4096] by simp
    from step [OF True Suc.prems(2)] show ?thesis
    proof
      assume "\<exists>b'. f a b = Inr (Inr b') \<and> I (a + 4096) b'"
      then obtain b' where b': "f a b = Inr (Inr b')" "I (a + 4096) b'" by blast
      have "unat stop \<le> unat (a + 4096) + 4096 * n" using Suc.prems(1) up by simp
      from Suc.IH [OF this b'(2)] True b'(1) show ?thesis by simp
    qed (use True in auto)
  next
    case False
    with Suc.prems(2) show ?thesis by auto
  qed
qed

lemma page_fuel_enough: "unat stop \<le> unat a + 4096 * (unat stop div 4096 + 1)"
proof -
  have "x \<le> y + 4096 * (x div 4096 + 1)" for x y :: nat
    using div_mult_mod_eq [of x 4096] mod_less_divisor [of 4096 x] by simp
  then show ?thesis .
qed

lemma wp_for_pages:
  assumes "I b" "\<And>a b. I b \<Longrightarrow> wp (case_sum P I) Q (f a b)"
  shows "wp (case_sum P I) Q (for_pages n a stop f b)"
  using assms(1)
proof (induction n arbitrary: a b)
  case (Suc n)
  let ?k = "\<lambda>x. case x of Inl r \<Rightarrow> Inr (Inl r) | Inr b \<Rightarrow> for_pages n (a + 4096) stop f b"
  have "wp (case_sum P I) Q (?k x)" if "case_sum P I x" for x
    using that Suc.IH by (cases x) simp_all
  then have "wp (\<lambda>x. wp (case_sum P I) Q (?k x)) Q (f a b)"
    by (rule wp_mono [OF assms(2) [OF Suc.prems]])
  then show ?case using Suc.prems by (simp add: wp_bindr)
qed simp

end
