(* ===== verification/Kstring.thy ===== *)
theory Kstring
  imports Phys_Mem
begin

text \<open>
  kernel/string.c over byte memory. Pointers are 64-bit addresses; each loop is a recursion
  on the number of bytes left, in the order the code visits them. \<open>strlen\<close> has no bound and
  is a partial function: \<open>None\<close> is a scan that never finds a zero byte.
\<close>

section \<open>memset\<close>

text \<open>\<open>stosb\<close> and \<open>stosl\<close> (inc/x86\_64.h): \<open>rep stosb\<close>, \<open>rep stosl\<close>.\<close>

fun stosb :: "mem \<Rightarrow> u64 \<Rightarrow> u8 \<Rightarrow> nat \<Rightarrow> mem" where
  "stosb m a v 0 = m"
| "stosb m a v (Suc n) = stosb (m(a := v)) (a + 1) v n"

definition wr32 :: "mem \<Rightarrow> u64 \<Rightarrow> u32 \<Rightarrow> mem" where
  "wr32 m a v = m(a := ucast v, a + 1 := ucast (drop_bit 8 v), a + 2 := ucast (drop_bit 16 v),
     a + 3 := ucast (drop_bit 24 v))"

fun stosl :: "mem \<Rightarrow> u64 \<Rightarrow> u32 \<Rightarrow> nat \<Rightarrow> mem" where
  "stosl m a v 0 = m"
| "stosl m a v (Suc n) = stosl (wr32 m a v) (a + 4) v n"

definition memset :: "mem \<Rightarrow> u64 \<Rightarrow> u32 \<Rightarrow> nat \<Rightarrow> mem" where
  "memset m dst c n =
     (if unat dst mod 4 = 0 \<and> n mod 4 = 0
      then let c = c AND 0xFF in
        stosl m dst (push_bit 24 c OR push_bit 16 c OR push_bit 8 c OR c) (n div 4)
      else stosb m dst (ucast c) n)"

section \<open>memcmp, memmove\<close>

fun memcmp :: "mem \<Rightarrow> u64 \<Rightarrow> u64 \<Rightarrow> nat \<Rightarrow> int" where
  "memcmp m s1 s2 0 = 0"
| "memcmp m s1 s2 (Suc n) =
     (if m s1 \<noteq> m s2 then uint (m s1) - uint (m s2) else memcmp m (s1 + 1) (s2 + 1) n)"

fun move_up :: "mem \<Rightarrow> u64 \<Rightarrow> u64 \<Rightarrow> nat \<Rightarrow> mem" where
  "move_up m d s 0 = m"
| "move_up m d s (Suc n) = move_up (m(d := m s)) (d + 1) (s + 1) n"

fun move_down :: "mem \<Rightarrow> u64 \<Rightarrow> u64 \<Rightarrow> nat \<Rightarrow> mem" where
  "move_down m d s 0 = m"
| "move_down m d s (Suc n) = move_down (m(d - 1 := m (s - 1))) (d - 1) (s - 1) n"

definition memmove :: "mem \<Rightarrow> u64 \<Rightarrow> u64 \<Rightarrow> nat \<Rightarrow> mem" where
  "memmove m d s n =
     (if s < d \<and> s + of_nat n > d
      then move_down m (d + of_nat n) (s + of_nat n) n
      else move_up m d s n)"

definition memcpy :: "mem \<Rightarrow> u64 \<Rightarrow> u64 \<Rightarrow> nat \<Rightarrow> mem" where
  "memcpy m d s n = memmove m d s n"

section \<open>String functions\<close>

fun strncmp :: "mem \<Rightarrow> u64 \<Rightarrow> u64 \<Rightarrow> nat \<Rightarrow> int" where
  "strncmp m p q 0 = 0"
| "strncmp m p q (Suc n) =
     (if m p \<noteq> 0 \<and> m p = m q then strncmp m (p + 1) (q + 1) n
      else uint (m p) - uint (m q))"

text \<open>\<open>strncpy\<close>: the copying loop, then the padding loop with what is left of \<open>n\<close>.\<close>

fun strncpy :: "mem \<Rightarrow> u64 \<Rightarrow> u64 \<Rightarrow> nat \<Rightarrow> mem" where
  "strncpy m s t 0 = m"
| "strncpy m s t (Suc n) =
     (if m t \<noteq> 0 then strncpy (m(s := m t)) (s + 1) (t + 1) n
      else stosb (m(s := 0)) (s + 1) 0 n)"

text \<open>\<open>safestrcpy\<close>: the argument of the loop is \<open>n - 1\<close>, the number of copies allowed.\<close>

fun safestrcpy_loop :: "mem \<Rightarrow> u64 \<Rightarrow> u64 \<Rightarrow> nat \<Rightarrow> mem" where
  "safestrcpy_loop m s t 0 = m(s := 0)"
| "safestrcpy_loop m s t (Suc k) =
     (let m' = m(s := m t) in
      if m t \<noteq> 0 then safestrcpy_loop m' (s + 1) (t + 1) k else m'(s + 1 := 0))"

definition safestrcpy :: "mem \<Rightarrow> u64 \<Rightarrow> u64 \<Rightarrow> int \<Rightarrow> mem" where
  "safestrcpy m s t n = (if n \<le> 0 then m else safestrcpy_loop m s t (nat (n - 1)))"

partial_function (option) strlen_from :: "mem \<Rightarrow> u64 \<Rightarrow> nat \<Rightarrow> nat option" where
  "strlen_from m s n = (if m (s + of_nat n) = 0 then Some n else strlen_from m s (Suc n))"

definition strlen :: "mem \<Rightarrow> u64 \<Rightarrow> nat option" where
  "strlen m s = strlen_from m s 0"

section \<open>Fills\<close>

lemma unat_sub_step: "x \<noteq> a \<Longrightarrow> unat (x - a :: u64) = Suc (unat (x - (a + 1)))"
  using unat_minus_one [of "x - a"] unat_gt_0 [of "x - a"] by (simp add: algebra_simps)

lemma unat_sub_Suc: "unat (x - a :: u64) < Suc n \<longleftrightarrow> x = a \<or> unat (x - (a + 1)) < n"
  by (cases "x = a") (simp_all add: unat_sub_step)

lemma stosb_fill: "stosb m a v n = mem_fill m a n v"
proof (induction n arbitrary: m a)
  case 0
  show ?case by (simp add: mem_fill_def)
next
  case (Suc n)
  show ?case by (rule ext) (simp add: Suc mem_fill_def unat_sub_Suc)
qed

lemma wr32_fill:
  assumes "ucast v = b" "ucast (drop_bit 8 v) = b" "ucast (drop_bit 16 v) = b"
    "ucast (drop_bit 24 v) = b"
  shows "wr32 m a v = mem_fill m a 4 b"
proof -
  have 4: "4 = Suc (Suc (Suc (Suc 0)))" by simp
  have "wr32 m a v = stosb m a b 4"
    unfolding wr32_def assms 4 stosb.simps by (simp add: add.assoc)
  then show ?thesis by (simp add: stosb_fill)
qed

lemma mem_fill_fill:
  assumes "k + n \<le> 2 ^ 64"
  shows "mem_fill (mem_fill m a k v) (a + of_nat k) n v = mem_fill m a (k + n) v"
proof -
  have "stosb (stosb m a v k) (a + of_nat k) v n = stosb m a v (k + n)"
    by (induction k arbitrary: m a) (simp_all add: add.assoc [symmetric])
  then show ?thesis by (simp add: stosb_fill)
qed

lemma stosl_fill:
  assumes "\<And>m a. wr32 m a v = mem_fill m a 4 b" and "4 * n \<le> 2 ^ 64"
  shows "stosl m a v n = mem_fill m a (4 * n) b"
  using assms(2)
proof (induction n arbitrary: m a)
  case 0
  show ?case by (simp add: mem_fill_def)
next
  case (Suc n)
  have "stosl m a v (Suc n) = mem_fill (mem_fill m a 4 b) (a + of_nat 4) (4 * n) b"
    using Suc by (simp add: assms(1))
  also have "\<dots> = mem_fill m a (4 + 4 * n) b"
    using Suc.prems by (intro mem_fill_fill) simp
  finally show ?case by (simp add: add.commute)
qed

lemma memset_pattern:
  fixes c :: u32
  defines "v \<equiv> push_bit 24 (c AND 0xFF) OR push_bit 16 (c AND 0xFF) OR push_bit 8 (c AND 0xFF) OR (c AND 0xFF)"
  shows "ucast v = (ucast c :: u8)" "ucast (drop_bit 8 v) = (ucast c :: u8)"
    "ucast (drop_bit 16 v) = (ucast c :: u8)" "ucast (drop_bit 24 v) = (ucast c :: u8)"
proof -
  have c: "c AND 0xFF = take_bit 8 c" by (simp add: take_bit_eq_mask mask_eq_exp_minus_1)
  show "ucast v = (ucast c :: u8)" "ucast (drop_bit 8 v) = (ucast c :: u8)"
    "ucast (drop_bit 16 v) = (ucast c :: u8)" "ucast (drop_bit 24 v) = (ucast c :: u8)"
    unfolding v_def c by (rule bit_word_eqI; auto simp: bit_simps)+
qed

lemma memset_fill:
  assumes "n \<le> 2 ^ 32"
  shows "memset m dst c n = mem_fill m dst n (ucast c)"
proof (cases "unat dst mod 4 = 0 \<and> n mod 4 = 0")
  case True
  have "4 * (n div 4) = n" using True by auto
  moreover have "4 * (n div 4) \<le> 2 ^ 64" using assms \<open>4 * (n div 4) = n\<close> by simp
  moreover have "wr32 m a (push_bit 24 (c AND 0xFF) OR push_bit 16 (c AND 0xFF) OR
      push_bit 8 (c AND 0xFF) OR (c AND 0xFF)) = mem_fill m a 4 (ucast c)" for m a
    by (intro wr32_fill memset_pattern)
  ultimately have "stosl m dst (push_bit 24 (c AND 0xFF) OR push_bit 16 (c AND 0xFF) OR
      push_bit 8 (c AND 0xFF) OR (c AND 0xFF)) (n div 4) = mem_fill m dst n (ucast c)"
    using stosl_fill by metis
  with True show ?thesis by (simp only: memset_def Let_def if_True simp_thms)
next
  case False
  then show ?thesis by (auto simp: memset_def stosb_fill)
qed

text \<open>
  C26. \<open>memset\<close> fills exactly the \<open>n\<close> bytes at \<open>dst\<close> with the low byte of \<open>c\<close>, whether it
  stores 32-bit words (both the address and the length multiples of four) or single bytes.
\<close>

theorem memset_fills:
  assumes "n \<le> 2 ^ 32"
  shows "memset m dst c n = mem_fill m dst n (ucast c)"
  using assms by (rule memset_fill)

theorem memset_fills_witness:
  "memset (\<lambda>_. 7) 8 0x102 8 = mem_fill (\<lambda>_. 7) 8 8 2"
proof -
  have "(258 :: u8) = 2" by (simp add: word_unat_eq_iff)
  with memset_fills [of 8 "\<lambda>_. 7" 8 "0x102"] show ?thesis by simp
qed

section \<open>Copies\<close>

lemma move_up_copy:
  assumes "\<And>k j. k < n \<Longrightarrow> j < k \<Longrightarrow> s + of_nat k \<noteq> d + of_nat j"
  shows "move_up m d s n = mem_copy m d s n"
  using assms
proof (induction n arbitrary: m d s)
  case 0
  show ?case by (simp add: mem_copy_def)
next
  case (Suc n)
  have "s + 1 + of_nat k \<noteq> d + 1 + of_nat j" if "k < n" "j < k" for k j
    using Suc.prems [of "Suc k" "Suc j"] that by (simp add: algebra_simps)
  then have IH: "move_up m d s (Suc n) = mem_copy (m(d := m s)) (d + 1) (s + 1) n"
    unfolding move_up.simps by (rule Suc.IH)
  show ?case
  proof (rule ext)
    fix x
    have "s + (x - d) \<noteq> d" if "unat (x - d) < Suc n" "x \<noteq> d"
    proof -
      have "0 < unat (x - d)" using that(2) by (simp add: unat_gt_0)
      from Suc.prems [OF that(1) this] show ?thesis by simp
    qed
    then show "move_up m d s (Suc n) x = mem_copy m d s (Suc n) x"
      unfolding IH mem_copy_def
      by (cases "x = d") (simp_all add: unat_sub_step)
  qed
qed

lemma move_down_copy:
  assumes "n \<le> 2 ^ 64" and "\<And>k j. k < j \<Longrightarrow> j < n \<Longrightarrow> s + of_nat k \<noteq> d + of_nat j"
  shows "move_down m (d + of_nat n) (s + of_nat n) n = mem_copy m d s n"
  using assms
proof (induction n arbitrary: m)
  case 0
  show ?case by (simp add: mem_copy_def)
next
  case (Suc n)
  have n: "unat (of_nat n :: u64) = n" using Suc.prems(1) by (intro unat_of_nat64) simp
  let ?m = "m(d + of_nat n := m (s + of_nat n))"
  have "move_down m (d + of_nat (Suc n)) (s + of_nat (Suc n)) (Suc n) = mem_copy ?m d s n"
  proof -
    have "move_down ?m (d + of_nat n) (s + of_nat n) n = mem_copy ?m d s n"
      using Suc.prems by (intro Suc.IH) simp_all
    moreover have "x + of_nat (Suc n) - 1 = x + of_nat n" for x :: u64 by simp
    ultimately show ?thesis by (simp only: move_down.simps)
  qed
  also have "\<dots> = mem_copy m d s (Suc n)"
  proof (rule ext)
    fix x
    consider "unat (x - d) < n" | "x = d + of_nat n" | "unat (x - d) > n"
    proof -
      have "x - d = of_nat n" if "unat (x - d) = n"
        using that n by (simp only: word_unat_eq_iff)
      then have "x = d + of_nat n" if "unat (x - d) = n"
        using that by (simp add: diff_eq_eq add.commute)
      then show ?thesis using that by linarith
    qed
    then show "mem_copy ?m d s n x = mem_copy m d s (Suc n) x"
    proof cases
      case 1
      then have "s + (x - d) \<noteq> d + of_nat n" using Suc.prems(2) [OF 1] by simp
      with 1 show ?thesis by (simp add: mem_copy_def)
    qed (auto simp: mem_copy_def n)
  qed
  finally show ?case .
qed

lemma memmove_copy:
  assumes s: "unat s + n < 2 ^ 64" and d: "unat d + n < 2 ^ 64"
  shows "memmove m d s n = mem_copy m d s n"
proof (cases "s < d \<and> s + of_nat n > d")
  case True
  have "s + of_nat k \<noteq> d + of_nat j" if "k < j" "j < n" for k j
  proof
    assume eq: "s + of_nat k = d + of_nat j"
    have "unat (s + of_nat k) = unat s + k" "unat (d + of_nat j) = unat d + j"
      using s d that by (simp_all add: unat_plus64 unat_of_nat64)
    with eq have "unat s + k = unat d + j" by simp
    with that True show False by (simp add: word_less_nat_alt)
  qed
  moreover have "n \<le> 2 ^ 64" using s by linarith
  ultimately have "move_down m (d + of_nat n) (s + of_nat n) n = mem_copy m d s n"
    by (intro move_down_copy)
  with True show ?thesis by (simp add: memmove_def)
next
  case False
  have "s + of_nat k \<noteq> d + of_nat j" if "k < n" "j < k" for k j
  proof
    assume eq: "s + of_nat k = d + of_nat j"
    have u: "unat (s + of_nat k) = unat s + k" "unat (d + of_nat j) = unat d + j"
        "unat (s + of_nat n) = unat s + n"
      using s d that by (simp_all add: unat_plus64 unat_of_nat64)
    with eq have "unat s + k = unat d + j" by simp
    with that u(3) False show False by (simp add: word_less_nat_alt)
  qed
  then have "move_up m d s n = mem_copy m d s n"
    by (rule move_up_copy)
  with False show ?thesis by (auto simp: memmove_def)
qed

text \<open>
  C25. \<open>memmove\<close> copies \<open>n\<close> bytes as if through a temporary: whatever the overlap, every
  destination byte receives the source byte that was there before the call and no other byte
  changes, as long as neither block wraps around the address space.
\<close>

theorem memmove_copies:
  assumes "unat s + n < 2 ^ 64" and "unat d + n < 2 ^ 64"
  shows "memmove m d s n = mem_copy m d s n"
  using assms by (rule memmove_copy)

theorem memmove_copies_witness:
  "memmove (\<lambda>x. ucast x) 12 10 4 13 = 11 \<and> memmove (\<lambda>x. ucast x) 8 10 4 9 = 11"
  using memmove_copies [of 10 4 12 "\<lambda>x. ucast x"] memmove_copies [of 10 4 8 "\<lambda>x. ucast x"]
  by (simp add: mem_copy_def)

section \<open>Strings\<close>

text \<open>The \<open>n\<close> bytes at an address, and the C string there cut off after \<open>n\<close> bytes.\<close>

fun mem_bytes :: "mem \<Rightarrow> u64 \<Rightarrow> nat \<Rightarrow> u8 list" where
  "mem_bytes m a 0 = []"
| "mem_bytes m a (Suc n) = m a # mem_bytes m (a + 1) n"

definition cstr :: "mem \<Rightarrow> u64 \<Rightarrow> nat \<Rightarrow> u8 list" where
  "cstr m a n = takeWhile (\<lambda>b. b \<noteq> 0) (mem_bytes m a n)"

lemma cstr_simps [simp]:
  "cstr m a 0 = []"
  "cstr m a (Suc n) = (if m a = 0 then [] else m a # cstr m (a + 1) n)"
  by (simp_all add: cstr_def)

lemma length_mem_bytes [simp]: "length (mem_bytes m a n) = n"
  by (induction n arbitrary: a) simp_all

lemma length_cstr: "length (cstr m a n) \<le> n"
  by (metis cstr_def length_mem_bytes length_takeWhile_le)

lemma mem_bytes_nth: "i < n \<Longrightarrow> mem_bytes m a n ! i = m (a + of_nat i)"
proof (induction n arbitrary: a i)
  case (Suc n)
  then show ?case by (cases i) (simp_all add: add.assoc)
qed simp

lemma mem_bytes_cong:
  assumes "\<And>i. i < n \<Longrightarrow> m (a + of_nat i) = m' (a + of_nat i)"
  shows "mem_bytes m a n = mem_bytes m' a n"
  using assms by (intro nth_equalityI) (simp_all add: mem_bytes_nth)

lemma memcmp_eq_0: "memcmp m s1 s2 n = 0 \<longleftrightarrow> mem_bytes m s1 n = mem_bytes m s2 n"
  by (induction n arbitrary: s1 s2) (simp_all add: word_uint_eq_iff)

text \<open>
  C31. \<open>strncmp\<close> answers 0 exactly when the two C strings, cut off after \<open>n\<close> bytes, are equal:
  this is the equality \<open>namecmp\<close> uses on directory entries, whose names have no terminating
  zero when they fill all \<open>DIRSIZ\<close> bytes.
\<close>

theorem strncmp_eq_0: "strncmp m p q n = 0 \<longleftrightarrow> cstr m p n = cstr m q n"
proof (induction n arbitrary: p q)
  case (Suc n)
  show ?case
    by (cases "m p = 0"; cases "m q = 0") (auto simp: Suc word_uint_eq_iff)
qed simp

lemma strlen_from_Some:
  assumes "strlen_from m s i = Some n"
  shows "i \<le> n \<and> m (s + of_nat n) = 0 \<and> (\<forall>k. i \<le> k \<and> k < n \<longrightarrow> m (s + of_nat k) \<noteq> 0)"
proof (rule strlen_from.raw_induct [OF _ assms])
  fix f :: "mem \<Rightarrow> u64 \<Rightarrow> nat \<Rightarrow> nat option" and m s i n
  assume IH: "\<And>m s i n. f m s i = Some n \<Longrightarrow>
      i \<le> n \<and> m (s + of_nat n) = 0 \<and> (\<forall>k. i \<le> k \<and> k < n \<longrightarrow> m (s + of_nat k) \<noteq> 0)"
    and eq: "(if m (s + of_nat i) = 0 then Some i else f m s (Suc i)) = Some n"
  show "i \<le> n \<and> m (s + of_nat n) = 0 \<and> (\<forall>k. i \<le> k \<and> k < n \<longrightarrow> m (s + of_nat k) \<noteq> 0)"
  proof (cases "m (s + of_nat i) = 0")
    case False
    with eq IH [of m s "Suc i" n] show ?thesis
      by (auto simp: Suc_le_eq) (metis le_neq_implies_less)
  qed (use eq in auto)
qed

lemma strlen_from_finds:
  assumes "m (s + of_nat (i + d)) = 0" and "\<And>k. k < d \<Longrightarrow> m (s + of_nat (i + k)) \<noteq> 0"
  shows "strlen_from m s i = Some (i + d)"
  using assms
proof (induction d arbitrary: i)
  case 0
  then show ?case by (subst strlen_from.simps) simp
next
  case (Suc d)
  have "strlen_from m s (Suc i) = Some (Suc i + d)"
  proof (rule Suc.IH)
    show "m (s + of_nat (Suc i + d)) = 0" using Suc.prems(1) by simp
    show "m (s + of_nat (Suc i + k)) \<noteq> 0" if "k < d" for k
      using Suc.prems(2) [of "Suc k"] that by simp
  qed
  then show ?case using Suc.prems(2) [of 0] by (subst strlen_from.simps) simp
qed


lemma safestrcpy_loop_spec:
  assumes "k < 2 ^ 32" and "\<And>i j. i \<le> k \<Longrightarrow> j < k \<Longrightarrow> s + of_nat i \<noteq> t + of_nat j"
  shows "mem_bytes (safestrcpy_loop m s t k) s (Suc (length (cstr m t k))) = cstr m t k @ [0] \<and>
    (\<forall>x. unat (x - s) > k \<longrightarrow> safestrcpy_loop m s t k x = m x)"
  using assms
proof (induction k arbitrary: m s t)
  case 0
  show ?case by auto
next
  case (Suc k)
  let ?m = "m(s := m t)"
  have "mem_bytes ?m (t + 1) k = mem_bytes m (t + 1) k"
    using Suc.prems(2) [of 0 "Suc i" for i] by (intro mem_bytes_cong) (auto simp: add.assoc)
  then have w: "cstr ?m (t + 1) k = cstr m (t + 1) k" by (simp add: cstr_def)
  have "unat (-1 :: u64) = 2 ^ 64 - 1"
    by (simp add: unsigned_minus_1_eq_mask mask_eq_exp_minus_1)
  then have self: "unat (s - (s + 1)) > k" using Suc.prems(1) by simp
  have far: "unat (x - (s + 1)) > k \<and> x \<noteq> s" if "unat (x - s) > Suc k" for x
    using that unat_sub_step [of x s] by (cases "x = s") simp_all
  have "k < 2 ^ 32" using Suc.prems(1) by simp
  moreover have "s + 1 + of_nat i \<noteq> t + 1 + of_nat j" if "i \<le> k" "j < k" for i j
    using Suc.prems(2) [of "Suc i" "Suc j"] that by (simp add: algebra_simps)
  ultimately have "mem_bytes (safestrcpy_loop ?m (s + 1) (t + 1) k) (s + 1)
      (Suc (length (cstr ?m (t + 1) k))) = cstr ?m (t + 1) k @ [0] \<and>
    (\<forall>x. unat (x - (s + 1)) > k \<longrightarrow> safestrcpy_loop ?m (s + 1) (t + 1) k x = ?m x)"
    by (rule Suc.IH)
  then show ?case using self far by (auto simp: Let_def w)
qed

text \<open>
  C28. \<open>safestrcpy\<close> leaves a terminated string in the buffer: with \<open>n\<close> bytes of room and a
  source disjoint from the buffer, the buffer then holds the source string cut off after
  \<open>n - 1\<close> bytes followed by a zero, and nothing outside the \<open>n\<close> bytes changes.
\<close>

theorem safestrcpy_terminates_string:
  assumes "0 < n" and "n < 2 ^ 31"
    and "\<And>i j. i < nat n \<Longrightarrow> j < nat n \<Longrightarrow> s + of_nat i \<noteq> t + of_nat j"
  shows "mem_bytes (safestrcpy m s t n) s (Suc (length (cstr m t (nat (n - 1))))) =
      cstr m t (nat (n - 1)) @ [0] \<and>
    (\<forall>x. nat n \<le> unat (x - s) \<longrightarrow> safestrcpy m s t n x = m x)"
proof -
  have "nat (n - 1) < 2 ^ 32" using assms(1,2) by simp
  moreover have "s + of_nat i \<noteq> t + of_nat j" if "i \<le> nat (n - 1)" "j < nat (n - 1)" for i j
    using assms(1) that by (intro assms(3)) linarith+
  ultimately show ?thesis
    using safestrcpy_loop_spec [of "nat (n - 1)" s t m] assms(1)
    by (auto simp: safestrcpy_def)
qed

theorem safestrcpy_terminates_string_witness:
  "mem_bytes (safestrcpy (\<lambda>x. ucast x) 16 98 4) 16 (Suc 3) = [98, 99, 100, 0] \<and>
   safestrcpy (\<lambda>x. ucast x) 16 98 4 20 = 20"
proof -
  have "(16 :: u64) + of_nat i \<noteq> 98 + of_nat j" if "i < nat 4" "j < nat 4" for i j
    using that by (auto simp: word_unat_eq_iff unat_word_ariths unat_of_nat)
  moreover have "cstr (\<lambda>x. ucast x) 98 (nat (4 - 1)) = [98, 99, 100]"
    by (simp add: numeral_3_eq_3 del: One_nat_def)
  ultimately show ?thesis
    using safestrcpy_terminates_string [of 4 16 98 "\<lambda>x. ucast x"]
    by (simp del: mem_bytes.simps add: numeral_3_eq_3)
qed

end
