(* ===== verification/Kalloc.thy ===== *)
theory Kalloc
  imports Spinlock Kstring
begin

text \<open>
  The physical page allocator, kernel/kalloc.c: the core map with one entry per physical page,
  boot-time memory detection and initialisation, allocation, freeing and reference counts.
  The interface the rest of the kernel relies on is the locale \<open>page_allocator\<close>, interpreted
  on \<open>kalloc\<close>, \<open>kfree\<close> and \<open>kincref\<close> at the end.
\<close>

section \<open>State\<close>

text \<open>\<open>struct core_map_entry\<close> of inc/mmu.h.\<close>

record core_map_entry =
  available :: int
  user :: int
  cm_va :: u64
  ref :: int

text \<open>
  The globals of kalloc.c, the linker symbol \<open>_end\<close> and physical memory seen through the
  kernel's direct map. The core map is an array of its own; the bytes that hold it are the
  ones \<open>mem_init\<close> clears. The counters are C ints that no reachable configuration brings near
  their limits (the number of pages is below \<open>2 ^ 19\<close>), so they are unbounded here.
\<close>

record kmem_state = lk_state +
  core_map :: "core_map_entry list"
  npages :: int
  use_lock :: int
  pages_in_use :: int
  pages_in_swap :: int
  free_pages :: int
  k_end :: u64
  pmem :: mem

section \<open>Operations\<close>

text \<open>\<open>npages * PGSIZE\<close> is a product of two ints: it wraps to 32 bits, then it is widened.\<close>

definition mem_top :: "'a kmem_state_scheme \<Rightarrow> u64" where
  "mem_top s = word_of_int (signed_take_bit 31 (npages s * 4096))"

definition pa2page :: "u64 \<Rightarrow> 'a kmem_state_scheme \<Rightarrow> 'a kmem_state_scheme stop + nat" where
  "pa2page pa s =
     (if PGNUM pa \<ge> word_of_int (npages s) then Inl (Panic ''pa2page called with invalid pa'')
      else Inr (unat (PGNUM pa)))"

definition page2pa :: "nat \<Rightarrow> u64" where
  "page2pa i = push_bit 12 (of_nat i)"

record e820_entry =
  e_addr :: u64
  e_len :: u64

definition detect_memory :: "e820_entry list \<Rightarrow> 'a kmem_state_scheme \<Rightarrow> 'a kmem_state_scheme" where
  "detect_memory entries s =
     (let mem_max = - KBASE;
          mem = foldl (\<lambda>mem e. if e_addr e \<ge> mem_max then mem else max mem (e_addr e + e_len e))
                  0 entries
      in s\<lparr>npages := uint (min mem mem_max div 4096)\<rparr>)"

definition kmem_acquire :: "'a kmem_state_scheme \<Rightarrow> 'a kmem_state_scheme stop + 'a kmem_state_scheme" where
  "kmem_acquire s = (if use_lock s \<noteq> 0 then acquire LKmem s else Inr s)"

definition kmem_release :: "'a kmem_state_scheme \<Rightarrow> 'a kmem_state_scheme stop + 'a kmem_state_scheme" where
  "kmem_release s = (if use_lock s \<noteq> 0 then release LKmem s else Inr s)"

text \<open>An update of entry \<open>r\<close> through a pointer into the core map.\<close>

definition cm_upd :: "nat \<Rightarrow> (core_map_entry \<Rightarrow> core_map_entry) \<Rightarrow> 'a kmem_state_scheme \<Rightarrow> 'a kmem_state_scheme" where
  "cm_upd r f s = s\<lparr>core_map := (core_map s)[r := f (core_map s ! r)]\<rparr>"

definition kfree :: "u64 \<Rightarrow> 'a kmem_state_scheme \<Rightarrow> 'a kmem_state_scheme stop + 'a kmem_state_scheme" where
  "kfree v s =
     (if unat v mod PGSIZE \<noteq> 0 \<or> v < k_end s \<or> V2P v \<ge> mem_top s then Inl (Panic ''kfree'')
      else bindr (kmem_acquire s) (\<lambda>s.
        bindr (pa2page (V2P v) s) (\<lambda>r.
        bindr (arr_get ''core_map'' (core_map s) r) (\<lambda>e.
          if ref e > 1 then kmem_release (cm_upd r (\<lambda>e. e\<lparr>ref := ref e - 1\<rparr>) s)
          else
            let s = s\<lparr>pages_in_use := pages_in_use s - 1, free_pages := free_pages s + 1\<rparr>;
                s = s\<lparr>pmem := memset (pmem s) v 2 PGSIZE\<rparr>
            in kmem_release (cm_upd r (\<lambda>e. e\<lparr>available := 1, user := 0, cm_va := 0, ref := 0\<rparr>) s)))))"

definition kincref :: "u64 \<Rightarrow> 'a kmem_state_scheme \<Rightarrow> 'a kmem_state_scheme stop + 'a kmem_state_scheme" where
  "kincref pa s =
     bindr (pa2page pa s) (\<lambda>r.
     bindr (arr_get ''core_map'' (core_map s) r) (\<lambda>e.
       Inr (cm_upd r (\<lambda>e. e\<lparr>ref := ref e + 1\<rparr>) s)))"

definition mark_user_mem :: "u64 \<Rightarrow> u64 \<Rightarrow> 'a kmem_state_scheme \<Rightarrow> 'a kmem_state_scheme stop + 'a kmem_state_scheme" where
  "mark_user_mem pa va s =
     bindr (pa2page pa s) (\<lambda>r.
     bindr (arr_get ''core_map'' (core_map s) r) (\<lambda>e.
       Inr (cm_upd r (\<lambda>e. e\<lparr>user := 1, cm_va := va\<rparr>) s)))"

definition mark_kernel_mem :: "u64 \<Rightarrow> 'a kmem_state_scheme \<Rightarrow> 'a kmem_state_scheme stop + 'a kmem_state_scheme" where
  "mark_kernel_mem pa s =
     bindr (pa2page pa s) (\<lambda>r.
     bindr (arr_get ''core_map'' (core_map s) r) (\<lambda>e.
       Inr (cm_upd r (\<lambda>e. e\<lparr>user := 0, cm_va := 0\<rparr>) s)))"

text \<open>\<open>kalloc\<close> returns a kernel address; 0 is the null pointer.\<close>

definition kalloc :: "'a kmem_state_scheme \<Rightarrow> 'a kmem_state_scheme stop + u64 \<times> 'a kmem_state_scheme" where
  "kalloc s =
     (let s = s\<lparr>pages_in_use := pages_in_use s + 1, free_pages := free_pages s - 1\<rparr> in
      bindr (kmem_acquire s) (\<lambda>s.
        case first_idx (\<lambda>e. available e = 1) (take (nat (npages s)) (core_map s)) of
          Some i \<Rightarrow>
            bindr (kmem_release (cm_upd i (\<lambda>e. e\<lparr>available := 0\<rparr>) s)) (\<lambda>s.
              Inr (P2V (page2pa i), cm_upd i (\<lambda>e. e\<lparr>ref := 1\<rparr>) s))
        | None \<Rightarrow> bindr (kmem_release s) (\<lambda>s. Inr (0, s))))"

text \<open>
  \<open>freerange\<close>: the loop over the pages of the range. The fuel is the number of page steps up
  to the end of the range, which \<open>freerange_loop_frees\<close> below shows to be enough.
\<close>

fun freerange_loop :: "nat \<Rightarrow> u64 \<Rightarrow> u64 \<Rightarrow> 'a kmem_state_scheme \<Rightarrow> 'a kmem_state_scheme stop + 'a kmem_state_scheme" where
  "freerange_loop 0 p vend s = Inl (Fault ''freerange does not end'')"
| "freerange_loop (Suc n) p vend s =
     (if p + 4096 \<le> vend then bindr (kfree p s) (freerange_loop n (p + 4096) vend) else Inr s)"

definition freerange :: "u64 \<Rightarrow> u64 \<Rightarrow> 'a kmem_state_scheme \<Rightarrow> 'a kmem_state_scheme stop + 'a kmem_state_scheme" where
  "freerange vstart vend s = freerange_loop (Suc (unat vend div PGSIZE)) (PGROUNDUP vstart) vend s"

definition core_map_bytes :: "'a kmem_state_scheme \<Rightarrow> u64" where
  "core_map_bytes s = PGROUNDUP (word_of_int (npages s * 24))"

definition mem_init :: "u64 \<Rightarrow> 'a kmem_state_scheme \<Rightarrow> 'a kmem_state_scheme stop + 'a kmem_state_scheme" where
  "mem_init vstart s =
     (let zero = \<lparr>available = 0, user = 0, cm_va = 0, ref = 0\<rparr>;
          s = s\<lparr>core_map := replicate (nat (npages s)) zero,
                pmem := memset (pmem s) vstart 0 (unat (core_map_bytes s))\<rparr>;
          vstart = vstart + core_map_bytes s;
          s = s\<lparr>held := held s - {LKmem}, use_lock := 0\<rparr>;
          vend = P2V (mem_top s)
      in bindr (freerange vstart vend s) (\<lambda>s.
         Inr (s\<lparr>free_pages := sint (vend - vstart) div 4096, pages_in_use := 0, pages_in_swap := 0,
                use_lock := 1\<rparr>)))"

section \<open>Page addresses\<close>

abbreviation page_va :: "nat \<Rightarrow> u64" where "page_va i \<equiv> P2V (page2pa i)"

lemma unat_page2pa: "i < 2 ^ 52 \<Longrightarrow> unat (page2pa i) = i * 4096"
  by (simp add: page2pa_def push_bit_eq_mult unat_word_ariths unat_of_nat take_bit_nat_eq_self)

lemma PGNUM_page2pa [simp]: "i < 2 ^ 52 \<Longrightarrow> PGNUM (page2pa i) = of_nat i"
  by (rule word_unat_eq_iff [THEN iffD2])
     (simp add: PGNUM_def drop_bit_eq_div unat_div_distrib unat_page2pa unat_of_nat)

lemma unat_page_va: "i < 2 ^ 19 \<Longrightarrow> unat (page_va i) = unat KBASE + i * 4096"
  by (simp add: P2V_def unat_plus64 unat_page2pa)

lemma page2pa_inject:
  assumes "i < 2 ^ 52" "j < 2 ^ 52"
  shows "page2pa i = page2pa j \<longleftrightarrow> i = j"
proof -
  have "page2pa i = page2pa j \<longleftrightarrow> unat (page2pa i) = unat (page2pa j)"
    by (rule word_unat_eq_iff)
  then show ?thesis using assms by (simp add: unat_page2pa)
qed

lemma inj_page_va: "inj_on page_va {..<2 ^ 52}"
  by (rule inj_onI) (simp add: page2pa_inject)

lemma page_va_aligned: "i < 2 ^ 19 \<Longrightarrow> page_aligned (page_va i)"
  by (simp add: page_aligned_def unat_page_va)

lemma page_va_base: "i < 2 ^ 19 \<Longrightarrow> KBASE \<le> page_va i"
  by (simp add: word_le_nat_alt unat_page_va del: unat_numeral)

lemma page_va_nonnull: "i < 2 ^ 19 \<Longrightarrow> page_va i \<noteq> 0"
  using unat_page_va [of i] by auto

section \<open>Invariant\<close>

definition kmem_wf :: "'a kmem_state_scheme \<Rightarrow> bool" where
  "kmem_wf s \<longleftrightarrow> 0 \<le> npages s \<and> npages s < 2 ^ 19 \<and> length (core_map s) = nat (npages s) \<and>
     (\<forall>i < length (core_map s). 0 \<le> ref (core_map s ! i) \<and>
        (available (core_map s ! i) = 1 \<longrightarrow> ref (core_map s ! i) = 0) \<and>
        (available (core_map s ! i) = 1 \<or> ref (core_map s ! i) > 0 \<longrightarrow> k_end s \<le> page_va i))"

text \<open>The allocator may be called: the invariant holds and its lock is not held.\<close>

definition kmem_ready :: "'a kmem_state_scheme \<Rightarrow> bool" where
  "kmem_ready s \<longleftrightarrow> kmem_wf s \<and> LKmem \<notin> held s"

definition avail :: "'a kmem_state_scheme \<Rightarrow> u64 set" where
  "avail s = page_va ` {i. i < length (core_map s) \<and> available (core_map s ! i) = 1}"

definition refs :: "'a kmem_state_scheme \<Rightarrow> u64 \<Rightarrow> int" where
  "refs s p = (let i = unat (PGNUM (V2P p)) in
     if p = page_va i \<and> i < length (core_map s) then ref (core_map s ! i) else 0)"

lemma kmem_wf_len:
  assumes "kmem_wf s" "i < length (core_map s)"
  shows "i < 2 ^ 19" and "i < 2 ^ 52"
proof -
  have "int i < npages s" "npages s < 2 ^ 19"
    using assms by (simp_all add: kmem_wf_def)
  then show "i < 2 ^ 19" and "i < 2 ^ 52" by simp_all
qed

lemma refs_page_va:
  "kmem_wf s \<Longrightarrow> i < length (core_map s) \<Longrightarrow> refs s (page_va i) = ref (core_map s ! i)"
  using kmem_wf_len [of s i] by (simp add: refs_def unat_of_nat)

lemma refs_pos:
  assumes "refs s p > 0"
  obtains i where "i < length (core_map s)" "p = page_va i" "ref (core_map s ! i) = refs s p"
proof -
  let ?i = "unat (PGNUM (V2P p))"
  have page: "p = page_va ?i \<and> ?i < length (core_map s)"
  proof (rule ccontr)
    assume "\<not> ?thesis"
    then have "refs s p = 0" by (simp only: refs_def Let_def if_False)
    with assms show False by simp
  qed
  moreover from page have "refs s p = ref (core_map s ! ?i)"
    by (simp only: refs_def Let_def if_True simp_thms)
  ultimately show thesis using that [of ?i] by simp
qed

lemma refs_cong: "core_map s = core_map s' \<Longrightarrow> refs s = refs s'"
  by (rule ext) (simp only: refs_def)

lemma mem_top_wf:
  assumes "kmem_wf s"
  shows "unat (mem_top s) = nat (npages s) * 4096"
proof -
  have n: "0 \<le> npages s" "npages s < 2 ^ 19" using assms by (simp_all add: kmem_wf_def)
  then have "signed_take_bit 31 (npages s * 4096) = npages s * 4096"
    by (intro signed_take_bit_int_eq_self) simp_all
  moreover have "unat (word_of_int (npages s * 4096) :: u64) = nat (npages s * 4096)"
    using n by (intro unat_of_int64) simp_all
  ultimately show ?thesis
    using n(1) by (simp only: mem_top_def)
qed

lemma pa2page_va:
  assumes "kmem_wf s" "i < length (core_map s)"
  shows "pa2page (page2pa i) s = Inr i"
proof -
  have n: "0 \<le> npages s" "npages s < 2 ^ 19" "i < nat (npages s)"
    using assms by (simp_all add: kmem_wf_def)
  have "unat (word_of_int (npages s) :: u64) = nat (npages s)"
    using n by (intro unat_of_int64) simp_all
  moreover have "unat (of_nat i :: u64) = i"
    using kmem_wf_len [OF assms] by (intro unat_of_nat64) simp
  ultimately show ?thesis
    using n(3) kmem_wf_len [OF assms] by (simp add: pa2page_def word_le_nat_alt)
qed

lemma cm_upd_wf:
  assumes "kmem_wf s" "i < length (core_map s)" "0 \<le> ref (f (core_map s ! i))"
    and "available (f (core_map s ! i)) = 1 \<Longrightarrow> ref (f (core_map s ! i)) = 0"
    and "available (f (core_map s ! i)) = 1 \<or> ref (f (core_map s ! i)) > 0 \<Longrightarrow> k_end s \<le> page_va i"
  shows "kmem_wf (cm_upd i f s)"
  using assms by (auto simp: kmem_wf_def cm_upd_def nth_list_update_if)

lemma cm_upd_avail:
  assumes "kmem_wf s" "i < length (core_map s)"
  shows "avail (cm_upd i f s) =
    (if available (f (core_map s ! i)) = 1 then insert (page_va i) (avail s) else avail s - {page_va i})"
proof -
  let ?A = "{j. j < length (core_map s) \<and> available (core_map s ! j) = 1}"
  have A: "avail (cm_upd i f s) = page_va `
      (if available (f (core_map s ! i)) = 1 then insert i ?A else ?A - {i})"
    unfolding avail_def using assms(2)
    by (intro arg_cong [where f = "image page_va"]) (auto simp: cm_upd_def nth_list_update_if)
  have "?A - {i} \<subseteq> {..<2 ^ 52}" "{i} \<subseteq> {..<2 ^ 52}" "?A \<subseteq> {..<2 ^ 52}"
    using assms kmem_wf_len(2) [OF assms(1)] by auto
  then have "page_va ` (?A - {i}) = page_va ` ?A - {page_va i}"
    using inj_on_image_set_diff [OF inj_page_va, of ?A "{i}"] by auto
  with A show ?thesis by (simp add: avail_def)
qed

lemma cm_upd_refs:
  assumes "kmem_wf s" "i < length (core_map s)"
  shows "refs (cm_upd i f s) = (refs s)(page_va i := ref (f (core_map s ! i)))"
proof (rule ext)
  fix p
  show "refs (cm_upd i f s) p = ((refs s)(page_va i := ref (f (core_map s ! i)))) p"
  proof (cases "p = page_va i")
    case True
    have "unat (of_nat i :: u64) = i"
      using kmem_wf_len [OF assms] by (intro unat_of_nat64) simp
    then show ?thesis
      using assms(2) kmem_wf_len [OF assms] unfolding True by (simp add: refs_def cm_upd_def)
  next
    case False
    define j where "j = unat (PGNUM (V2P p))"
    have "j \<noteq> i \<or> p \<noteq> page_va j" using False by blast
    then have "refs (cm_upd i f s) p = refs s p"
    proof
      assume "j \<noteq> i"
      then have "core_map (cm_upd i f s) ! j = core_map s ! j" by (simp add: cm_upd_def)
      moreover have "length (core_map (cm_upd i f s)) = length (core_map s)" by (simp add: cm_upd_def)
      ultimately show ?thesis unfolding refs_def Let_def j_def [symmetric] by (simp only:)
    next
      assume "p \<noteq> page_va j"
      then show ?thesis unfolding refs_def Let_def j_def [symmetric] by (simp only: if_False simp_thms)
    qed
    with False show ?thesis by (simp only: fun_upd_apply if_False)
  qed
qed

section \<open>What the operations do\<close>

lemma cm_upd_fields [simp]:
  "held (cm_upd i f s) = held s" "npages (cm_upd i f s) = npages s"
  "use_lock (cm_upd i f s) = use_lock s" "k_end (cm_upd i f s) = k_end s"
  "pmem (cm_upd i f s) = pmem s" "length (core_map (cm_upd i f s)) = length (core_map s)"
  by (simp_all add: cm_upd_def)

text \<open>The state after \<open>kalloc\<close> took page \<open>i\<close>, and after it found none.\<close>

definition kalloc_took :: "nat \<Rightarrow> 'a kmem_state_scheme \<Rightarrow> 'a kmem_state_scheme" where
  "kalloc_took i s = cm_upd i (\<lambda>e. e\<lparr>available := 0, ref := 1\<rparr>)
     (s\<lparr>pages_in_use := pages_in_use s + 1, free_pages := free_pages s - 1\<rparr>)"

definition kalloc_none :: "'a kmem_state_scheme \<Rightarrow> 'a kmem_state_scheme" where
  "kalloc_none s = s\<lparr>pages_in_use := pages_in_use s + 1, free_pages := free_pages s - 1\<rparr>"

lemma kalloc_eq:
  assumes "kmem_ready s"
  shows "kalloc s = Inr (case first_idx (\<lambda>e. available e = 1) (core_map s) of
     Some i \<Rightarrow> (page_va i, kalloc_took i s) | None \<Rightarrow> (0, kalloc_none s))"
proof -
  have lk: "LKmem \<notin> held s" and len: "length (core_map s) = nat (npages s)"
    using assms by (auto simp: kmem_ready_def kmem_wf_def)
  then have tk: "take (nat (npages s)) (core_map s) = core_map s" by simp
  show ?thesis
  proof (cases "first_idx (\<lambda>e. available e = 1) (core_map s)")
    case None
    with lk tk show ?thesis
      by (cases "use_lock s = 0")
         (simp_all add: kalloc_def kmem_acquire_def kmem_release_def kalloc_none_def)
  next
    case (Some i)
    then have "i < length (core_map s)" by (rule first_idx_Some)
    with Some lk tk show ?thesis
      by (cases "use_lock s = 0")
         (simp_all add: kalloc_def kmem_acquire_def kmem_release_def kalloc_took_def cm_upd_def)
  qed
qed

text \<open>The state after \<open>kfree\<close> of page \<open>i\<close>.\<close>

definition kfree_done :: "nat \<Rightarrow> 'a kmem_state_scheme \<Rightarrow> 'a kmem_state_scheme" where
  "kfree_done i s =
     (if ref (core_map s ! i) > 1 then cm_upd i (\<lambda>e. e\<lparr>ref := ref e - 1\<rparr>) s
      else cm_upd i (\<lambda>e. e\<lparr>available := 1, user := 0, cm_va := 0, ref := 0\<rparr>)
        (s\<lparr>pages_in_use := pages_in_use s - 1, free_pages := free_pages s + 1,
           pmem := mem_fill (pmem s) (page_va i) 4096 2\<rparr>))"

lemma memset_page: "memset m a 2 4096 = mem_fill m a 4096 2"
  using memset_fill [of 4096 m a 2] by simp

lemma kfree_eq:
  assumes "kmem_ready s" "i < length (core_map s)" "k_end s \<le> page_va i"
  shows "kfree (page_va i) s = Inr (kfree_done i s)"
proof -
  have wf: "kmem_wf s" and lk: "LKmem \<notin> held s"
    using assms(1) by (auto simp: kmem_ready_def)
  have i: "i < nat (npages s)" using assms(2) wf by (simp add: kmem_wf_def)
  note len = kmem_wf_len [OF wf assms(2)]
  have pass: "\<not> (unat (page_va i) mod PGSIZE \<noteq> 0 \<or> page_va i < k_end s \<or> V2P (page_va i) \<ge> mem_top s)"
    using page_va_aligned [OF len(1)] assms(3) i len mem_top_wf [OF wf]
    by (simp add: page_aligned_def word_le_nat_alt word_less_nat_alt unat_page2pa dvd_eq_mod_eq_0)
  have pg: "pa2page (page2pa i) (s\<lparr>held := h\<rparr>) = Inr i" for h
    using pa2page_va [of "s\<lparr>held := h\<rparr>" i] wf assms(2) by (simp add: kmem_wf_def)
  show ?thesis
    unfolding kfree_def if_not_P [OF pass]
    using lk assms(2) pg [of "held s"] pg
    by (cases "use_lock s = 0")
       (auto simp: kmem_acquire_def kmem_release_def kfree_done_def cm_upd_def memset_page Let_def)
qed

section \<open>The interface\<close>

text \<open>
  What the rest of the kernel may rely on. \<open>free_set\<close> are the addresses of the pages the
  allocator can hand out and \<open>count\<close> the references it knows of.
\<close>

locale page_allocator =
  fixes ready :: "'s \<Rightarrow> bool" and free_set :: "'s \<Rightarrow> u64 set" and count :: "'s \<Rightarrow> u64 \<Rightarrow> int"
    and memory :: "'s \<Rightarrow> mem"
    and alloc :: "'s \<Rightarrow> 's stop + u64 \<times> 's"
    and dealloc :: "u64 \<Rightarrow> 's \<Rightarrow> 's stop + 's"
    and incref :: "u64 \<Rightarrow> 's \<Rightarrow> 's stop + 's"
  assumes alloc_returns: "ready s \<Longrightarrow> \<exists>p s'. alloc s = Inr (p, s')"
    and alloc_ready: "ready s \<Longrightarrow> alloc s = Inr (p, s') \<Longrightarrow> ready s'"
    and alloc_memory: "ready s \<Longrightarrow> alloc s = Inr (p, s') \<Longrightarrow> memory s' = memory s"
    and alloc_null: "ready s \<Longrightarrow> alloc s = Inr (0, s') \<Longrightarrow>
      free_set s = {} \<and> free_set s' = {} \<and> count s' = count s"
    and alloc_page: "ready s \<Longrightarrow> alloc s = Inr (p, s') \<Longrightarrow> p \<noteq> 0 \<Longrightarrow>
      p \<in> free_set s \<and> free_set s' = free_set s - {p} \<and> count s' = (count s)(p := 1)"
    and free_unreferenced: "ready s \<Longrightarrow> p \<in> free_set s \<Longrightarrow> p \<noteq> 0 \<and> page_aligned p \<and> count s p = 0"
    and count_nonneg: "ready s \<Longrightarrow> 0 \<le> count s p"
    and count_aligned: "ready s \<Longrightarrow> 0 < count s p \<Longrightarrow> page_aligned p"
    and dealloc_returns: "ready s \<Longrightarrow> 0 < count s p \<Longrightarrow> \<exists>s'. dealloc p s = Inr s'"
    and dealloc_ready: "ready s \<Longrightarrow> 0 < count s p \<Longrightarrow> dealloc p s = Inr s' \<Longrightarrow> ready s'"
    and dealloc_page: "ready s \<Longrightarrow> 0 < count s p \<Longrightarrow> dealloc p s = Inr s' \<Longrightarrow>
      count s' = (count s)(p := count s p - 1) \<and>
      free_set s' = (if count s p = 1 then insert p (free_set s) else free_set s) \<and>
      memory s' = (if count s p = 1 then mem_fill (memory s) p 4096 2 else memory s)"
    and incref_returns: "ready s \<Longrightarrow> 0 < count s p \<Longrightarrow> \<exists>s'. incref (V2P p) s = Inr s'"
    and incref_page: "ready s \<Longrightarrow> 0 < count s p \<Longrightarrow> incref (V2P p) s = Inr s' \<Longrightarrow>
      ready s' \<and> count s' = (count s)(p := count s p + 1) \<and> free_set s' = free_set s \<and>
      memory s' = memory s"

text \<open>
  Clients that only free or share what they own. The second component of a configuration
  is the number of references to each page that clients hold.
\<close>

inductive own_step ::
  "('s \<Rightarrow> 's stop + u64 \<times> 's) \<Rightarrow> (u64 \<Rightarrow> 's \<Rightarrow> 's stop + 's) \<Rightarrow> (u64 \<Rightarrow> 's \<Rightarrow> 's stop + 's) \<Rightarrow>
   's \<times> (u64 \<Rightarrow> int) \<Rightarrow> 's \<times> (u64 \<Rightarrow> int) \<Rightarrow> bool"
  for alloc dealloc incref where
  own_alloc: "alloc s = Inr (p, s') \<Longrightarrow> p \<noteq> 0 \<Longrightarrow>
    own_step alloc dealloc incref (s, own) (s', own(p := own p + 1))"
| own_none: "alloc s = Inr (0, s') \<Longrightarrow> own_step alloc dealloc incref (s, own) (s', own)"
| own_free: "0 < own p \<Longrightarrow> dealloc p s = Inr s' \<Longrightarrow>
    own_step alloc dealloc incref (s, own) (s', own(p := own p - 1))"
| own_share: "0 < own p \<Longrightarrow> incref (V2P p) s = Inr s' \<Longrightarrow>
    own_step alloc dealloc incref (s, own) (s', own(p := own p + 1))"

inductive_cases own_stepE [consumes 1, case_names alloc none free share]:
  "own_step alloc dealloc incref (s, own) (s', own')"

context page_allocator
begin

lemma own_step_inv:
  assumes "own_step alloc dealloc incref (s, own) (s', own')" "ready s" "\<forall>p. own p \<le> count s p"
  shows "ready s' \<and> (\<forall>p. own' p \<le> count s' p)"
  using assms(1)
proof (cases rule: own_stepE)
  case (alloc p)
  note a = alloc_page [OF assms(2) alloc(2,3)]
  then have "own p \<le> 0"
    using free_unreferenced [OF assms(2)] assms(3) by metis
  with alloc a show ?thesis
    using assms(3) alloc_ready [OF assms(2) alloc(2)] by simp
next
  case none
  then show ?thesis
    using assms(2,3) alloc_null [OF assms(2)] alloc_ready [OF assms(2)] by simp
next
  case (free p)
  have "own p \<le> count s p" using assms(3) by blast
  with free have "0 < count s p" "own p - 1 < count s p" by linarith+
  with free show ?thesis
    using assms(2,3) dealloc_page [of s p s'] dealloc_ready [of s p s'] by simp
next
  case (share p)
  then have "0 < count s p" using assms(3) by (meson less_le_trans)
  with share show ?thesis
    using assms(2,3) incref_page [of s p s'] by simp
qed

lemma own_steps_inv:
  assumes "(own_step alloc dealloc incref)\<^sup>*\<^sup>* c c'" "ready (fst c)" "\<forall>p. snd c p \<le> count (fst c) p"
  shows "ready (fst c') \<and> (\<forall>p. snd c' p \<le> count (fst c') p)"
  using assms
proof (induction rule: rtranclp_induct)
  case (step c1 c2)
  then show ?case using own_step_inv [of "fst c1" "snd c1" "fst c2" "snd c2"] by simp
qed simp

lemma alloc_not_owned:
  assumes "ready s" "\<forall>p. own p \<le> count s p"
  shows "\<exists>p s'. alloc s = Inr (p, s') \<and> (p = 0 \<longrightarrow> free_set s = {}) \<and>
    (p \<noteq> 0 \<longrightarrow> page_aligned p \<and> own p \<le> 0 \<and>
       (\<forall>q x. 0 < own q \<and> unat (x - q) < 4096 \<longrightarrow> \<not> unat (x - p) < 4096))"
proof -
  obtain p s' where a: "alloc s = Inr (p, s')" using alloc_returns [OF assms(1)] by blast
  have "page_aligned p \<and> own p \<le> 0 \<and>
       (\<forall>q x. 0 < own q \<and> unat (x - q) < 4096 \<longrightarrow> \<not> unat (x - p) < 4096)" if "p \<noteq> 0"
  proof -
    have p: "page_aligned p" "count s p = 0"
      using alloc_page [OF assms(1) a that] free_unreferenced [OF assms(1)] by blast+
    have "own p \<le> 0" using p assms(2) by metis
    moreover have "\<not> unat (x - p) < 4096" if "0 < own q" "unat (x - q) < 4096" for q x
    proof (rule pages_disjoint [OF p(1) _ _ that(2)])
      have "0 < count s q" using that(1) assms(2) by (meson less_le_trans)
      then show "page_aligned q" by (rule count_aligned [OF assms(1)])
      show "p \<noteq> q" using that(1) \<open>own p \<le> 0\<close> by auto
    qed
    ultimately show ?thesis using p(1) by blast
  qed
  moreover have "p = 0 \<longrightarrow> free_set s = {}" using alloc_null [OF assms(1)] a by blast
  ultimately show ?thesis using a by blast
qed

lemma own_step_memory:
  assumes "own_step alloc dealloc incref (s, own) (s', own')" "ready s" "\<forall>p. own p \<le> count s p"
    and "0 < own q" "0 < own' q" "unat (x - q) < 4096"
  shows "memory s' x = memory s x"
  using assms(1)
proof (cases rule: own_stepE)
  case (free p)
  then have p: "0 < count s p" using assms(3) by (meson less_le_trans)
  have q: "0 < count s q" using assms(3,4) by (meson less_le_trans)
  show ?thesis
  proof (cases "count s p = 1")
    case True
    then have "q \<noteq> p" using free assms(3,5) by (auto dest: spec [of _ p])
    then have "\<not> unat (x - p) < 4096"
      using pages_disjoint count_aligned assms(2,6) p q by blast
    with True free p show ?thesis using dealloc_page [of s p s'] assms(2) by (simp add: mem_fill_def)
  next
    case False
    with free p show ?thesis using dealloc_page [of s p s'] assms(2) by simp
  qed
next
  case (share p)
  then have "0 < count s p" using assms(3) by (meson less_le_trans)
  with share show ?thesis using assms(2) incref_page [of s p s'] by simp
qed (use assms(2) alloc_memory in auto)

end

section \<open>The core map implements it\<close>

lemma kmem_ready_lock: "kmem_ready s \<Longrightarrow> kmem_wf s' \<Longrightarrow> held s' = held s \<Longrightarrow> kmem_ready s'"
  by (simp add: kmem_ready_def)

lemma kalloc_took_fields [simp]:
  "held (kalloc_took i s) = held s" "pmem (kalloc_took i s) = pmem s"
  "held (kalloc_none s) = held s" "pmem (kalloc_none s) = pmem s"
  "core_map (kalloc_none s) = core_map s"
  by (simp_all add: kalloc_took_def kalloc_none_def)

lemma kmem_wf_cong:
  "core_map s' = core_map s \<Longrightarrow> npages s' = npages s \<Longrightarrow> k_end s' = k_end s \<Longrightarrow>
   kmem_wf s' \<longleftrightarrow> kmem_wf s"
  by (simp add: kmem_wf_def)

lemma kalloc_cases:
  assumes "kmem_ready s" "kalloc s = Inr (p, s')"
  obtains (none) "p = 0" "s' = kalloc_none s" "avail s = {}"
  | (took) i where "i < length (core_map s)" "p = page_va i" "p \<noteq> 0" "s' = kalloc_took i s"
      "available (core_map s ! i) = 1" "p \<in> avail s"
proof (cases "first_idx (\<lambda>e. available e = 1) (core_map s)")
  case None
  then have "avail s = {}" by (auto simp: avail_def first_idx_None dest: nth_mem)
  with None assms none show thesis by (simp add: kalloc_eq)
next
  case (Some i)
  note f = first_idx_Some [OF Some]
  have "page_va i \<noteq> 0"
    using assms(1) f(1) kmem_wf_len page_va_nonnull by (metis kmem_ready_def)
  with Some assms f(1,2) show thesis
    by (intro took [of i]) (auto simp: kalloc_eq avail_def)
qed

lemma kalloc_took_wf:
  assumes "kmem_wf s" "i < length (core_map s)" "available (core_map s ! i) = 1"
  shows "kmem_wf (kalloc_took i s)"
    and "avail (kalloc_took i s) = avail s - {page_va i}"
    and "refs (kalloc_took i s) = (refs s)(page_va i := 1)"
proof -
  let ?s = "s\<lparr>pages_in_use := pages_in_use s + 1, free_pages := free_pages s - 1\<rparr>"
  have wf: "kmem_wf ?s" "i < length (core_map ?s)" using assms by (simp_all add: kmem_wf_def)
  have "k_end ?s \<le> page_va i" using assms by (simp add: kmem_wf_def)
  with wf show "kmem_wf (kalloc_took i s)"
    unfolding kalloc_took_def by (intro cm_upd_wf) simp_all
  have "avail ?s = avail s" "refs ?s = refs s" by (simp add: avail_def) (rule refs_cong, simp)
  then show "avail (kalloc_took i s) = avail s - {page_va i}"
    "refs (kalloc_took i s) = (refs s)(page_va i := 1)"
    unfolding kalloc_took_def by (simp_all add: cm_upd_avail [OF wf] cm_upd_refs [OF wf])
qed

lemma kfree_done_wf:
  assumes "kmem_wf s" "i < length (core_map s)" "0 < ref (core_map s ! i)"
  shows "kmem_wf (kfree_done i s)"
    and "refs (kfree_done i s) = (refs s)(page_va i := refs s (page_va i) - 1)"
    and "avail (kfree_done i s) =
      (if refs s (page_va i) = 1 then insert (page_va i) (avail s) else avail s)"
    and "pmem (kfree_done i s) =
      (if refs s (page_va i) = 1 then mem_fill (pmem s) (page_va i) 4096 2 else pmem s)"
    and "held (kfree_done i s) = held s"
proof -
  let ?s = "s\<lparr>pages_in_use := pages_in_use s - 1, free_pages := free_pages s + 1,
           pmem := mem_fill (pmem s) (page_va i) 4096 2\<rparr>"
  have wf: "kmem_wf ?s" "i < length (core_map ?s)" using assms by (simp_all add: kmem_wf_def)
  have e: "k_end s \<le> page_va i" "available (core_map s ! i) \<noteq> 1"
    using assms by (auto simp: kmem_wf_def)
  have na: "page_va i \<notin> avail s"
    using e(2) assms(1,2) kmem_wf_len(2) [OF assms(1)] by (auto simp: avail_def page2pa_inject)
  have s: "avail ?s = avail s" "refs ?s = refs s" by (simp add: avail_def) (rule refs_cong, simp)
  note upd = cm_upd_avail [OF wf] cm_upd_refs [OF wf] cm_upd_avail [OF assms(1,2)]
    cm_upd_refs [OF assms(1,2)] refs_page_va [OF assms(1,2)]
  show "kmem_wf (kfree_done i s)"
    unfolding kfree_done_def using assms wf e by (auto intro!: cm_upd_wf)
  show "refs (kfree_done i s) = (refs s)(page_va i := refs s (page_va i) - 1)"
    unfolding kfree_done_def using assms(3) by (auto simp: upd s)
  show "avail (kfree_done i s) =
      (if refs s (page_va i) = 1 then insert (page_va i) (avail s) else avail s)"
    unfolding kfree_done_def using assms(3) e na by (auto simp: upd s)
  show "pmem (kfree_done i s) =
      (if refs s (page_va i) = 1 then mem_fill (pmem s) (page_va i) 4096 2 else pmem s)"
    unfolding kfree_done_def using assms(3) by (auto simp: upd)
  show "held (kfree_done i s) = held s" by (simp add: kfree_done_def)
qed

lemma kincref_eq:
  assumes "kmem_wf s" "i < length (core_map s)"
  shows "kincref (page2pa i) s = Inr (cm_upd i (\<lambda>e. e\<lparr>ref := ref e + 1\<rparr>) s)"
  using assms by (simp add: kincref_def pa2page_va)

lemma kmem_wf_ref:
  assumes "kmem_wf s" "i < length (core_map s)" "0 < ref (core_map s ! i)"
  shows "k_end s \<le> page_va i" "available (core_map s ! i) \<noteq> 1"
  using assms by (auto simp: kmem_wf_def)

lemma kalloc_page:
  assumes "kmem_ready s" "kalloc s = Inr (p, s')" "p \<noteq> 0"
  shows "p \<in> avail s \<and> avail s' = avail s - {p} \<and> refs s' = (refs s)(p := 1)"
  using assms(1,2)
proof (cases rule: kalloc_cases)
  case (took i)
  then show ?thesis using assms(1) kalloc_took_wf [of s i] by (simp add: kmem_ready_def)
qed (use assms(3) in simp)

lemma kalloc_ready:
  assumes "kmem_ready s" "kalloc s = Inr (p, s')"
  shows "kmem_ready s'"
  using assms
proof (cases rule: kalloc_cases)
  case none
  then show ?thesis using assms(1) by (simp add: kmem_ready_def kalloc_none_def kmem_wf_def)
next
  case (took i)
  then show ?thesis using assms(1) kalloc_took_wf [of s i] by (simp add: kmem_ready_def)
qed

lemma kalloc_memory:
  assumes "kmem_ready s" "kalloc s = Inr (p, s')"
  shows "pmem s' = pmem s" "held s' = held s"
  using assms by (cases rule: kalloc_cases; simp)+

lemma kalloc_null:
  assumes "kmem_ready s" "kalloc s = Inr (0, s')"
  shows "avail s = {} \<and> avail s' = {} \<and> refs s' = refs s"
  using assms
proof (cases rule: kalloc_cases)
  case none
  then show ?thesis using refs_cong [of s' s] by (simp add: avail_def)
qed simp

lemma refs_nonneg: "kmem_wf s \<Longrightarrow> 0 \<le> refs s p"
  by (simp add: refs_def Let_def kmem_wf_def)

lemma avail_page:
  assumes "kmem_wf s" "p \<in> avail s"
  shows "p \<noteq> 0 \<and> page_aligned p \<and> refs s p = 0"
proof -
  obtain i where i: "p = page_va i" "i < length (core_map s)" "available (core_map s ! i) = 1"
    using assms(2) by (auto simp: avail_def)
  then have "ref (core_map s ! i) = 0" using assms(1) by (simp add: kmem_wf_def)
  with i show ?thesis
    using kmem_wf_len(1) [OF assms(1) i(2)] refs_page_va [OF assms(1) i(2)]
      page_va_aligned page_va_nonnull by simp
qed

lemma kfree_page:
  assumes "kmem_ready s" "0 < refs s p"
  shows "\<exists>s'. kfree p s = Inr s' \<and> kmem_ready s' \<and> refs s' = (refs s)(p := refs s p - 1) \<and>
    avail s' = (if refs s p = 1 then insert p (avail s) else avail s) \<and>
    pmem s' = (if refs s p = 1 then mem_fill (pmem s) p 4096 2 else pmem s)"
proof -
  obtain i where i: "i < length (core_map s)" "p = page_va i" "0 < ref (core_map s ! i)"
    using refs_pos [OF assms(2)] assms(2) by metis
  have wf: "kmem_wf s" "LKmem \<notin> held s" using assms(1) by (auto simp: kmem_ready_def)
  have "kfree p s = Inr (kfree_done i s)"
    using kfree_eq [OF assms(1) i(1)] kmem_wf_ref [OF wf(1) i(1,3)] i(2) by simp
  then show ?thesis
    using kfree_done_wf [OF wf(1) i(1,3)] wf(2) i(2) by (simp add: kmem_ready_def)
qed

lemma kincref_page:
  assumes "kmem_ready s" "0 < refs s p"
  shows "\<exists>s'. kincref (V2P p) s = Inr s' \<and> kmem_ready s' \<and> refs s' = (refs s)(p := refs s p + 1) \<and>
    avail s' = avail s \<and> pmem s' = pmem s"
proof -
  obtain i where i: "i < length (core_map s)" "p = page_va i" "0 < ref (core_map s ! i)"
    using refs_pos [OF assms(2)] assms(2) by metis
  have wf: "kmem_wf s" "LKmem \<notin> held s" using assms(1) by (auto simp: kmem_ready_def)
  note e = kmem_wf_ref [OF wf(1) i(1,3)]
  have na: "page_va i \<notin> avail s" using avail_page [OF wf(1)] assms(2) i(2) by fastforce
  have "kmem_wf (cm_upd i (\<lambda>e. e\<lparr>ref := ref e + 1\<rparr>) s)"
    using i e wf(1) by (intro cm_upd_wf) auto
  with wf i e na show ?thesis
    by (simp add: kincref_eq kmem_ready_def cm_upd_avail cm_upd_refs refs_page_va)
qed

interpretation kmem: page_allocator kmem_ready avail refs pmem kalloc kfree kincref
proof unfold_locales
  fix s :: "'a kmem_state_scheme" assume s: "kmem_ready s"
  then have wf: "kmem_wf s" by (simp add: kmem_ready_def)
  show "\<exists>p s'. kalloc s = Inr (p, s')"
    using s by (simp add: kalloc_eq split: option.split)
  show "kmem_ready s'" "pmem s' = pmem s" if "kalloc s = Inr (p, s')" for p s'
    using kalloc_ready [OF s that] kalloc_memory(1) [OF s that] .
  show "avail s = {} \<and> avail s' = {} \<and> refs s' = refs s" if "kalloc s = Inr (0, s')" for s'
    using kalloc_null [OF s that] .
  show "p \<in> avail s \<and> avail s' = avail s - {p} \<and> refs s' = (refs s)(p := 1)"
    if "kalloc s = Inr (p, s')" "p \<noteq> 0" for p s'
    using kalloc_page [OF s that] .
  show "p \<noteq> 0 \<and> page_aligned p \<and> refs s p = 0" if "p \<in> avail s" for p
    using avail_page [OF wf that] .
  show "0 \<le> refs s p" for p using refs_nonneg [OF wf] .
  show "page_aligned p" if "0 < refs s p" for p
    by (rule refs_pos [OF that]) (auto intro: page_va_aligned kmem_wf_len(1) [OF wf])
  show "\<exists>s'. kfree p s = Inr s'" if "0 < refs s p" for p
    using kfree_page [OF s that] by blast
  show "kmem_ready s'" "refs s' = (refs s)(p := refs s p - 1) \<and>
      avail s' = (if refs s p = 1 then insert p (avail s) else avail s) \<and>
      pmem s' = (if refs s p = 1 then mem_fill (pmem s) p 4096 2 else pmem s)"
    if "0 < refs s p" "kfree p s = Inr s'" for p s'
    using kfree_page [OF s that(1)] that(2) by auto
  show "\<exists>s'. kincref (V2P p) s = Inr s'" if "0 < refs s p" for p
    using kincref_page [OF s that] by blast
  show "kmem_ready s' \<and> refs s' = (refs s)(p := refs s p + 1) \<and> avail s' = avail s \<and>
      pmem s' = pmem s" if "0 < refs s p" "kincref (V2P p) s = Inr s'" for p s'
    using kincref_page [OF s that(1)] that(2) by auto
qed

section \<open>Boot\<close>

lemma page_va_step: "page_va i + 4096 = page_va (Suc i)"
  by (simp add: P2V_def page2pa_def push_bit_eq_mult algebra_simps)

lemma kfree_boot:
  assumes "kmem_ready s" "i < length (core_map s)" "k_end s \<le> page_va i" "ref (core_map s ! i) = 0"
  shows "\<exists>s'. kfree (page_va i) s = Inr s' \<and> kmem_ready s' \<and> avail s' = insert (page_va i) (avail s) \<and>
    npages s' = npages s \<and> k_end s' = k_end s \<and> held s' = held s \<and>
    (\<forall>j. j \<noteq> i \<longrightarrow> core_map s' ! j = core_map s ! j)"
proof -
  let ?s = "s\<lparr>pages_in_use := pages_in_use s - 1, free_pages := free_pages s + 1,
           pmem := mem_fill (pmem s) (page_va i) 4096 2\<rparr>"
  let ?f = "\<lambda>e. e\<lparr>available := 1, user := 0, cm_va := 0, ref := 0\<rparr>"
  have wf: "kmem_wf ?s" "i < length (core_map ?s)"
    using assms by (simp_all add: kmem_ready_def kmem_wf_def)
  have s': "kfree (page_va i) s = Inr (cm_upd i ?f ?s)"
    using kfree_eq [OF assms(1-3)] assms(4) by (simp add: kfree_done_def)
  have "kmem_wf (cm_upd i ?f ?s)" using wf assms(3) by (intro cm_upd_wf) simp_all
  moreover have "avail (cm_upd i ?f ?s) = insert (page_va i) (avail s)"
    using cm_upd_avail [OF wf, of ?f] by (simp add: avail_def)
  ultimately show ?thesis using s' assms(1) by (simp add: kmem_ready_def) (simp add: cm_upd_def)
qed

lemma freerange_loop_frees:
  assumes "kmem_ready s" "npages s + 1 < 2 ^ 19" "i \<le> nat (npages s)" "nat (npages s) - i < fuel"
    and "\<And>j. i \<le> j \<Longrightarrow> j < nat (npages s) \<Longrightarrow> k_end s \<le> page_va j \<and> ref (core_map s ! j) = 0"
  shows "\<exists>s'. freerange_loop fuel (page_va i) (page_va (nat (npages s))) s = Inr s' \<and> kmem_ready s' \<and>
    avail s' = avail s \<union> page_va ` {i..<nat (npages s)} \<and> npages s' = npages s \<and> held s' = held s"
  using assms
proof (induction fuel arbitrary: i s)
  case (Suc fuel)
  let ?N = "nat (npages s)"
  have N: "?N + 1 < 2 ^ 19" "?N = length (core_map s)"
    using Suc.prems(1,2) by (auto simp: kmem_ready_def kmem_wf_def)
  have guard: "page_va i + 4096 \<le> page_va ?N \<longleftrightarrow> i < ?N"
    using N(1) Suc.prems(3) unfolding page_va_step
    by (simp add: word_le_nat_alt unat_page_va Suc_le_eq) linarith
  show ?case
  proof (cases "i < ?N")
    case True
    have i: "k_end s \<le> page_va i" "ref (core_map s ! i) = 0" using Suc.prems(5) [of i] True by auto
    obtain s1 where s1: "kfree (page_va i) s = Inr s1" "kmem_ready s1"
        "avail s1 = insert (page_va i) (avail s)" "npages s1 = npages s" "k_end s1 = k_end s"
        "held s1 = held s" "\<And>j. j \<noteq> i \<Longrightarrow> core_map s1 ! j = core_map s ! j"
      using kfree_boot [OF Suc.prems(1) _ i] True N(2) by auto
    have "\<exists>s'. freerange_loop fuel (page_va (Suc i)) (page_va (nat (npages s1))) s1 = Inr s' \<and>
        kmem_ready s' \<and> avail s' = avail s1 \<union> page_va ` {Suc i..<nat (npages s1)} \<and>
        npages s' = npages s1 \<and> held s' = held s1"
      using s1 Suc.prems True by (intro Suc.IH) auto
    then obtain s' where "freerange_loop fuel (page_va (Suc i)) (page_va ?N) s1 = Inr s'"
        "kmem_ready s'" "avail s' = avail s1 \<union> page_va ` {Suc i..<?N}" "npages s' = npages s"
        "held s' = held s"
      using s1 by auto
    moreover have "{i..<?N} = insert i {Suc i..<?N}" using True by auto
    ultimately show ?thesis using True guard s1 by (simp add: page_va_step)
  next
    case False
    with guard Suc.prems show ?thesis by simp
  qed
qed simp

text \<open>The first page that the kernel image and the core map leave free.\<close>

definition first_free :: "'a kmem_state_scheme \<Rightarrow> nat" where
  "first_free s = (unat (k_end s) - unat KBASE + unat (core_map_bytes s) + 4095) div 4096"

lemma word_eq_page_va: "unat x = i * 4096 \<Longrightarrow> i < 2 ^ 52 \<Longrightarrow> x = page2pa i"
  by (simp add: word_unat_eq_iff unat_page2pa)

lemma first_free_page:
  assumes "KBASE \<le> k_end s" "first_free s < 2 ^ 19"
  shows "PGROUNDUP (k_end s + core_map_bytes s) = page_va (first_free s)"
    and "unat (k_end s + core_map_bytes s) = unat (k_end s) + unat (core_map_bytes s)"
proof -
  let ?k = "unat (k_end s)" and ?b = "unat (core_map_bytes s)"
  have k: "unat KBASE \<le> ?k" using assms(1) by (simp only: word_le_nat_alt)
  have "?k - unat KBASE + ?b + 4095 < 2 ^ 19 * 4096"
    using assms(2) unfolding first_free_def by (simp add: div_less_iff_less_mult)
  then have bound: "?k + ?b + 4095 < 2 ^ 64" using k by simp
  then show ab: "unat (k_end s + core_map_bytes s) = ?k + ?b" by (intro unat_plus64) simp
  have split: "(4096 * c + y) div 4096 * 4096 = 4096 * c + y div 4096 * 4096" for c y :: nat
    by simp
  have "unat (PGROUNDUP (k_end s + core_map_bytes s)) = (?k + ?b + 4095) div 4096 * 4096"
    using unat_PGROUNDUP [of "k_end s + core_map_bytes s"] ab bound by simp
  also have "?k + ?b + 4095 = 4096 * 0xFFFFFFFF80000 + (?k - unat KBASE + ?b + 4095)"
    using k by simp
  also have "\<dots> div 4096 * 4096 = 4096 * 0xFFFFFFFF80000 + first_free s * 4096"
    unfolding first_free_def by (rule split)
  also have "\<dots> = unat KBASE + first_free s * 4096" by simp
  also have "\<dots> = unat (page_va (first_free s))" using assms(2) by (simp add: unat_page_va)
  finally show "PGROUNDUP (k_end s + core_map_bytes s) = page_va (first_free s)"
    by (simp only: word_unat_eq_iff)
qed

lemma whole_pages: "(4096 * int n - int x) div 4096 = int n - int ((x + 4095) div 4096)"
proof -
  define q r where "q = (x + 4095) div 4096" and "r = (x + 4095) mod 4096"
  have "x + 4095 = 4096 * q + r" "r < 4096" by (simp_all add: q_def r_def)
  then have "int (x + 4095) = int (4096 * q + r)" by (simp only:)
  then have "4096 * int n - int x = (4095 - int r) + 4096 * (int n - int q)"
    by (simp add: algebra_simps)
  also have "\<dots> div 4096 = (int n - int q) + (4095 - int r) div 4096"
    by (rule div_mult_self2) simp
  also have "(4095 - int r) div 4096 = 0" using \<open>r < 4096\<close> by (intro div_pos_pos_trivial) simp_all
  finally show ?thesis by (simp add: q_def)
qed

lemma boot_free_pages:
  assumes "KBASE \<le> k_end s" "first_free s \<le> n" "n < 2 ^ 19"
  shows "sint (page_va n - (k_end s + core_map_bytes s)) div 4096 = int (n - first_free s)"
proof -
  define x where "x = unat (k_end s) - unat KBASE + unat (core_map_bytes s)"
  have k: "unat KBASE \<le> unat (k_end s)" using assms(1) by (simp only: word_le_nat_alt)
  have f: "(x + 4095) div 4096 = first_free s" by (simp add: first_free_def x_def)
  have x: "x \<le> 4096 * n" using assms(2) unfolding f [symmetric] by linarith
  have "k_end s + core_map_bytes s = KBASE + of_nat x"
    using k by (simp add: x_def of_nat_diff unat_of_nat)
  then have "page_va n - (k_end s + core_map_bytes s) = page_va n - (KBASE + of_nat x)"
    by (simp only:)
  also have "\<dots> = word_of_int (4096 * int n - int x)"
    by (simp add: P2V_def page2pa_def push_bit_eq_mult)
  also have "sint \<dots> = 4096 * int n - int x"
    using x assms(3) by (intro sint_of_int64) simp_all
  finally have "sint (page_va n - (k_end s + core_map_bytes s)) = 4096 * int n - int x" .
  then show ?thesis using whole_pages [of n x] assms(2) by (simp add: f)
qed

text \<open>What \<open>mem_init\<close> has done when it calls \<open>freerange\<close>.\<close>

definition mem_cleared :: "u64 \<Rightarrow> 'a kmem_state_scheme \<Rightarrow> 'a kmem_state_scheme" where
  "mem_cleared v s = s\<lparr>core_map := replicate (nat (npages s)) \<lparr>available = 0, user = 0, cm_va = 0, ref = 0\<rparr>,
     pmem := memset (pmem s) v 0 (unat (core_map_bytes s)), held := held s - {LKmem}, use_lock := 0\<rparr>"

lemma mem_cleared_wf:
  assumes "0 \<le> npages s" "npages s < 2 ^ 19"
  shows "kmem_ready (mem_cleared v s)" "avail (mem_cleared v s) = {}"
  using assms by (simp_all add: mem_cleared_def kmem_ready_def kmem_wf_def avail_def)

lemma mem_init_frees:
  assumes n: "0 \<le> npages s" "npages s + 1 < 2 ^ 19" and k: "KBASE \<le> k_end s"
    and room: "first_free s \<le> nat (npages s)"
  shows "\<exists>s'. mem_init (k_end s) s = Inr s' \<and> kmem_ready s' \<and> use_lock s' = 1 \<and>
    avail s' = page_va ` {first_free s..<nat (npages s)} \<and>
    free_pages s' = int (card (avail s')) \<and> pages_in_use s' = 0"
proof -
  let ?N = "nat (npages s)" and ?c = "mem_cleared (k_end s) s"
  have N: "?N < 2 ^ 19" "first_free s < 2 ^ 19" using n room by auto
  note ff = first_free_page [OF k N(2)]
  have c: "kmem_ready ?c" "avail ?c = {}" using n mem_cleared_wf [of s] by auto
  have cf: "npages ?c = npages s" "k_end ?c = k_end s" "core_map_bytes ?c = core_map_bytes s"
    by (simp_all add: mem_cleared_def core_map_bytes_def)
  have top: "P2V (mem_top ?c) = page_va ?N"
    using mem_top_wf [of ?c] c(1) N(1) cf(1) word_eq_page_va [of "mem_top ?c" ?N]
    by (simp add: kmem_ready_def)
  have fuel: "?N - first_free s < Suc (unat (page_va ?N) div 4096)"
    using N(1) by (simp add: unat_page_va)
  have after: "k_end ?c \<le> page_va j \<and> ref (core_map ?c ! j) = 0" if "first_free s \<le> j" "j < ?N" for j
  proof
    have "unat (k_end s) \<le> unat (k_end s + core_map_bytes s)" using ff(2) by simp
    also have "\<dots> \<le> unat KBASE + first_free s * 4096"
      unfolding ff(2) first_free_def using k unfolding word_le_nat_alt by simp
    also have "\<dots> \<le> unat (page_va j)" using that N by (simp add: unat_page_va)
    finally show "k_end ?c \<le> page_va j" using cf by (simp add: word_le_nat_alt)
    show "ref (core_map ?c ! j) = 0" using that by (simp add: mem_cleared_def)
  qed
  have "\<exists>s'. freerange_loop (Suc (unat (page_va ?N) div 4096)) (page_va (first_free s))
      (page_va (nat (npages ?c))) ?c = Inr s' \<and> kmem_ready s' \<and>
      avail s' = avail ?c \<union> page_va ` {first_free s..<nat (npages ?c)} \<and> npages s' = npages ?c \<and>
      held s' = held ?c"
    using c(1) n room fuel after cf(1) by (intro freerange_loop_frees) simp_all
  then obtain s1 where s1: "freerange (k_end s + core_map_bytes s) (page_va ?N) ?c = Inr s1"
      "kmem_ready s1" "avail s1 = page_va ` {first_free s..<?N}"
    using c(2) cf(1) by (auto simp: freerange_def ff(1))
  let ?s' = "s1\<lparr>free_pages := sint (page_va ?N - (k_end s + core_map_bytes s)) div 4096,
      pages_in_use := 0, pages_in_swap := 0, use_lock := 1\<rparr>"
  have "mem_init (k_end s) s = Inr ?s'"
    using s1(1) top unfolding mem_init_def Let_def mem_cleared_def
    by (simp add: core_map_bytes_def)
  moreover have "kmem_ready ?s'" "avail ?s' = avail s1"
    using s1(2) by (simp_all add: kmem_ready_def kmem_wf_def avail_def)
  moreover have "card (avail s1) = ?N - first_free s"
    unfolding s1(3) using N by (subst card_image) (auto intro: inj_on_subset [OF inj_page_va])
  ultimately show ?thesis
    using s1(3) boot_free_pages [OF k room N(1)] by auto
qed

section \<open>Properties\<close>



text \<open>A machine with two pages, both available.\<close>

definition two_pages :: kmem_state where
  "two_pages = \<lparr>held = {}, core_map = replicate 2 \<lparr>available = 1, user = 0, cm_va = 0, ref = 0\<rparr>,
     npages = 2, use_lock = 1, pages_in_use = 0, pages_in_swap = 0, free_pages = 2,
     k_end = KBASE, pmem = (\<lambda>_. 7)\<rparr>"

lemma two_pages_ready: "kmem_ready two_pages"
proof -
  have "KBASE \<le> page_va i" if "i < 2" for i
    using that by (intro page_va_base) simp
  then show ?thesis by (simp add: kmem_ready_def kmem_wf_def two_pages_def)
qed

lemma two_pages_kalloc: "kalloc two_pages = Inr (page_va 0, kalloc_took 0 two_pages)"
  using two_pages_ready
  by (simp add: kalloc_eq) (simp add: two_pages_def first_idx_def eval_nat_numeral)

lemma two_pages_own:
  "own_step kalloc kfree kincref (two_pages, \<lambda>_. 0)
     (kalloc_took 0 two_pages, (\<lambda>_. 0)(page_va 0 := 1))"
  using own_alloc [where alloc = kalloc and own = "\<lambda>_. 0", OF two_pages_kalloc]
  by (simp add: page_va_nonnull)

lemma two_pages_run:
  "(own_step kalloc kfree kincref)\<^sup>*\<^sup>* (two_pages, \<lambda>_. 0)
     (kalloc_took 0 two_pages, (\<lambda>_. 0)(page_va 0 := 1))"
  using two_pages_own by blast

lemma two_pages_kalloc2:
  "\<exists>s'. kalloc (kalloc_took 0 two_pages) = Inr (page_va 1, s')"
proof -
  have "kmem_ready (kalloc_took 0 two_pages)"
    by (rule kalloc_ready [OF two_pages_ready two_pages_kalloc])
  then show ?thesis
    by (simp add: kalloc_eq)
       (simp add: two_pages_def kalloc_took_def cm_upd_def first_idx_def eval_nat_numeral)
qed





text \<open>
  The counters count attempts, not pages: when no page is left, every call of \<open>kalloc\<close> still
  moves one page from \<open>free_pages\<close> to \<open>pages_in_use\<close>.
\<close>

lemma kalloc_exhausted_counters:
  assumes "kmem_ready s" "avail s = {}"
  shows "\<exists>s'. kalloc s = Inr (0, s') \<and> avail s' = {} \<and> free_pages s' = free_pages s - 1 \<and>
    pages_in_use s' = pages_in_use s + 1"
proof -
  have "first_idx (\<lambda>e. available e = 1) (core_map s) = None"
    using assms(2) by (auto simp: first_idx_None avail_def in_set_conv_nth)
  then show ?thesis using assms by (simp add: kalloc_eq kalloc_none_def avail_def)
qed

text \<open>
  With 2 GiB of memory or more (\<open>detect_memory\<close> caps \<open>npages\<close> at \<open>2 ^ 19\<close>) the product
  \<open>npages * PGSIZE\<close> overflows, the end of memory is computed as an address below the kernel and
  \<open>mem_init\<close> makes no page available.
\<close>

lemma detect_memory_2GiB:
  assumes "e \<in> set es" "e_addr e < 2 ^ 31" "e_addr e + e_len e \<ge> 2 ^ 31"
  shows "npages (detect_memory es s) = 2 ^ 19"
proof -
  let ?g = "\<lambda>mem e. if e_addr e \<ge> 2 ^ 31 then mem else max mem (e_addr e + e_len e)"
  have mono: "m \<le> foldl ?g m es" for m :: u64 and es :: "e820_entry list"
  proof (induction es arbitrary: m)
    case (Cons a es)
    have "m \<le> ?g m a" by simp
    also have "\<dots> \<le> foldl ?g (?g m a) es" by (rule Cons)
    finally show ?case by simp
  qed simp
  have "2 ^ 31 \<le> foldl ?g m es" for m
    using assms(1)
  proof (induction es arbitrary: m)
    case (Cons a es)
    show ?case
    proof (cases "a = e")
      case True
      then have "2 ^ 31 \<le> ?g m a" using assms(2,3) by (auto simp: le_max_iff_disj not_le)
      also have "\<dots> \<le> foldl ?g (?g m a) es" by (rule mono)
      finally show ?thesis by simp
    next
      case False
      with Cons show ?thesis by simp
    qed
  qed simp
  then have "min (foldl ?g 0 es) (2 ^ 31) = 2 ^ 31" by (rule min_absorb2)
  moreover have "- KBASE = (2 ^ 31 :: u64)" by simp
  ultimately have "npages (detect_memory es s) = uint ((2 ^ 31 :: u64) div 4096)"
    unfolding detect_memory_def Let_def by (simp only:) simp
  then show ?thesis by simp
qed

lemma mem_init_2GiB:
  assumes "npages s = 2 ^ 19" "KBASE \<le> k_end s" "first_free s + 1 < 2 ^ 19"
  shows "\<exists>s'. mem_init (k_end s) s = Inr s' \<and> avail s' = {}"
proof -
  have "mem_top s = word_of_int (- (2 ^ 31))"
    using assms(1) by (simp add: mem_top_def)
  then have top: "P2V (mem_top s) = 0xFFFFFFFF00000000" by (simp add: P2V_def)
  have "PGROUNDUP (k_end s + core_map_bytes s) + 4096 = page_va (Suc (first_free s))"
    using first_free_page(1) [OF assms(2)] assms(3) by (simp add: page_va_step)
  moreover have "KBASE \<le> page_va (Suc (first_free s))" using assms(3) by (intro page_va_base) simp
  ultimately have "KBASE \<le> PGROUNDUP (k_end s + core_map_bytes s) + 4096" by (simp only:)
  moreover have "(0xFFFFFFFF00000000 :: u64) < KBASE" by simp
  ultimately have "\<not> PGROUNDUP (k_end s + core_map_bytes s) + 4096 \<le> 0xFFFFFFFF00000000"
    by (meson leD order_less_le_trans)
  then have "freerange (k_end s + core_map_bytes s) 0xFFFFFFFF00000000 c = Inr c" for c :: "'a kmem_state_scheme"
    unfolding freerange_def freerange_loop.simps by (simp only: if_False)
  note fr = this [of "mem_cleared (k_end s) s"]
  have "mem_init (k_end s) s = Inr ((mem_cleared (k_end s) s)
      \<lparr>free_pages := sint (0xFFFFFFFF00000000 - (k_end s + core_map_bytes s)) div 4096,
       pages_in_use := 0, pages_in_swap := 0, use_lock := 1\<rparr>)"
    using fr top unfolding mem_init_def Let_def mem_cleared_def mem_top_def core_map_bytes_def
    by simp
  then show ?thesis by (simp add: avail_def mem_cleared_def)
qed

end
