(* ===== verification/Page_Table.thy ===== *)
theory Page_Table
  imports Phys_Mem
begin

text \<open>
  Four-level page tables as a data structure in memory, independent of the code that builds
  them: the table reached by a path of indices, the abstract page table (a map from leaf slots
  to entries, 0 when there is none), and what the two kinds of memory writes of x86_64vm.c,
  hooking in a cleared table and setting a leaf entry, do to both. The memory is the interface
  \<open>qword_memory\<close>; byte memory with little-endian words implements it.
\<close>

section \<open>Memory of 64-bit words\<close>

locale qword_memory =
  fixes load :: "'m \<Rightarrow> u64 \<Rightarrow> u64" and store :: "'m \<Rightarrow> u64 \<Rightarrow> u64 \<Rightarrow> 'm"
    and clear :: "'m \<Rightarrow> u64 \<Rightarrow> 'm"
  assumes load_store_same: "load (store m a v) a = v"
    and load_store_other: "8 dvd unat a \<Longrightarrow> 8 dvd unat b \<Longrightarrow> a \<noteq> b \<Longrightarrow>
      load (store m a v) b = load m b"
    and load_clear_in: "page_aligned p \<Longrightarrow> 8 dvd unat a \<Longrightarrow> unat (a - p) < 4096 \<Longrightarrow>
      load (clear m p) a = 0"
    and load_clear_out: "page_aligned p \<Longrightarrow> 8 dvd unat a \<Longrightarrow> \<not> unat (a - p) < 4096 \<Longrightarrow>
      load (clear m p) a = load m a"

section \<open>Entries and paths\<close>

text \<open>inc/mmu.h: the bits of a table entry.\<close>

abbreviation (input) PTE_P :: u64 where "PTE_P \<equiv> 1"
abbreviation (input) PTE_W :: u64 where "PTE_W \<equiv> 2"
abbreviation (input) PTE_U :: u64 where "PTE_U \<equiv> 4"
abbreviation (input) PTE_RO :: u64 where "PTE_RO \<equiv> 2048"

definition PTE_ADDR :: "u64 \<Rightarrow> u64" where
  "PTE_ADDR pte = pte AND 0x000FFFFFFFFFF000"

definition PTE_FLAGS :: "u64 \<Rightarrow> u64" where
  "PTE_FLAGS pte = pte AND 0xFFF"

text \<open>The address of entry \<open>i\<close> of the table at \<open>t\<close>.\<close>

definition ent :: "u64 \<Rightarrow> nat \<Rightarrow> u64" where
  "ent t i = t + of_nat (8 * i)"

text \<open>The table at the end of a path of indices that starts in the table at \<open>t\<close>.\<close>

fun tblat :: "(u64 \<Rightarrow> u64) \<Rightarrow> u64 \<Rightarrow> nat list \<Rightarrow> u64 option" where
  "tblat ld t [] = Some t"
| "tblat ld t (i # is) =
     (if ld (ent t i) AND PTE_P \<noteq> 0 then tblat ld (P2V (PTE_ADDR (ld (ent t i)))) is else None)"

text \<open>The entry in leaf slot \<open>j\<close> of the last-level table on path \<open>q\<close>; 0 when there is no such table.\<close>

definition pte_at :: "(u64 \<Rightarrow> u64) \<Rightarrow> u64 \<Rightarrow> nat list \<Rightarrow> nat \<Rightarrow> u64" where
  "pte_at ld t q j = (case tblat ld t q of None \<Rightarrow> 0 | Some u \<Rightarrow> ld (ent u j))"

definition path_ok :: "nat list \<Rightarrow> bool" where
  "path_ok p \<longleftrightarrow> length p \<le> 3 \<and> list_all (\<lambda>i. i < 512) p"

text \<open>The pages that hold the tables.\<close>

definition tables :: "(u64 \<Rightarrow> u64) \<Rightarrow> u64 \<Rightarrow> u64 set" where
  "tables ld t = {u. \<exists>p. path_ok p \<and> tblat ld t p = Some u}"

text \<open>A well-formed tree: tables are pages and no table is reached along two paths.\<close>

definition pt_tree :: "(u64 \<Rightarrow> u64) \<Rightarrow> u64 \<Rightarrow> bool" where
  "pt_tree ld t \<longleftrightarrow> (\<forall>u \<in> tables ld t. page_aligned u) \<and>
     (\<forall>p q u. path_ok p \<and> path_ok q \<and> tblat ld t p = Some u \<and> tblat ld t q = Some u \<longrightarrow> p = q)"

lemma path_ok_simps [simp]:
  "path_ok []" "path_ok (p @ [i]) \<longleftrightarrow> path_ok p \<and> length p < 3 \<and> i < 512"
  by (auto simp: path_ok_def)

lemma tblat_snoc:
  "tblat ld t (p @ [i]) = (case tblat ld t p of None \<Rightarrow> None
     | Some u \<Rightarrow> if ld (ent u i) AND PTE_P \<noteq> 0 then Some (P2V (PTE_ADDR (ld (ent u i)))) else None)"
  by (induction p arbitrary: t) auto

lemma tblat_append: "tblat ld t (p @ q) = Option.bind (tblat ld t p) (\<lambda>u. tblat ld u q)"
  by (induction p arbitrary: t) auto

lemma tables_root [simp]: "t \<in> tables ld t"
  using path_ok_simps(1) unfolding tables_def by (intro CollectI exI [of _ "[]"]) simp

lemma tablesI: "path_ok p \<Longrightarrow> tblat ld t p = Some u \<Longrightarrow> u \<in> tables ld t"
  by (auto simp: tables_def)

lemma pt_treeD:
  assumes "pt_tree ld t"
  shows "u \<in> tables ld t \<Longrightarrow> page_aligned u"
    and "path_ok p \<Longrightarrow> path_ok q \<Longrightarrow> tblat ld t p = Some u \<Longrightarrow> tblat ld t q = Some u \<Longrightarrow> p = q"
  using assms unfolding pt_tree_def by blast+

section \<open>Addresses of entries\<close>

lemma unat_ent:
  assumes "page_aligned t" "i < 512"
  shows "unat (ent t i) = unat t + 8 * i"
proof -
  obtain k where k: "unat t = 4096 * k" using assms(1) by (auto simp: page_aligned_def)
  then have "k < 2 ^ 52" using unat_lt64 [of t] by simp
  then have "unat t + 8 * i < 2 ^ 64" using k assms(2) by simp
  moreover have "unat (of_nat (8 * i) :: u64) = 8 * i" using assms(2) by (intro unat_of_nat64) simp
  ultimately show ?thesis unfolding ent_def using unat_plus64 [of t "of_nat (8 * i)"] by simp
qed

lemma ent_aligned: "page_aligned t \<Longrightarrow> i < 512 \<Longrightarrow> 8 dvd unat (ent t i)"
  by (auto simp: unat_ent page_aligned_def)

lemma ent_in_page: "i < 512 \<Longrightarrow> unat (ent t i - t) = 8 * i"
  unfolding ent_def using unat_of_nat64 [of "8 * i"] by simp

lemma ent_inject:
  assumes "page_aligned t" "page_aligned u" "i < 512" "j < 512"
  shows "ent t i = ent u j \<longleftrightarrow> t = u \<and> i = j"
proof
  assume "ent t i = ent u j"
  then have eq: "unat t + 8 * i = unat u + 8 * j" using assms unat_ent by metis
  have "4096 dvd unat t" "4096 dvd unat u" using assms(1,2) by (simp_all add: page_aligned_def)
  then obtain k l where "unat t = 4096 * k" "unat u = 4096 * l" by (blast elim: dvdE)
  moreover have "(4096 * c + 8 * i) mod 4096 = 8 * i" if "i < 512" for c i :: nat using that by simp
  ultimately have "8 * i = 8 * j" using eq assms(3,4) by metis
  with eq have "unat t = unat u \<and> i = j" by simp
  then show "t = u \<and> i = j" by (simp add: word_unat_eq_iff)
qed simp

section \<open>The two kinds of writes\<close>

text \<open>
  Hooking table \<open>n\<close> into the empty slot \<open>i\<close> of the table on path \<open>p\<close>, seen through the loads
  \<open>ld\<close> before and \<open>ld'\<close> after.
\<close>

definition hooked :: "(u64 \<Rightarrow> u64) \<Rightarrow> (u64 \<Rightarrow> u64) \<Rightarrow> u64 \<Rightarrow> u64 \<Rightarrow> nat \<Rightarrow> u64 \<Rightarrow> bool" where
  "hooked ld ld' r t i n \<longleftrightarrow>
     ld' (ent t i) AND PTE_P \<noteq> 0 \<and> P2V (PTE_ADDR (ld' (ent t i))) = n \<and>
     (\<forall>j < 512. ld' (ent n j) = 0) \<and>
     (\<forall>u \<in> tables ld r. \<forall>j < 512. (u, j) \<noteq> (t, i) \<longrightarrow> ld' (ent u j) = ld (ent u j))"

lemma tblat_hook:
  assumes tree: "pt_tree ld r" and p: "path_ok (p @ [i])" "tblat ld r p = Some t"
    and empty: "ld (ent t i) AND PTE_P = 0" and hook: "hooked ld ld' r t i n"
  shows "path_ok q \<Longrightarrow> tblat ld' r q = (if q = p @ [i] then Some n else tblat ld r q)"
proof (induction q rule: rev_induct)
  case Nil
  show ?case by simp
next
  case (snoc k q)
  have q: "path_ok q" "k < 512" "path_ok p" using snoc.prems p(1) by auto
  have old: "tblat ld r (p @ [i]) = None" using p(2) empty by (simp add: tblat_snoc)
  show ?case
  proof (cases "q = p @ [i]")
    case True
    then have "tblat ld' r q = Some n" using snoc.IH [OF q(1)] by simp
    then have "tblat ld' r (q @ [k]) = None" using hook q(2) by (simp add: tblat_snoc hooked_def)
    moreover have "tblat ld r (q @ [k]) = None"
      unfolding True tblat_snoc [of _ _ "p @ [i]"] old by simp
    moreover have "q @ [k] \<noteq> p @ [i]" using True by (metis append_same_eq length_append_singleton n_not_Suc_n)
    ultimately show ?thesis by simp
  next
    case False
    then have IH: "tblat ld' r q = tblat ld r q" using snoc.IH [OF q(1)] by simp
    show ?thesis
    proof (cases "tblat ld r q")
      case None
      then have "q \<noteq> p" using p(2) by auto
      with None IH show ?thesis by (simp add: tblat_snoc)
    next
      case (Some u)
      show ?thesis
      proof (cases "(u, k) = (t, i)")
        case True
        then have "q = p" using pt_treeD(2) [OF tree q(1,3)] Some p(2) by simp
        with True Some IH show ?thesis using hook by (simp add: tblat_snoc hooked_def)
      next
        case False
        then have "q @ [k] \<noteq> p @ [i]" using Some p(2) by auto
        moreover have "ld' (ent u k) = ld (ent u k)"
          using hook False q(2) tablesI [OF q(1) Some] by (simp add: hooked_def)
        ultimately show ?thesis using Some IH by (auto simp: tblat_snoc)
      qed
    qed
  qed
qed

lemma hook_tree:
  assumes tree: "pt_tree ld r" and p: "path_ok (p @ [i])" "tblat ld r p = Some t"
    and empty: "ld (ent t i) AND PTE_P = 0" and hook: "hooked ld ld' r t i n"
    and new: "n \<notin> tables ld r" "page_aligned n"
  shows "pt_tree ld' r" and "tables ld' r = insert n (tables ld r)"
    and "\<And>q j. path_ok q \<Longrightarrow> length q = 3 \<Longrightarrow> j < 512 \<Longrightarrow> pte_at ld' r q j = pte_at ld r q j"
proof -
  note t' = tblat_hook [OF tree p empty hook]
  have old: "tblat ld r (p @ [i]) = None" using p(2) empty by (simp add: tblat_snoc)
  show tb: "tables ld' r = insert n (tables ld r)"
  proof (intro set_eqI iffI)
    fix u assume "u \<in> tables ld' r"
    then show "u \<in> insert n (tables ld r)" using t' unfolding tables_def by (auto split: if_splits)
  next
    fix u assume "u \<in> insert n (tables ld r)"
    then consider "u = n" | q where "path_ok q" "tblat ld r q = Some u" by (auto simp: tables_def)
    then show "u \<in> tables ld' r"
    proof cases
      case 1
      then show ?thesis using t' [OF p(1)] tablesI [OF p(1)] by simp
    next
      case 2
      then have "q \<noteq> p @ [i]" using old by auto
      with 2 show ?thesis using t' [OF 2(1)] tablesI by simp
    qed
  qed
  have fresh: "tblat ld r q \<noteq> Some n" if "path_ok q" for q using new(1) tablesI that by blast
  show "pt_tree ld' r"
    unfolding pt_tree_def tb using pt_treeD [OF tree] new(2) t' fresh
    by (auto split: if_splits)
  show "pte_at ld' r q j = pte_at ld r q j" if q: "path_ok q" "length q = 3" "j < 512" for q j
  proof (cases "q = p @ [i]")
    case True
    then show ?thesis using t' [OF q(1)] old hook q(3) by (simp add: pte_at_def hooked_def)
  next
    case False
    then have eq: "tblat ld' r q = tblat ld r q" using t' [OF q(1)] by simp
    show ?thesis
    proof (cases "tblat ld r q")
      case (Some u)
      have "(u, j) \<noteq> (t, i)"
        using pt_treeD(2) [OF tree, of q p u] q p Some by auto
      then have "ld' (ent u j) = ld (ent u j)"
        using hook q(3) tablesI [OF q(1) Some] by (simp add: hooked_def)
      with Some eq show ?thesis by (simp add: pte_at_def)
    qed (simp add: pte_at_def eq)
  qed
qed

text \<open>Setting leaf slot \<open>j\<close> of the last-level table on path \<open>q\<close>.\<close>

lemma leaf_write:
  assumes tree: "pt_tree ld r" and q: "path_ok q" "length q = 3" "tblat ld r q = Some t"
    and same: "\<And>u k. u \<in> tables ld r \<Longrightarrow> k < 512 \<Longrightarrow> (u, k) \<noteq> (t, j) \<Longrightarrow> ld' (ent u k) = ld (ent u k)"
  shows "path_ok p \<Longrightarrow> tblat ld' r p = tblat ld r p"
    and "pt_tree ld' r" and "tables ld' r = tables ld r"
    and "path_ok p \<Longrightarrow> length p = 3 \<Longrightarrow> k < 512 \<Longrightarrow>
      pte_at ld' r p k = (if p = q \<and> k = j then ld' (ent t j) else pte_at ld r p k)"
proof -
  have eq: "tblat ld' r p = tblat ld r p" if "path_ok p" for p
    using that
  proof (induction p rule: rev_induct)
    case (snoc k p)
    show ?case
    proof (cases "tblat ld r p")
      case (Some u)
      have "u \<noteq> t" using pt_treeD(2) [OF tree, of p q u] snoc.prems q Some by auto
      then have "ld' (ent u k) = ld (ent u k)"
        using same [OF tablesI [OF _ Some]] snoc.prems by simp
      then show ?thesis using snoc Some by (simp add: tblat_snoc)
    qed (use snoc in \<open>simp add: tblat_snoc\<close>)
  qed simp
  then show "path_ok p \<Longrightarrow> tblat ld' r p = tblat ld r p" .
  show tb: "tables ld' r = tables ld r" using eq by (auto simp: tables_def)
  show "pt_tree ld' r" using tree eq unfolding pt_tree_def tb by metis
  show "pte_at ld' r p k = (if p = q \<and> k = j then ld' (ent t j) else pte_at ld r p k)"
    if p: "path_ok p" "length p = 3" "k < 512"
  proof (cases "tblat ld r p")
    case (Some u)
    have "u = t \<longleftrightarrow> p = q" using pt_treeD(2) [OF tree p(1) q(1)] Some q(3) by auto
    then show ?thesis using Some eq [OF p(1)] same [of u k] tablesI [OF p(1) Some] p(3)
      by (auto simp: pte_at_def)
  next
    case None
    then show ?thesis using eq [OF p(1)] q(3) by (auto simp: pte_at_def)
  qed
qed

section \<open>The writes in memory\<close>

context qword_memory
begin

lemma store_ent:
  assumes "page_aligned t" "page_aligned u" "i < 512" "j < 512" "(u, j) \<noteq> (t, i)"
  shows "load (store m (ent t i) v) (ent u j) = load m (ent u j)"
  using assms ent_inject [of t u i j] by (intro load_store_other ent_aligned) auto

lemma clear_ent:
  assumes "page_aligned p" "page_aligned u" "j < 512"
  shows "load (clear m p) (ent u j) = (if u = p then 0 else load m (ent u j))"
proof (cases "u = p")
  case True
  then show ?thesis using assms ent_in_page [of j p] by (simp add: load_clear_in ent_aligned)
next
  case False
  have "unat (ent u j - u) < 4096" using assms(3) by (simp add: ent_in_page)
  then have "\<not> unat (ent u j - p) < 4096"
    using pages_disjoint [OF assms(1,2)] False by blast
  with False show ?thesis using assms by (simp add: load_clear_out ent_aligned)
qed

lemma store_clear_hooked:
  assumes tree: "pt_tree (load m) r" and t: "t \<in> tables (load m) r" "i < 512"
    and n: "n \<notin> tables (load m) r" "page_aligned n"
    and e: "e AND PTE_P \<noteq> 0" "P2V (PTE_ADDR e) = n"
  shows "hooked (load m) (load (store (clear m n) (ent t i) e)) r t i n"
proof -
  have at: "page_aligned t" using pt_treeD(1) [OF tree t(1)] .
  have nt: "n \<noteq> t" using n(1) t(1) by auto
  have "load (store (clear m n) (ent t i) e) (ent n j) = 0" if "j < 512" for j
    using that nt at n(2) t(2) by (subst store_ent) (auto simp: clear_ent)
  moreover have "load (store (clear m n) (ent t i) e) (ent u j) = load m (ent u j)"
    if "u \<in> tables (load m) r" "j < 512" "(u, j) \<noteq> (t, i)" for u j
    using that pt_treeD(1) [OF tree that(1)] at n t(2)
    by (subst store_ent) (auto simp: clear_ent)
  ultimately show ?thesis using e by (simp add: hooked_def load_store_same)
qed

end

lemma rd64_fill_in:
  assumes "page_aligned p" "8 dvd unat a" "unat (a - p) < 4096"
  shows "rd64 (mem_fill m p 4096 0) a = 0"
proof -
  obtain k where k: "unat p = 4096 * k" using assms(1) by (auto simp: page_aligned_def)
  obtain l where l: "unat a = 8 * l" using assms(2) by auto
  have "k < 2 ^ 52" using unat_lt64 [of p] k by simp
  then have "unat p + unat (a - p) < 2 ^ 64" using k assms(3) by simp
  then have ap: "unat a = unat p + unat (a - p)" using unat_plus64 [of p "a - p"] by simp
  then have "8 dvd unat (a - p)" using k l by (metis assms(2) dvd_add_right_iff dvd_mult2 dvd_triv_left mult_2_right numeral_Bit0 dvd_refl dvd_add)
  then obtain d where d: "unat (a - p) = 8 * d" by auto
  then have "d < 512" using assms(3) by simp
  have "unat (a + of_nat i - p) < 4096" if "i < 8" for i
  proof -
    have "unat (a - p + of_nat i) = 8 * d + i"
      using unat_plus64 [of "a - p" "of_nat i"] unat_of_nat8 [OF that] d \<open>d < 512\<close> that by simp
    then show ?thesis using that \<open>d < 512\<close> by (simp add: algebra_simps)
  qed
  then have "rd64 (mem_fill m p 4096 0) a = rd64 (\<lambda>_. 0) a"
    by (intro rd64_cong) (simp add: mem_fill_def)
  also have "rd64 (\<lambda>_. 0) a = 0" by (rule bit_word_eqI) (simp add: bit_rd64)
  finally show ?thesis .
qed

lemma rd64_fill_out:
  assumes "page_aligned p" "8 dvd unat a" "\<not> unat (a - p) < 4096"
  shows "rd64 (mem_fill m p 4096 0) a = rd64 m a"
proof (rule rd64_cong)
  fix i :: nat assume i: "i < 8"
  define q where "q = PGROUNDDOWN a"
  have uq: "unat q = unat a div 4096 * 4096" by (simp add: q_def unat_PGROUNDDOWN)
  then have q: "page_aligned q" by (simp add: page_aligned_def)
  have "q \<le> a" using uq by (simp add: word_le_nat_alt)
  then have aq: "unat (a - q) = unat a mod 4096"
    using uq by (simp add: unat_sub minus_div_mult_eq_mod)
  obtain l where l: "unat a = 8 * l" using assms(2) by auto
  then have "unat (a - q) = 8 * (l mod 512)" using aq by (simp add: mod_mult_mult1 [of 8 _ 512, simplified])
  then have "unat (a - q + of_nat i) = 8 * (l mod 512) + i"
    using unat_plus64 [of "a - q" "of_nat i"] unat_of_nat8 [OF i] i mod_less_divisor [of 512 l] by simp
  then have "unat (a + of_nat i - q) < 4096" using i mod_less_divisor [of 512 l] by (simp add: algebra_simps)
  moreover have "q \<noteq> p" using assms(3) aq by auto
  ultimately have "\<not> unat (a + of_nat i - p) < 4096"
    using pages_disjoint [OF assms(1) q] by blast
  then show "mem_fill m p 4096 0 (a + of_nat i) = m (a + of_nat i)" by (simp add: mem_fill_def)
qed

interpretation bytes: qword_memory rd64 wr64 "\<lambda>m p. mem_fill m p 4096 0"
  by unfold_locales (simp_all add: rd64_wr64_other rd64_fill_in rd64_fill_out)

end
