(* ===== verification/Paging.thy ===== *)
theory Paging
  imports Kalloc Page_Table
begin

text \<open>
  kernel/x86_64vm.c: walking and extending a four-level page table, mapping ranges of pages,
  the kernel's part of an address space, unmapping a user range, freeing all tables, and
  copying data into a user address space. The data structure itself is in \<open>Page_Table\<close>.
\<close>

section \<open>State\<close>

text \<open>The linker symbol \<open>data\<close>, the kernel's own page table and the register CR3.\<close>

record vm_state = kmem_state +
  k_data :: u64
  kpml4 :: u64
  cr3 :: u64

section \<open>Operations\<close>

definition PML4_INDEX :: "u64 \<Rightarrow> nat" where "PML4_INDEX va = unat (drop_bit 39 va AND 511)"
definition PDPT_INDEX :: "u64 \<Rightarrow> nat" where "PDPT_INDEX va = unat (drop_bit 30 va AND 511)"
definition PD_INDEX :: "u64 \<Rightarrow> nat" where "PD_INDEX va = unat (drop_bit 21 va AND 511)"
definition PT_INDEX :: "u64 \<Rightarrow> nat" where "PT_INDEX va = unat (drop_bit 12 va AND 511)"

definition PGADDR :: "nat \<Rightarrow> nat \<Rightarrow> nat \<Rightarrow> nat \<Rightarrow> u64 \<Rightarrow> u64" where
  "PGADDR l4 l3 d t off =
     push_bit 39 (of_nat l4) OR push_bit 30 (of_nat l3) OR push_bit 21 (of_nat d) OR
     push_bit 12 (of_nat t) OR off"

text \<open>
  One level of \<open>walkpml4\<close>: the table that the entry at address \<open>e\<close> points to, created and
  cleared first if it is absent and \<open>alloc\<close> is set. None is the early \<open>return 0\<close>.
\<close>

definition walk_level :: "u64 \<Rightarrow> int \<Rightarrow> 'a kmem_state_scheme \<Rightarrow>
    'a kmem_state_scheme stop + u64 option \<times> 'a kmem_state_scheme" where
  "walk_level e alloc s =
     (if rd64 (pmem s) e AND PTE_P \<noteq> 0 then Inr (Some (P2V (PTE_ADDR (rd64 (pmem s) e))), s)
      else if alloc = 0 then Inr (None, s)
      else bindr (kalloc s) (\<lambda>(t, s).
        if t = 0 then Inr (None, s)
        else let s = s\<lparr>pmem := memset (pmem s) t 0 PGSIZE\<rparr>;
                 s = s\<lparr>pmem := wr64 (pmem s) e (V2P t OR PTE_P OR PTE_W OR PTE_U)\<rparr>
             in Inr (Some t, s)))"

text \<open>\<open>walkpml4\<close> returns the address of the entry, 0 for null.\<close>

definition walkpml4 :: "u64 \<Rightarrow> u64 \<Rightarrow> int \<Rightarrow> 'a kmem_state_scheme \<Rightarrow>
    'a kmem_state_scheme stop + u64 \<times> 'a kmem_state_scheme" where
  "walkpml4 pml4 va alloc s =
     bindr (walk_level (ent pml4 (PML4_INDEX va)) alloc s) (\<lambda>(r, s).
     case r of None \<Rightarrow> Inr (0, s) | Some pdpt \<Rightarrow>
     bindr (walk_level (ent pdpt (PDPT_INDEX va)) alloc s) (\<lambda>(r, s).
     case r of None \<Rightarrow> Inr (0, s) | Some pgdir \<Rightarrow>
     bindr (walk_level (ent pgdir (PD_INDEX va)) alloc s) (\<lambda>(r, s).
     case r of None \<Rightarrow> Inr (0, s) | Some pgtab \<Rightarrow>
     Inr (ent pgtab (PT_INDEX va), s))))"

text \<open>Reading through a pointer that may be null.\<close>

definition ld_ptr :: "u64 \<Rightarrow> 'a kmem_state_scheme \<Rightarrow> 'a kmem_state_scheme stop + u64" where
  "ld_ptr p s = (if p = 0 then Inl (Fault ''null pointer'') else Inr (rd64 (pmem s) p))"

definition uva2ka :: "u64 \<Rightarrow> u64 \<Rightarrow> 'a kmem_state_scheme \<Rightarrow>
    'a kmem_state_scheme stop + u64 \<times> 'a kmem_state_scheme" where
  "uva2ka pml4 uva s =
     bindr (walkpml4 pml4 uva 0 s) (\<lambda>(pte, s).
     bindr (ld_ptr pte s) (\<lambda>e.
       if e AND PTE_P = 0 then Inr (0, s)
       else if e AND PTE_U = 0 then Inr (0, s)
       else Inr (P2V (PTE_ADDR e), s)))"

text \<open>\<open>copyout\<close>: \<open>buf\<close> is a kernel address; the loop ends because every round copies a byte.\<close>

function copyout :: "u64 \<Rightarrow> u64 \<Rightarrow> u64 \<Rightarrow> nat \<Rightarrow> 'a kmem_state_scheme \<Rightarrow>
    'a kmem_state_scheme stop + int \<times> 'a kmem_state_scheme" where
  "copyout pml4 va buf len s =
     (if len = 0 then Inr (0, s)
      else
        let va0 = PGROUNDDOWN va in
        bindr (uva2ka pml4 va0 s) (\<lambda>(pa0, s).
          if pa0 = 0 then Inr (-1, s)
          else
            let n = min (PGSIZE - unat (va - va0)) len in
            copyout pml4 (va0 + 4096) (buf + of_nat n) (len - n)
              (s\<lparr>pmem := memmove (pmem s) (pa0 + (va - va0)) buf n\<rparr>)))"
  by pat_completeness auto

fun mappages :: "u64 \<Rightarrow> u64 \<Rightarrow> nat \<Rightarrow> u64 \<Rightarrow> u64 \<Rightarrow> int \<Rightarrow> 'a kmem_state_scheme \<Rightarrow>
    'a kmem_state_scheme stop + int \<times> 'a kmem_state_scheme" where
  "mappages pml4 virt_pn 0 phy_pn perm kern s = Inr (0, s)"
| "mappages pml4 virt_pn (Suc n) phy_pn perm kern s =
     bindr (walkpml4 pml4 (push_bit 12 virt_pn) 1 s) (\<lambda>(pte, s).
       if pte = 0 then Inl (Panic ''not enough memory'')
       else if rd64 (pmem s) pte AND PTE_P \<noteq> 0 then Inl (Panic ''remap'')
       else
         let s = s\<lparr>pmem := wr64 (pmem s) pte (push_bit 12 phy_pn OR perm)\<rparr> in
         bindr (if kern = 0 then mark_user_mem (push_bit 12 phy_pn) (push_bit 12 virt_pn) s
                else Inr s)
           (mappages pml4 (virt_pn + 1) n (phy_pn + 1) perm kern))"

text \<open>\<open>setupkvm\<close>: the table of kernel ranges and the loop over it.\<close>

type_synonym kmap = "u64 \<times> u64 \<times> u64 \<times> u64"

definition kmap_table :: "'a vm_state_scheme \<Rightarrow> kmap list" where
  "kmap_table s =
     [(KBASE, 0, 0x100000, PTE_W),
      (KBASE + 0x100000, 0x100000, V2P (k_data s), 0),
      (k_data s, V2P (k_data s), word_of_int (npages s) * 4096, PTE_W),
      (0xFFFFFFFFFE000000, 0xFE000000, 0x100000000, PTE_W)]"

text \<open>The third argument of \<open>mappages\<close> is an int: a count above \<open>2 ^ 31\<close> is negative.\<close>

definition page_count :: "u64 \<Rightarrow> nat" where
  "page_count n = nat (sint (ucast n :: u32))"

fun map_kmap :: "u64 \<Rightarrow> kmap list \<Rightarrow> 'a vm_state_scheme \<Rightarrow>
    'a vm_state_scheme stop + u64 \<times> 'a vm_state_scheme" where
  "map_kmap pml4 [] s = Inr (pml4, s)"
| "map_kmap pml4 ((virt, start, stop, perm) # ks) s =
     bindr (mappages pml4 (drop_bit 12 virt) (page_count (drop_bit 12 (stop - start)))
              (drop_bit 12 start) (perm OR PTE_P) 1 s) (\<lambda>(rc, s).
       if rc < 0 then Inr (0, s) else map_kmap pml4 ks s)"

definition setupkvm :: "'a vm_state_scheme \<Rightarrow> 'a vm_state_scheme stop + u64 \<times> 'a vm_state_scheme" where
  "setupkvm s =
     bindr (kalloc s) (\<lambda>(pml4, s).
       if pml4 = 0 then Inr (0, s)
       else map_kmap pml4 (kmap_table s) (s\<lparr>pmem := memset (pmem s) pml4 0 PGSIZE\<rparr>))"

text \<open>\<open>find_next_possible_page\<close>: where the region of the missing table ends, less one page.\<close>

definition find_next_possible_page :: "u64 \<Rightarrow> u64 \<Rightarrow> 'a kmem_state_scheme \<Rightarrow>
    'a kmem_state_scheme stop + u64" where
  "find_next_possible_page pml4 va s =
     (let m = pmem s; e4 = rd64 m (ent pml4 (PML4_INDEX va)) in
      if e4 AND PTE_P = 0 then Inr (PGADDR (PML4_INDEX va + 1) 0 0 0 0 - 4096)
      else
        let pdpt = P2V (PTE_ADDR e4); e3 = rd64 m (ent pdpt (PDPT_INDEX va)) in
        if e3 AND PTE_P = 0
        then Inr (PGADDR (PML4_INDEX va) (PDPT_INDEX va + 1) 0 0 0 - 4096)
        else
          let pgdir = P2V (PTE_ADDR e3); e2 = rd64 m (ent pgdir (PD_INDEX va)) in
          if e2 AND PTE_P = 0
          then Inr (PGADDR (PML4_INDEX va) (PDPT_INDEX va) (PD_INDEX va + 1) 0 0 - 4096)
          else Inl (Panic ''level is not missing''))"

text \<open>
  The loop of \<open>deallocuvm\<close>; \<open>stop\<close> is \<open>start + oldsz\<close>. The fuel is the number of pages below
  \<open>stop\<close>: every round moves at least one page up.
\<close>

fun dealloc_loop :: "nat \<Rightarrow> u64 \<Rightarrow> u64 \<Rightarrow> u64 \<Rightarrow> 'a kmem_state_scheme \<Rightarrow>
    'a kmem_state_scheme stop + 'a kmem_state_scheme" where
  "dealloc_loop 0 pml4 a stop s = Inl (Fault ''deallocuvm does not end'')"
| "dealloc_loop (Suc fuel) pml4 a stop s =
     (if a < stop then
        bindr (walkpml4 pml4 a 0 s) (\<lambda>(pte, s).
        bindr (if pte = 0 then
                 bindr (find_next_possible_page pml4 a s) (\<lambda>a. Inr (a, s))
               else if rd64 (pmem s) pte AND PTE_P \<noteq> 0 then
                 let pa = PTE_ADDR (rd64 (pmem s) pte) in
                 if pa = 0 then Inl (Panic ''kfree'')
                 else bindr (kfree (P2V pa) s) (\<lambda>s. Inr (a, s\<lparr>pmem := wr64 (pmem s) pte 0\<rparr>))
               else Inr (a, s))
          (\<lambda>(a, s). dealloc_loop fuel pml4 (a + 4096) stop s))
      else Inr s)"

definition deallocuvm :: "u64 \<Rightarrow> u64 \<Rightarrow> u64 \<Rightarrow> u64 \<Rightarrow> 'a kmem_state_scheme \<Rightarrow>
    'a kmem_state_scheme stop + u64 \<times> 'a kmem_state_scheme" where
  "deallocuvm pml4 start oldsz newsz s =
     (if newsz \<ge> oldsz then Inr (oldsz, s)
      else bindr (dealloc_loop (unat (start + oldsz) div PGSIZE + 2) pml4 (PGROUNDUP (start + newsz))
                   (start + oldsz) s)
             (\<lambda>s. Inr (newsz, s)))"

definition freevm_pgdir :: "u64 \<Rightarrow> 'a kmem_state_scheme \<Rightarrow> 'a kmem_state_scheme stop + 'a kmem_state_scheme" where
  "freevm_pgdir pgdir s =
     bindr (for_range 0 512 (\<lambda>i s.
         let e = rd64 (pmem s) (ent pgdir i) in
         if e AND PTE_P \<noteq> 0 then kfree (P2V (PTE_ADDR e)) s else Inr s) s)
       (kfree pgdir)"

definition freevm_pdpt :: "u64 \<Rightarrow> 'a kmem_state_scheme \<Rightarrow> 'a kmem_state_scheme stop + 'a kmem_state_scheme" where
  "freevm_pdpt pdpt s =
     bindr (for_range 0 512 (\<lambda>i s.
         let e = rd64 (pmem s) (ent pdpt i) in
         if e AND PTE_P \<noteq> 0 then freevm_pgdir (P2V (PTE_ADDR e)) s else Inr s) s)
       (kfree pdpt)"

definition freevm :: "u64 \<Rightarrow> 'a kmem_state_scheme \<Rightarrow> 'a kmem_state_scheme stop + 'a kmem_state_scheme" where
  "freevm pml4 s =
     bindr (kassert ''freevm: no pml4'' (pml4 \<noteq> 0)) (\<lambda>_.
     bindr (deallocuvm pml4 0 0x100000000 0 s) (\<lambda>(_, s).
     bindr (for_range 0 512 (\<lambda>i s.
         let e = rd64 (pmem s) (ent pml4 i) in
         if e AND PTE_P \<noteq> 0 then freevm_pdpt (P2V (PTE_ADDR e)) s else Inr s) s)
       (kfree pml4)))"

section \<open>Termination of copyout\<close>

lemma page_offset: "unat (va - PGROUNDDOWN va) < 4096"
proof -
  have "PGROUNDDOWN va \<le> va" by (simp add: word_le_nat_alt unat_PGROUNDDOWN)
  then show ?thesis by (simp add: unat_sub unat_PGROUNDDOWN minus_div_mult_eq_mod)
qed

termination copyout
  by (relation "measure (\<lambda>(pml4, va, buf, len, s). len)") (auto simp: page_offset)

declare copyout.simps [simp del]

section \<open>The tables in the kernel state\<close>

abbreviation qld :: "'a kmem_state_scheme \<Rightarrow> u64 \<Rightarrow> u64" where "qld s \<equiv> rd64 (pmem s)"

text \<open>The tables of \<open>r\<close> form a tree of pages that are allocated.\<close>

definition pt_ok :: "'a kmem_state_scheme \<Rightarrow> u64 \<Rightarrow> bool" where
  "pt_ok s r \<longleftrightarrow> pt_tree (qld s) r \<and> (\<forall>u \<in> tables (qld s) r. 0 < refs s u)"

definition vpath :: "u64 \<Rightarrow> nat list" where
  "vpath va = [PML4_INDEX va, PDPT_INDEX va, PD_INDEX va]"

text \<open>The abstract page table: the entry for a virtual address, 0 when its table is missing.\<close>

definition pteof :: "'a kmem_state_scheme \<Rightarrow> u64 \<Rightarrow> u64 \<Rightarrow> u64" where
  "pteof s r va = pte_at (qld s) r (vpath va) (PT_INDEX va)"

lemma and_511_lt: "unat (x AND 511 :: u64) < 512"
  using word_and_le1 [of x 511] by (simp add: word_le_nat_alt)

lemma index_lt [simp]:
  "PML4_INDEX va < 512" "PDPT_INDEX va < 512" "PD_INDEX va < 512" "PT_INDEX va < 512"
  by (simp_all only: PML4_INDEX_def PDPT_INDEX_def PD_INDEX_def PT_INDEX_def and_511_lt)

lemma vpath_ok [simp]: "path_ok (vpath va)" "length (vpath va) = 3"
  by (simp_all add: vpath_def path_ok_def)

text \<open>Only the core map, its counters and memory differ.\<close>

definition kmem_only :: "'a kmem_state_scheme \<Rightarrow> 'a kmem_state_scheme \<Rightarrow> bool" where
  "kmem_only s s' \<longleftrightarrow> s' = s\<lparr>core_map := core_map s', pages_in_use := pages_in_use s',
     free_pages := free_pages s', pmem := pmem s'\<rparr>"

lemma kmem_only_refl [simp]: "kmem_only s s"
  by (simp add: kmem_only_def)

lemma kmem_only_trans:
  assumes "kmem_only s s'" "kmem_only s' s''"
  shows "kmem_only s s''"
proof -
  obtain c p f m where "s' = s\<lparr>core_map := c, pages_in_use := p, free_pages := f, pmem := m\<rparr>"
    using assms(1) unfolding kmem_only_def by blast
  moreover obtain c' p' f' m' where
    "s'' = s'\<lparr>core_map := c', pages_in_use := p', free_pages := f', pmem := m'\<rparr>"
    using assms(2) unfolding kmem_only_def by blast
  ultimately show ?thesis by (simp add: kmem_only_def)
qed

lemma kmem_onlyE:
  assumes "kmem_only s s'"
  obtains c p f m where "s' = s\<lparr>core_map := c, pages_in_use := p, free_pages := f, pmem := m\<rparr>"
  using assms unfolding kmem_only_def by blast

lemma kmem_only_held: "kmem_only s s' \<Longrightarrow> held s' = held s"
  by (erule kmem_onlyE) simp

section \<open>Entry values\<close>

lemma PTE_ADDR_page:
  assumes "i < 2 ^ 40" "take_bit 12 f = f"
  shows "PTE_ADDR (page2pa i OR f) = page2pa i"
proof -
  define w :: u64 where "w = of_nat i"
  have "unat (take_bit 40 w) = unat w"
    using assms(1) by (simp add: w_def unsigned_take_bit_eq unat_of_nat take_bit_nat_eq_self)
  then have "take_bit 40 w = w" by (simp only: word_unat_eq_iff)
  then have bi: "bit w k \<Longrightarrow> k < 40" for k by (metis bit_take_bit_iff)
  have bf: "bit f k \<Longrightarrow> k < 12" for k using assms(2) by (metis bit_take_bit_iff)
  have mask: "0x000FFFFFFFFFF000 = push_bit 12 (mask 40 :: u64)"
    by (simp add: mask_eq_exp_minus_1 push_bit_eq_mult)
  show ?thesis
    unfolding PTE_ADDR_def mask page2pa_def w_def [symmetric]
    by (rule bit_word_eqI) (auto simp: bit_simps dest: bi bf)
qed

lemma table_entry:
  assumes "i < 2 ^ 40"
  shows "P2V (PTE_ADDR (V2P (page_va i) OR PTE_P OR PTE_W OR PTE_U)) = page_va i"
    and "(V2P (page_va i) OR PTE_P OR PTE_W OR PTE_U) AND PTE_P \<noteq> 0"
proof -
  have flags: "V2P (page_va i) OR PTE_P OR PTE_W OR PTE_U = page2pa i OR 7"
    by (simp add: or.assoc)
  have "take_bit 12 (7 :: u64) = 7" by simp
  then show "P2V (PTE_ADDR (V2P (page_va i) OR PTE_P OR PTE_W OR PTE_U)) = page_va i"
    unfolding flags using assms by (simp only: PTE_ADDR_page)
  show "(V2P (page_va i) OR PTE_P OR PTE_W OR PTE_U) AND PTE_P \<noteq> 0"
    unfolding flags by (simp add: and_one_eq odd_iff_mod_2_eq_one [symmetric] even_or_iff)
qed

section \<open>One level of a walk\<close>

text \<open>
  What adding to the tables of \<open>r\<close> keeps: tables are only added, they come from the available
  pages, and no memory outside the tables changes. When only tables were added, the abstract
  page table is the same.
\<close>

definition pt_ext :: "u64 \<Rightarrow> 'a kmem_state_scheme \<Rightarrow> 'a kmem_state_scheme \<Rightarrow> bool" where
  "pt_ext r s s' \<longleftrightarrow> kmem_ready s' \<and> pt_ok s' r \<and> kmem_only s s' \<and>
     (\<forall>q u. path_ok q \<and> tblat (qld s) r q = Some u \<longrightarrow> tblat (qld s') r q = Some u) \<and>
     avail s' \<subseteq> avail s \<and> tables (qld s') r \<subseteq> tables (qld s) r \<union> (avail s - avail s') \<and>
     (\<forall>p. p \<notin> avail s - avail s' \<longrightarrow> refs s' p = refs s p) \<and>
     (\<forall>x. (\<forall>u \<in> tables (qld s') r. \<not> unat (x - u) < 4096) \<longrightarrow> pmem s' x = pmem s x)"

definition pt_grown :: "u64 \<Rightarrow> 'a kmem_state_scheme \<Rightarrow> 'a kmem_state_scheme \<Rightarrow> bool" where
  "pt_grown r s s' \<longleftrightarrow> pt_ext r s s' \<and>
     (\<forall>q j. path_ok q \<and> length q = 3 \<and> j < 512 \<longrightarrow> pte_at (qld s') r q j = pte_at (qld s) r q j)"

lemma pt_ext_refl: "kmem_ready s \<Longrightarrow> pt_ok s r \<Longrightarrow> pt_ext r s s"
  by (simp add: pt_ext_def)

lemma pt_grown_refl: "kmem_ready s \<Longrightarrow> pt_ok s r \<Longrightarrow> pt_grown r s s"
  by (simp add: pt_grown_def pt_ext_refl)

lemma pt_extD:
  assumes "pt_ext r s s'"
  shows "kmem_ready s'" "pt_ok s' r" "kmem_only s s'"
    and "path_ok q \<Longrightarrow> tblat (qld s) r q = Some u \<Longrightarrow> tblat (qld s') r q = Some u"
    and "avail s' \<subseteq> avail s" "tables (qld s') r \<subseteq> tables (qld s) r \<union> (avail s - avail s')"
    and "p \<notin> avail s - avail s' \<Longrightarrow> refs s' p = refs s p"
    and "(\<And>u. u \<in> tables (qld s') r \<Longrightarrow> \<not> unat (x - u) < 4096) \<Longrightarrow> pmem s' x = pmem s x"
  using assms by (simp_all add: pt_ext_def)

lemma pt_grownD:
  assumes "pt_grown r s s'"
  shows "pt_ext r s s'" "kmem_ready s'" "pt_ok s' r" "avail s' \<subseteq> avail s" "pteof s' r va = pteof s r va"
  using assms by (simp_all add: pt_grown_def pt_ext_def pteof_def)

lemma tables_mono: "pt_ext r s s' \<Longrightarrow> tables (qld s) r \<subseteq> tables (qld s') r"
  by (auto simp: tables_def dest: pt_extD(4))

lemma pt_ext_trans:
  assumes a: "pt_ext r s s'" and b: "pt_ext r s' s''"
  shows "pt_ext r s s''"
  unfolding pt_ext_def
proof (intro conjI allI impI)
  show "kmem_ready s''" "pt_ok s'' r" using pt_extD [OF b] by blast+
  show "kmem_only s s''" using kmem_only_trans pt_extD(3) [OF a] pt_extD(3) [OF b] by blast
  show "avail s'' \<subseteq> avail s" using pt_extD(5) [OF a] pt_extD(5) [OF b] by blast
  show "tables (qld s'') r \<subseteq> tables (qld s) r \<union> (avail s - avail s'')"
    using pt_extD(5,6) [OF a] pt_extD(5,6) [OF b] by blast
  show "refs s'' p = refs s p" if "p \<notin> avail s - avail s''" for p
  proof -
    have "p \<notin> avail s - avail s'" "p \<notin> avail s' - avail s''"
      using that pt_extD(5) [OF a] pt_extD(5) [OF b] by blast+
    then show ?thesis using pt_extD(7) [OF a] pt_extD(7) [OF b] by simp
  qed
  show "pmem s'' x = pmem s x" if "\<forall>u \<in> tables (qld s'') r. \<not> unat (x - u) < 4096" for x
    using pt_extD(8) [OF a, of x] pt_extD(8) [OF b, of x] that tables_mono [OF b] by auto
qed (use pt_extD(4) [OF a] pt_extD(4) [OF b] in auto)

lemma pt_grown_trans: "pt_grown r s s' \<Longrightarrow> pt_grown r s' s'' \<Longrightarrow> pt_grown r s s''"
  using pt_ext_trans [of r s s' s''] by (simp add: pt_grown_def)

lemma mem_cong_refs: "refs (s\<lparr>pmem := m\<rparr>) = refs s" "avail (s\<lparr>pmem := m\<rparr>) = avail s"
  "kmem_ready (s\<lparr>pmem := m\<rparr>) = kmem_ready s"
  by (rule refs_cong, simp) (simp_all add: avail_def kmem_ready_def kmem_wf_def)

lemma page_of_ent:
  assumes "i < 512" "k < 8"
  shows "unat (ent t i + of_nat k - t) < 4096"
proof -
  have "ent t i + of_nat k - t = of_nat (8 * i + k)" by (simp add: ent_def)
  moreover have "unat (of_nat (8 * i + k) :: u64) = 8 * i + k"
    using assms by (intro unat_of_nat64) simp
  ultimately have "unat (ent t i + of_nat k - t) = 8 * i + k" by (simp only:)
  with assms show ?thesis by simp
qed

lemma wr64_outside:
  assumes "i < 512" "\<not> unat (x - t) < 4096"
  shows "wr64 m (ent t i) v x = m x"
proof -
  have "\<not> unat (x - ent t i) < 8"
  proof
    assume k: "unat (x - ent t i) < 8"
    have "x = ent t i + of_nat (unat (x - ent t i))" by simp
    then show False using page_of_ent [OF assms(1) k, of t] assms(2) by simp
  qed
  then show ?thesis by (simp add: wr64_def)
qed

lemma memset0_page: "memset m a 0 4096 = mem_fill m a 4096 0"
  using memset_fill [of 4096 m a 0] by simp

lemma walk_level_grows:
  assumes s: "kmem_ready s" "pt_ok s r" and p: "path_ok (p @ [i])" "tblat (qld s) r p = Some t"
  shows "\<exists>x s'. walk_level (ent t i) al s = Inr (x, s') \<and> pt_grown r s s' \<and>
    (al = 0 \<longrightarrow> s' = s) \<and> x = tblat (qld s') r (p @ [i]) \<and> (x = None \<longrightarrow> al = 0 \<or> avail s = {}) \<and>
    card (avail s) \<le> Suc (card (avail s'))"
proof (cases "qld s (ent t i) AND PTE_P \<noteq> 0")
  case True
  then show ?thesis
    using p(2) pt_grown_refl [OF s] by (simp add: walk_level_def tblat_snoc)
next
  case False
  then have none: "tblat (qld s) r (p @ [i]) = None" using p(2) by (simp add: tblat_snoc)
  show ?thesis
  proof (cases "al = 0")
    case True
    with False none show ?thesis using pt_grown_refl [OF s] by (simp add: walk_level_def)
  next
    case al: False
    obtain n s1 where k: "kalloc s = Inr (n, s1)" using kmem.alloc_returns [OF s(1)] by blast
    have s1: "kmem_ready s1" "pmem s1 = pmem s"
      using kalloc_ready [OF s(1) k] kalloc_memory [OF s(1) k] by auto
    have ko: "kmem_only s s1"
      using s(1) k by (cases rule: kalloc_cases)
        (simp_all add: kmem_only_def kalloc_none_def kalloc_took_def cm_upd_def)
    show ?thesis
    proof (cases "n = 0")
      case True
      then have e: "avail s = {}" "avail s1 = {}" "refs s1 = refs s"
        using kmem.alloc_null [OF s(1)] k by auto
      then have "pt_grown r s s1" using s(2) s1 ko by (simp add: pt_grown_def pt_ext_def pt_ok_def)
      with True False none al k e s1 show ?thesis by (simp add: walk_level_def)
    next
      case n: False
      note pg = kmem.alloc_page [OF s(1) k n]
      have nfree: "n \<in> avail s" "page_aligned n" "refs s n = 0"
        using pg kmem.free_unreferenced [OF s(1)] by auto
      obtain j where j: "n = page_va j" "j < 2 ^ 40"
        using s(1) k
      proof (cases rule: kalloc_cases)
        case (took j)
        then have "j < 2 ^ 40" using kmem_wf_len(1) [of s j] s(1) by (simp add: kmem_ready_def)
        with took that show thesis by blast
      qed (use n in simp)
      define e where "e = V2P n OR PTE_P OR PTE_W OR PTE_U"
      have e: "e AND PTE_P \<noteq> 0" "P2V (PTE_ADDR e) = n"
        using table_entry(2,1) [OF j(2)] unfolding e_def j(1) .
      define m where "m = wr64 (mem_fill (pmem s) n 4096 0) (ent t i) e"
      define s' where "s' = s1\<lparr>pmem := m\<rparr>"
      have run: "walk_level (ent t i) al s = Inr (Some n, s')"
        using False al k n s1(2)
        by (simp add: walk_level_def memset0_page Let_def s'_def m_def e_def)
      have tree: "pt_tree (qld s) r" and ref: "\<And>u. u \<in> tables (qld s) r \<Longrightarrow> 0 < refs s u"
        using s(2) by (auto simp: pt_ok_def)
      have nt: "n \<notin> tables (qld s) r" using ref nfree(3) by force
      have t: "t \<in> tables (qld s) r" "i < 512" using tablesI p by auto
      have hook: "hooked (qld s) (rd64 m) r t i n"
        unfolding m_def by (rule bytes.store_clear_hooked [OF tree t nt nfree(2) e])
      note empty = False [unfolded not_not]
      note ht = hook_tree [OF tree p empty hook nt nfree(2)] and hb = tblat_hook [OF tree p empty hook]
      have frame: "pmem s' x = pmem s x" if "\<forall>u \<in> tables (rd64 m) r. \<not> unat (x - u) < 4096" for x
        using that t ht(2) by (simp add: s'_def m_def wr64_outside mem_fill_def)
      have "pt_ok s' r"
        using ht(1) ref pg by (auto simp: pt_ok_def s'_def ht(2) mem_cong_refs)
      moreover have "kmem_only s s'" 
        unfolding s'_def by (rule kmem_onlyE [OF ko]) (simp add: kmem_only_def)
      moreover have "tblat (qld s) r q = Some u \<Longrightarrow> path_ok q \<Longrightarrow> tblat (qld s') r q = Some u" for q u
        using hb [of q] none by (auto simp: s'_def)
      ultimately have "pt_grown r s s'"
        using s1(1) pg ht(2,3) frame nfree(1) unfolding pt_grown_def pt_ext_def
        by (auto simp: s'_def mem_cong_refs)
      moreover have "tblat (qld s') r (p @ [i]) = Some n" using hb [OF p(1)] by (simp add: s'_def)
      moreover have "card (avail s) \<le> Suc (card (avail s'))"
        using pg by (simp add: s'_def mem_cong_refs card_Diff_singleton)
      ultimately show ?thesis using run al by simp
    qed
  qed
qed

section \<open>A whole walk\<close>

definition slot_addr :: "'a kmem_state_scheme \<Rightarrow> u64 \<Rightarrow> u64 \<Rightarrow> u64" where
  "slot_addr s r va = (case tblat (qld s) r (vpath va) of None \<Rightarrow> 0 | Some u \<Rightarrow> ent u (PT_INDEX va))"

lemma walkpml4_grows:
  assumes s: "kmem_ready s" "pt_ok s r"
  shows "\<exists>s'. walkpml4 r va al s = Inr (slot_addr s' r va, s') \<and> pt_grown r s s' \<and>
    (al = 0 \<longrightarrow> s' = s) \<and> (tblat (qld s') r (vpath va) = None \<longrightarrow> al = 0 \<or> avail s' = {}) \<and>
    card (avail s) \<le> card (avail s') + 3"
proof -
  let ?a = "PML4_INDEX va" and ?b = "PDPT_INDEX va" and ?c = "PD_INDEX va"
  have ok: "path_ok ([] @ [?a])" "path_ok ([?a] @ [?b])" "path_ok ([?a, ?b] @ [?c])"
    by (simp_all add: path_ok_def)
  obtain x1 s1 where l1: "walk_level (ent r ?a) al s = Inr (x1, s1)" "pt_grown r s s1"
      "al = 0 \<longrightarrow> s1 = s" "x1 = tblat (qld s1) r [?a]" "x1 = None \<longrightarrow> al = 0 \<or> avail s = {}"
      "card (avail s) \<le> Suc (card (avail s1))"
    using walk_level_grows [OF s ok(1), of r al] by auto
  note g1 = pt_grownD [OF l1(2)]
  have stop: "tblat ld r (p @ q) = None" if "tblat ld r p = None" for ld p q
    using that by (simp add: tblat_append)
  show ?thesis
  proof (cases x1)
    case None
    have "tblat (qld s1) r (vpath va) = None"
      using stop [of "qld s1" "[?a]" "[?b, ?c]"] None l1(4) by (simp add: vpath_def)
    with None l1 g1(4) show ?thesis by (auto simp: walkpml4_def slot_addr_def)
  next
    case (Some t1)
    obtain x2 s2 where l2: "walk_level (ent t1 ?b) al s1 = Inr (x2, s2)" "pt_grown r s1 s2"
        "al = 0 \<longrightarrow> s2 = s1" "x2 = tblat (qld s2) r [?a, ?b]" "x2 = None \<longrightarrow> al = 0 \<or> avail s1 = {}"
      "card (avail s1) \<le> Suc (card (avail s2))"
      using walk_level_grows [OF g1(2,3) ok(2), of t1 al] Some l1(4) by auto
    note g2 = pt_grownD [OF l2(2)]
    note g12 = pt_grown_trans [OF l1(2) l2(2)]
    show ?thesis
    proof (cases x2)
      case None
      have "tblat (qld s2) r (vpath va) = None"
        using stop [of "qld s2" "[?a, ?b]" "[?c]"] None l2(4) by (simp add: vpath_def)
      with None Some l1 l2 g2(4) g12 show ?thesis by (auto simp: walkpml4_def slot_addr_def)
    next
      case (Some t2)
      obtain x3 s3 where l3: "walk_level (ent t2 ?c) al s2 = Inr (x3, s3)" "pt_grown r s2 s3"
          "al = 0 \<longrightarrow> s3 = s2" "x3 = tblat (qld s3) r (vpath va)"
          "x3 = None \<longrightarrow> al = 0 \<or> avail s2 = {}"
      "card (avail s2) \<le> Suc (card (avail s3))"
        using walk_level_grows [OF g2(2,3) ok(3), of t2 al] Some l2(4) by (auto simp: vpath_def)
      note g3 = pt_grownD(4) [OF l3(2)]
      show ?thesis
        using Some \<open>x1 = Some t1\<close> l1 l2 l3 g3 pt_grown_trans [OF g12 l3(2)]
        by (auto simp: walkpml4_def slot_addr_def split: option.split)
    qed
  qed
qed

lemma slot_addr_eq_0:
  assumes "kmem_ready s" "pt_ok s r"
  shows "slot_addr s r va = 0 \<longleftrightarrow> tblat (qld s) r (vpath va) = None"
proof (cases "tblat (qld s) r (vpath va)")
  case (Some u)
  then have u: "u \<in> tables (qld s) r" by (intro tablesI) simp_all
  then have ref: "0 < refs s u" and al: "page_aligned u"
    using assms(2) pt_treeD(1) by (auto simp: pt_ok_def)
  have "u \<noteq> 0"
    by (rule refs_pos [OF ref]) (use assms(1) in \<open>auto simp: kmem_ready_def dest: kmem_wf_len(1) page_va_nonnull\<close>)
  then have "0 < unat u" by (simp add: unat_gt_0)
  then have "0 < unat (ent u (PT_INDEX va))" using al by (simp add: unat_ent)
  then show ?thesis using Some by (auto simp: slot_addr_def)
qed (simp add: slot_addr_def)

text \<open>Without \<open>alloc\<close> a walk only reads.\<close>

lemma walkpml4_lookup:
  assumes "kmem_ready s" "pt_ok s r"
  shows "walkpml4 r va 0 s = Inr (slot_addr s r va, s)"
  using walkpml4_grows [OF assms, of va 0] by auto

lemma slot_addr_load:
  assumes "kmem_ready s" "pt_ok s r" "slot_addr s r va \<noteq> 0"
  shows "qld s (slot_addr s r va) = pteof s r va"
  using assms by (auto simp: slot_addr_def pteof_def pte_at_def split: option.splits)

lemma slot_missing:
  assumes "kmem_ready s" "pt_ok s r" "slot_addr s r va = 0"
  shows "pteof s r va = 0"
  using assms slot_addr_eq_0 [OF assms(1,2)] by (simp add: pteof_def pte_at_def)

end
