(* ===== verification/Paging_Map.thy ===== *)
theory Paging_Map
  imports Paging
begin

text \<open>
  What \<open>mappages\<close> and \<open>setupkvm\<close> of kernel/x86_64vm.c do to the abstract page table: the arithmetic
  of slots (which virtual addresses share a page-table entry), the effect of setting one entry,
  and the mapping that results from a whole range.
\<close>

section \<open>Slots\<close>

lemma index_take_bit: "unat (x AND 511 :: u64) = unat (take_bit 9 x)"
  by (simp add: take_bit_eq_mask mask_eq_exp_minus_1)

lemma take36_split:
  fixes x y :: u64
  shows "take_bit 36 x = take_bit 36 y \<longleftrightarrow> take_bit 9 x = take_bit 9 y \<and>
    take_bit 9 (drop_bit 9 x) = take_bit 9 (drop_bit 9 y) \<and>
    take_bit 9 (drop_bit 18 x) = take_bit 9 (drop_bit 18 y) \<and>
    take_bit 9 (drop_bit 27 x) = take_bit 9 (drop_bit 27 y)" (is "?l \<longleftrightarrow> ?r")
proof
  assume ?l
  then have *: "bit x n = bit y n" if "n < 36" for n
    using that by (metis bit_take_bit_iff)
  show ?r by (intro conjI; rule bit_word_eqI) (auto simp: bit_simps *)
next
  assume r: ?r
  have part: "bit x (d + n) = bit y (d + n)"
    if "take_bit 9 (drop_bit d x) = take_bit 9 (drop_bit d y)" "n < 9" for d n
    using arg_cong [OF that(1), of "\<lambda>w. bit w n"] that(2) by (simp add: bit_simps)
  show ?l
  proof (rule bit_word_eqI)
    fix n :: nat
    consider "n < 9" | "9 \<le> n" "n < 18" | "18 \<le> n" "n < 27" | "27 \<le> n" "n < 36" | "36 \<le> n" by linarith
    then have "n < 36 \<longrightarrow> bit x n = bit y n"
      using part [of 0 n] part [of 9 "n - 9"] part [of 18 "n - 18"] part [of 27 "n - 27"] r
      by cases auto
    then show "bit (take_bit 36 x) n = bit (take_bit 36 y) n" by (auto simp: bit_take_bit_iff)
  qed
qed

text \<open>How far the page of \<open>va\<close> is above page number \<open>v\<close>, among the \<open>2 ^ 36\<close> pages a tree maps.\<close>

definition pg_off :: "u64 \<Rightarrow> u64 \<Rightarrow> nat" where
  "pg_off va v = unat (PGNUM va - v) mod 2 ^ 36"

lemma same_slot:
  "vpath va = vpath va' \<and> PT_INDEX va = PT_INDEX va' \<longleftrightarrow>
     take_bit 36 (PGNUM va) = take_bit 36 (PGNUM va')"
  unfolding vpath_def PML4_INDEX_def PDPT_INDEX_def PD_INDEX_def PT_INDEX_def PGNUM_def
    index_take_bit take36_split
  by (auto simp: word_unat_eq_iff)

lemma take36_diff: "take_bit 36 (x :: u64) = take_bit 36 y \<longleftrightarrow> unat (x - y) mod 2 ^ 36 = 0"
proof -
  have "uint (x - y) mod 2 ^ 36 = (uint x - uint y) mod 2 ^ 64 mod 2 ^ 36"
    by (simp add: uint_word_ariths)
  also have "\<dots> = (uint x - uint y) mod 2 ^ 36" by (simp add: mod_mod_cancel)
  finally have m: "uint (x - y) mod 2 ^ 36 = (uint x - uint y) mod 2 ^ 36" .
  have "uint (x - y) mod 2 ^ 36 = 0 \<longleftrightarrow> uint x mod 2 ^ 36 = uint y mod 2 ^ 36"
    unfolding m by (simp only: mod_eq_dvd_iff dvd_eq_mod_eq_0)
  moreover have "uint (x - y) mod 2 ^ 36 = int (unat (x - y) mod 2 ^ 36)"
    by (simp add: of_nat_mod)
  moreover have "take_bit 36 x = take_bit 36 y \<longleftrightarrow> uint x mod 2 ^ 36 = uint y mod 2 ^ 36"
    unfolding word_uint_eq_iff unsigned_take_bit_eq by (simp only: take_bit_eq_mod)
  ultimately show ?thesis by simp
qed

lemma same_slot_pg_off:
  "vpath va' = vpath (push_bit 12 v) \<and> PT_INDEX va' = PT_INDEX (push_bit 12 v) \<longleftrightarrow> pg_off va' v = 0"
proof -
  have "take_bit 36 (PGNUM (push_bit 12 v)) = take_bit 36 v"
    unfolding PGNUM_def by (rule bit_word_eqI) (auto simp: bit_simps)
  then show ?thesis unfolding same_slot pg_off_def take36_diff [symmetric] by simp
qed

lemma pg_off_next: "pg_off va (v + 1) = (if pg_off va v = 0 then 2 ^ 36 - 1 else pg_off va v - 1)"
proof -
  define y where "y = PGNUM va - (v + 1)"
  have "PGNUM va - v = y + 1" by (simp add: y_def)
  then have "pg_off va v = (unat y + 1) mod 2 ^ 64 mod 2 ^ 36"
    by (simp add: pg_off_def unat_word_ariths)
  also have "\<dots> = Suc (unat y) mod 2 ^ 36" by (simp add: mod_mod_cancel)
  finally have "pg_off va v = (if Suc (unat y mod 2 ^ 36) = 2 ^ 36 then 0 else Suc (unat y mod 2 ^ 36))"
    by (simp only: mod_Suc)
  moreover have "pg_off va (v + 1) = unat y mod 2 ^ 36" by (simp add: pg_off_def y_def)
  ultimately show ?thesis by (auto split: if_splits)
qed

section \<open>Setting an entry\<close>

lemma set_pte:
  assumes s: "kmem_ready s" "pt_ok s r" and slot: "slot_addr s r va \<noteq> 0"
    and s'_def: "s' = s\<lparr>pmem := wr64 (pmem s) (slot_addr s r va) v\<rparr>"
  shows "pt_ext r s s'"
    and "pteof s' r va' =
      (if vpath va' = vpath va \<and> PT_INDEX va' = PT_INDEX va then v else pteof s r va')"
    and "tables (qld s') r = tables (qld s) r"
proof -
  obtain u where u: "tblat (qld s) r (vpath va) = Some u"
    using slot slot_addr_eq_0 [OF s] by auto
  then have sa: "slot_addr s r va = ent u (PT_INDEX va)" by (simp add: slot_addr_def)
  have tree: "pt_tree (qld s) r" and ref: "\<And>w. w \<in> tables (qld s) r \<Longrightarrow> 0 < refs s w"
    using s(2) by (auto simp: pt_ok_def)
  have ut: "u \<in> tables (qld s) r" using u by (intro tablesI) simp_all
  have same: "qld s' (ent w k) = qld s (ent w k)"
    if "w \<in> tables (qld s) r" "k < 512" "(w, k) \<noteq> (u, PT_INDEX va)" for w k
    unfolding s'_def sa using that pt_treeD(1) [OF tree] ut by (simp add: bytes.store_ent)
  note lw = leaf_write [OF tree vpath_ok u same]
  have "qld s' (ent u (PT_INDEX va)) = v" by (simp add: s'_def sa)
  then show "pteof s' r va' =
      (if vpath va' = vpath va \<and> PT_INDEX va' = PT_INDEX va then v else pteof s r va')"
    unfolding pteof_def using lw(4) [where p = "vpath va'" and k = "PT_INDEX va'"] by simp
  show tb: "tables (qld s') r = tables (qld s) r" using lw(3) by simp
  have "pmem s' x = pmem s x" if "\<forall>w \<in> tables (qld s) r. \<not> unat (x - w) < 4096" for x
    using that ut by (simp add: s'_def sa wr64_outside)
  moreover have "pt_ok s' r" using lw(2) tb ref by (simp add: pt_ok_def s'_def mem_cong_refs)
  ultimately show "pt_ext r s s'"
    using s(1) lw(1) tb
    by (simp add: pt_ext_def) (simp add: s'_def mem_cong_refs kmem_only_def)
qed

lemma mark_user_ext:
  assumes s: "kmem_ready s" "pt_ok s r" and m: "mark_user_mem pa va s = Inr s'"
  shows "pt_ext r s s'" "pmem s' = pmem s" "avail s' = avail s"
proof -
  obtain i where i: "i < length (core_map s)"
      "s' = cm_upd i (\<lambda>e. e\<lparr>user := 1, cm_va := va\<rparr>) s"
    using m by (auto simp: mark_user_mem_def bindr_iff)
  have wf: "kmem_wf s" using s(1) by (simp add: kmem_ready_def)
  have "kmem_wf s'" unfolding i(2) using wf i(1) by (intro cm_upd_wf) (auto simp: kmem_wf_def)
  moreover show "avail s' = avail s"
  proof -
    have "available (core_map s ! i) = 1 \<longleftrightarrow> page_va i \<in> avail s"
      using i(1) kmem_wf_len(2) [OF wf] page2pa_inject by (auto simp: avail_def)
    then show ?thesis unfolding i(2) cm_upd_avail [OF wf i(1)] by auto
  qed
  moreover have "refs s' = refs s"
    unfolding i(2) cm_upd_refs [OF wf i(1)] by (auto simp: refs_page_va [OF wf i(1)])
  moreover show "pmem s' = pmem s" by (simp add: i(2))
  moreover have "kmem_only s s'" by (simp add: i(2) cm_upd_def kmem_only_def)
  moreover have "held s' = held s" by (simp add: i(2))
  ultimately show "pt_ext r s s'" using s by (simp add: pt_ext_def pt_ok_def kmem_ready_def)
qed

section \<open>mappages\<close>

lemma mappages_maps:
  assumes "kmem_ready s" "pt_ok s r" "n \<le> 2 ^ 36"
    and "mappages r v n ppn perm kern s = Inr (rc, s')"
  shows "rc = 0 \<and> pt_ext r s s' \<and> (\<forall>va. pteof s' r va =
     (if pg_off va v < n then push_bit 12 (ppn + of_nat (pg_off va v)) OR perm else pteof s r va)) \<and>
     (\<forall>va. pg_off va v < n \<longrightarrow> pteof s r va AND PTE_P = 0)"
  using assms
proof (induction n arbitrary: v ppn s)
  case 0
  then show ?case by (simp add: pt_ext_refl)
next
  case (Suc n)
  let ?va = "push_bit 12 v"
  obtain s1 where w: "walkpml4 r ?va 1 s = Inr (slot_addr s1 r ?va, s1)" "pt_grown r s s1"
    using walkpml4_grows [OF Suc.prems(1,2), of ?va 1] by auto
  note g = pt_grownD [OF w(2)]
  define s2 where "s2 = s1\<lparr>pmem := wr64 (pmem s1) (slot_addr s1 r ?va) (push_bit 12 ppn OR perm)\<rparr>"
  obtain s3 where slot: "slot_addr s1 r ?va \<noteq> 0" and free: "qld s1 (slot_addr s1 r ?va) AND PTE_P = 0"
    and s3: "(if kern = 0 then mark_user_mem (push_bit 12 ppn) ?va s2 else Inr s2) = Inr s3"
    and rest: "mappages r (v + 1) n (ppn + 1) perm kern s3 = Inr (rc, s')"
    using Suc.prems(4)
    by (simp add: w(1) Let_def s2_def [symmetric] split: if_splits) (auto simp: bindr_iff)
  note set = set_pte [OF g(2,3) slot s2_def]
  have e3: "pt_ext r s2 s3" "pmem s3 = pmem s2"
    using s3 mark_user_ext pt_extD(1,2) [OF set(1)] by (auto intro: pt_ext_refl split: if_splits)
  have IH: "rc = 0 \<and> pt_ext r s3 s' \<and> (\<forall>va. pteof s' r va =
     (if pg_off va (v + 1) < n then push_bit 12 (ppn + 1 + of_nat (pg_off va (v + 1))) OR perm
      else pteof s3 r va)) \<and> (\<forall>va. pg_off va (v + 1) < n \<longrightarrow> pteof s3 r va AND PTE_P = 0)"
    using Suc.prems(3) by (intro Suc.IH pt_extD(1,2) [OF e3(1)] rest) simp
  have ext: "pt_ext r s s'"
    using pt_ext_trans [OF pt_ext_trans [OF pt_ext_trans [OF g(1) set(1)] e3(1)]] IH by simp
  have here: "pteof s r va = pteof s r ?va" if "pg_off va v = 0" for va
    using that same_slot_pg_off [of va v] by (simp add: pteof_def)
  have "pteof s' r va = (if pg_off va v < Suc n then push_bit 12 (ppn + of_nat (pg_off va v)) OR perm
      else pteof s r va) \<and> (pg_off va v < Suc n \<longrightarrow> pteof s r va AND PTE_P = 0)" for va
  proof -
    have m: "pteof s' r va = (if pg_off va (v + 1) < n
        then push_bit 12 (ppn + 1 + of_nat (pg_off va (v + 1))) OR perm else pteof s3 r va)"
      and f: "pg_off va (v + 1) < n \<Longrightarrow> pteof s3 r va AND PTE_P = 0"
      using IH by blast+
    have c: "pteof s3 r va = pteof s2 r va" by (simp add: pteof_def e3(2))
    show ?thesis
    proof (cases "pg_off va v = 0")
      case True
      then have a: "pteof s2 r va = push_bit 12 ppn OR perm" using set(2) same_slot_pg_off by simp
      have b: "\<not> pg_off va (v + 1) < n" using True Suc.prems(3) by (simp add: pg_off_next)
      have "pteof s r va AND PTE_P = 0"
        unfolding here [OF True] using free slot_addr_load [OF g(2,3) slot] g(5) by metis
      then show ?thesis using m b c a True by simp
    next
      case False
      then have "pteof s2 r va = pteof s r va" using set(2) same_slot_pg_off g(5) by simp
      moreover have "pg_off va v = Suc (pg_off va (v + 1))" using False by (simp add: pg_off_next)
      ultimately show ?thesis using m f c by (simp add: add.assoc)
    qed
  qed
  with ext IH show ?case by blast
qed

text \<open>The only ways in which \<open>mappages\<close> stops.\<close>

lemma mark_user_stop:
  assumes "kmem_wf s" "mark_user_mem pa va s = Inl e"
  shows "e = Panic ''pa2page called with invalid pa''"
proof (cases "pa2page pa s")
  case (Inl x)
  then show ?thesis using assms(2) by (auto simp: mark_user_mem_def pa2page_def split: if_splits)
next
  case (Inr i)
  have "unat (word_of_int (npages s) :: u64) = nat (npages s)"
    using assms(1) by (intro unat_of_int64) (auto simp: kmem_wf_def)
  then have "i < length (core_map s)"
    using Inr assms(1) by (auto simp: pa2page_def kmem_wf_def word_le_nat_alt split: if_splits)
  then show ?thesis using Inr assms(2) by (simp add: mark_user_mem_def)
qed

lemma mappages_stops:
  assumes "kmem_ready s" "pt_ok s r" "n \<le> 2 ^ 36" "mappages r v n ppn perm kern s = Inl e"
  shows "e = Panic ''not enough memory'' \<and> card (avail s) \<le> 3 * n \<or>
    e = Panic ''remap'' \<and> (\<exists>va. pg_off va v < n \<and> pteof s r va AND PTE_P \<noteq> 0) \<or>
    e = Panic ''pa2page called with invalid pa'' \<and> kern = 0"
  using assms
proof (induction n arbitrary: v ppn s)
  case (Suc n)
  let ?va = "push_bit 12 v"
  obtain s1 where w: "walkpml4 r ?va 1 s = Inr (slot_addr s1 r ?va, s1)" "pt_grown r s s1"
      "tblat (qld s1) r (vpath ?va) = None \<longrightarrow> avail s1 = {}" "card (avail s) \<le> card (avail s1) + 3"
    using walkpml4_grows [OF Suc.prems(1,2), of ?va 1] by auto
  note g = pt_grownD [OF w(2)]
  have off0: "pg_off ?va v = 0" using same_slot_pg_off [of ?va v] by simp
  define s2 where "s2 = s1\<lparr>pmem := wr64 (pmem s1) (slot_addr s1 r ?va) (push_bit 12 ppn OR perm)\<rparr>"
  define mk where "mk = (if kern = 0 then mark_user_mem (push_bit 12 ppn) ?va s2 else Inr s2)"
  consider (nomem) "slot_addr s1 r ?va = 0" | (remap) "slot_addr s1 r ?va \<noteq> 0" "qld s1 (slot_addr s1 r ?va) AND PTE_P \<noteq> 0"
    | (go) "slot_addr s1 r ?va \<noteq> 0" "bindr mk (mappages r (v + 1) n (ppn + 1) perm kern) = Inl e"
    using Suc.prems(4) by (auto simp: w(1) Let_def s2_def [symmetric] mk_def split: if_splits)
  then show ?case
  proof cases
    case nomem
    then have "avail s1 = {}" using w(3) slot_addr_eq_0 [OF g(2,3)] by simp
    then show ?thesis using nomem Suc.prems(4) w(4) by (simp add: w(1))
  next
    case remap
    then have "pteof s r ?va AND PTE_P \<noteq> 0" using slot_addr_load [OF g(2,3)] g(5) by simp
    moreover have "e = Panic ''remap''" using Suc.prems(4) remap by (simp add: w(1))
    ultimately show ?thesis using off0 by (metis zero_less_Suc)
  next
    case go
    note set = set_pte [OF g(2,3) go(1) s2_def]
    note ok2 = pt_extD(1,2) [OF set(1)]
    show ?thesis
    proof (cases mk)
      case (Inl x)
      then show ?thesis
        using go(2) mark_user_stop [of s2] ok2(1) by (auto simp: mk_def kmem_ready_def split: if_splits)
    next
      case (Inr s3)
      have "avail s2 = avail s1" by (simp add: s2_def mem_cong_refs)
      then have e3: "pt_ext r s2 s3" "pmem s3 = pmem s2" and av: "avail s3 = avail s1"
        using Inr mark_user_ext [OF ok2] pt_ext_refl [OF ok2] by (auto simp: mk_def split: if_splits)
      have "e = Panic ''not enough memory'' \<and> card (avail s3) \<le> 3 * n \<or>
          e = Panic ''remap'' \<and> (\<exists>va. pg_off va (v + 1) < n \<and> pteof s3 r va AND PTE_P \<noteq> 0) \<or>
          e = Panic ''pa2page called with invalid pa'' \<and> kern = 0"
        using Suc.prems(3) go(2) Inr by (intro Suc.IH pt_extD(1,2) [OF e3(1)]) simp_all
      moreover have "pg_off va v < Suc n \<and> pteof s r va = pteof s3 r va" if "pg_off va (v + 1) < n" for va
        using that Suc.prems(3) set(2) [of va] same_slot_pg_off [of va v] e3(2) g(5)
        by (auto simp: pg_off_next pteof_def split: if_splits)
      moreover have "card (avail s) \<le> 3 * Suc n" if "card (avail s3) \<le> 3 * n"
        using that w(4) av by simp
      ultimately show ?thesis by (elim disjE conjE exE) (simp, force, simp)
    qed
  qed
qed simp

section \<open>The kernel's part of an address space\<close>

lemma fresh_root:
  assumes s: "kmem_ready s" and k: "kalloc s = Inr (r, s1)" "r \<noteq> 0"
    and s2_def: "s2 = s1\<lparr>pmem := mem_fill (pmem s1) r 4096 0\<rparr>"
  shows "kmem_ready s2" "pt_ok s2 r" "pteof s2 r va = 0" "tables (qld s2) r = {r}"
proof -
  note pg = kmem.alloc_page [OF s k]
  have r: "page_aligned r" using pg kmem.free_unreferenced [OF s] by blast
  show "kmem_ready s2" using kalloc_ready [OF s k(1)] by (simp add: s2_def mem_cong_refs)
  have zero: "qld s2 (ent r i) = 0" if "i < 512" for i
    using bytes.clear_ent [OF r r that, of "pmem s1"] by (simp add: s2_def)
  have sub: "tblat (qld s2) r p = (if p = [] then Some r else None)" if "path_ok p" for p
    using that zero by (cases p) (auto simp: path_ok_def)
  have "u = r" if "u \<in> tables (qld s2) r" for u
    using that sub by (auto simp: tables_def split: if_splits)
  then show tb: "tables (qld s2) r = {r}" by auto
  have "pt_tree (qld s2) r" unfolding pt_tree_def tb using r sub by (auto split: if_splits)
  then show "pt_ok s2 r" using pg tb by (simp add: pt_ok_def s2_def mem_cong_refs)
  have "vpath va \<noteq> []" by (simp add: vpath_def)
  then show "pteof s2 r va = 0" using sub [of "vpath va"] by (simp add: pteof_def pte_at_def)
qed

lemma page_count_small: "page_count n \<le> 2 ^ 36"
proof -
  have "sint (ucast n :: u32) < 2 ^ 31" using sint_less [of "ucast n :: u32"] by simp
  then have "page_count n < 2 ^ 31" by (simp add: page_count_def)
  then show ?thesis by simp
qed

definition in_kmap :: "u64 \<Rightarrow> kmap \<Rightarrow> bool" where
  "in_kmap va k = (case k of (virt, start, stop, perm) \<Rightarrow>
     pg_off va (drop_bit 12 virt) < page_count (drop_bit 12 (stop - start)))"

definition kmap_pte :: "u64 \<Rightarrow> kmap \<Rightarrow> u64" where
  "kmap_pte va k = (case k of (virt, start, stop, perm) \<Rightarrow>
     push_bit 12 (drop_bit 12 start + of_nat (pg_off va (drop_bit 12 virt))) OR (perm OR PTE_P))"

lemma kmap_pte_present: "kmap_pte va k AND PTE_P \<noteq> 0"
  by (cases k) (simp add: kmap_pte_def and_one_eq odd_iff_mod_2_eq_one [symmetric] even_or_iff)

lemma map_kmap_maps:
  assumes "kmem_ready s" "pt_ok s r" "map_kmap r ks s = Inr (p, s')"
  shows "p = r \<and> pt_ext r s s' \<and> (\<forall>k \<in> set ks. \<forall>va. in_kmap va k \<longrightarrow> pteof s' r va = kmap_pte va k) \<and>
    (\<forall>va. (\<forall>k \<in> set ks. \<not> in_kmap va k) \<longrightarrow> pteof s' r va = pteof s r va) \<and>
    (\<forall>va. pteof s r va AND PTE_P \<noteq> 0 \<longrightarrow> pteof s' r va = pteof s r va)"
  using assms
proof (induction ks arbitrary: s)
  case Nil
  then show ?case by (simp add: pt_ext_refl)
next
  case (Cons k ks)
  obtain virt start stop perm where k: "k = (virt, start, stop, perm)" by (cases k)
  obtain rc s1 where m: "mappages r (drop_bit 12 virt) (page_count (drop_bit 12 (stop - start)))
       (drop_bit 12 start) (perm OR PTE_P) 1 s = Inr (rc, s1)"
    and rest: "(if rc < 0 then Inr (0, s1) else map_kmap r ks s1) = Inr (p, s')"
    using Cons.prems(3) by (auto simp: k bindr_iff)
  note mm = mappages_maps [OF Cons.prems(1,2) page_count_small m]
  have e1: "pt_ext r s s1" using mm by blast
  have at: "pteof s1 r va = (if in_kmap va k then kmap_pte va k else pteof s r va)" for va
    using mm by (simp add: k in_kmap_def kmap_pte_def)
  have free: "pteof s r va AND PTE_P = 0" if "in_kmap va k" for va
    using mm that by (simp add: k in_kmap_def)
  have "map_kmap r ks s1 = Inr (p, s')" using rest mm by simp
  note IH = Cons.IH [OF pt_extD(1,2) [OF e1] this]
  have keep: "pteof s' r va = pteof s1 r va" if "pteof s1 r va AND PTE_P \<noteq> 0" for va
    using IH that by blast
  have "pteof s' r va = kmap_pte va k" if "in_kmap va k" for va
    using keep [of va] at [of va] that kmap_pte_present by simp
  moreover have "pteof s' r va = pteof s r va" if "pteof s r va AND PTE_P \<noteq> 0" for va
    using keep [of va] at [of va] that free by (metis)
  moreover have "pt_ext r s s'" using pt_ext_trans [OF e1] IH by blast
  ultimately show ?case using IH at by auto
qed

text \<open>Every address space starts as the kernel's map and nothing else.\<close>

lemma setupkvm_maps:
  assumes "kmem_ready s" "setupkvm s = Inr (r, s')" "r \<noteq> 0"
  shows "kmem_ready s' \<and> pt_ok s' r \<and> r \<in> avail s \<and>
    (\<forall>k \<in> set (kmap_table s). \<forall>va. in_kmap va k \<longrightarrow> pteof s' r va = kmap_pte va k) \<and>
    (\<forall>va. (\<forall>k \<in> set (kmap_table s). \<not> in_kmap va k) \<longrightarrow> pteof s' r va = 0)"
proof -
  obtain p s1 where k: "kalloc s = Inr (p, s1)"
    and m: "(if p = 0 then Inr (0, s1)
       else map_kmap p (kmap_table s1) (s1\<lparr>pmem := memset (pmem s1) p 0 4096\<rparr>)) = Inr (r, s')"
    using assms(2) by (auto simp: setupkvm_def bindr_iff)
  have p: "p \<noteq> 0" using m assms(3) by (auto split: if_splits)
  define s2 where "s2 = s1\<lparr>pmem := mem_fill (pmem s1) p 4096 0\<rparr>"
  note f = fresh_root [OF assms(1) k p s2_def]
  have "kmap_table s1 = kmap_table s"
    using assms(1) k by (cases rule: kalloc_cases)
      (simp_all add: kalloc_none_def kalloc_took_def cm_upd_def kmap_table_def)
  then have "map_kmap p (kmap_table s) s2 = Inr (r, s')"
    using m p by (simp add: memset0_page s2_def)
  note mm = map_kmap_maps [OF f(1,2) this]
  have "p \<in> avail s" using kmem.alloc_page [OF assms(1) k p] by blast
  then show ?thesis using mm f(3) pt_extD(1,2) [of p s2 s'] by auto
qed

lemma map_kmap_stops:
  assumes "kmem_ready s" "pt_ok s r" "map_kmap r ks s = Inl e"
  shows "e = Panic ''not enough memory'' \<or> e = Panic ''remap''"
  using assms
proof (induction ks arbitrary: s)
  case (Cons k ks)
  obtain virt start stop perm where k: "k = (virt, start, stop, perm)" by (cases k)
  define m where "m = mappages r (drop_bit 12 virt) (page_count (drop_bit 12 (stop - start)))
       (drop_bit 12 start) (perm OR PTE_P) 1 s"
  show ?case
  proof (cases m)
    case (Inl e')
    then have "e = e'" using Cons.prems(3) by (simp add: k m_def [symmetric])
    then show ?thesis
      using mappages_stops [OF Cons.prems(1,2) page_count_small Inl [unfolded m_def]] by auto
  next
    case (Inr x)
    obtain rc s1 where x: "x = (rc, s1)" by (cases x)
    note mm = mappages_maps [OF Cons.prems(1,2) page_count_small Inr [unfolded m_def x]]
    have "map_kmap r ks s1 = Inl e" using Cons.prems(3) Inr x mm by (simp add: k m_def [symmetric])
    then show ?thesis using Cons.IH pt_extD(1,2) mm by blast
  qed
qed simp

section \<open>Properties\<close>

text \<open>
  C1. \<open>mappages\<close> implements the update of an abstract page table. If it returns, it returns 0,
  the tree is still well formed, the \<open>n\<close> pages from \<open>v\<close> on had no present entry and are now
  mapped to the \<open>n\<close> frames from \<open>ppn\<close> on, and the entry of every other page is unchanged. It
  stops only in three ways: out of memory, and then at most three pages per mapped page were
  available; on a page that is already mapped; or, for user memory, on a frame beyond the end
  of memory.
\<close>

theorem mappages_correct:
  assumes "kmem_ready s" "pt_ok s r" "n \<le> 2 ^ 36"
  shows "case mappages r v n ppn perm kern s of
      Inr (rc, s') \<Rightarrow> rc = 0 \<and> kmem_ready s' \<and> pt_ok s' r \<and>
        (\<forall>va. pteof s' r va =
          (if pg_off va v < n then push_bit 12 (ppn + of_nat (pg_off va v)) OR perm
           else pteof s r va)) \<and>
        (\<forall>va. pg_off va v < n \<longrightarrow> pteof s r va AND PTE_P = 0)
    | Inl e \<Rightarrow> e = Panic ''not enough memory'' \<and> card (avail s) \<le> 3 * n \<or>
        e = Panic ''remap'' \<and> (\<exists>va. pg_off va v < n \<and> pteof s r va AND PTE_P \<noteq> 0) \<or>
        e = Panic ''pa2page called with invalid pa'' \<and> kern = 0"
proof (cases "mappages r v n ppn perm kern s")
  case (Inl e)
  from mappages_stops [OF assms Inl] Inl show ?thesis by simp
next
  case (Inr x)
  obtain rc s' where x: "x = (rc, s')" by (cases x)
  from mappages_maps [OF assms Inr [unfolded x]] Inr x show ?thesis
    using pt_extD(1,2) [of r s s'] by auto
qed


text \<open>
  C22. \<open>uva2ka\<close> translates a user address exactly when its page is present and accessible to
  user code, returns null when it is mapped otherwise, and follows a null pointer when the
  last-level table of the address does not exist.
\<close>

theorem uva2ka_translates:
  assumes "kmem_ready s" "pt_ok s r"
  shows "uva2ka r va s =
    (if slot_addr s r va = 0 then Inl (Fault ''null pointer'')
     else if pteof s r va AND PTE_P \<noteq> 0 \<and> pteof s r va AND PTE_U \<noteq> 0
       then Inr (P2V (PTE_ADDR (pteof s r va)), s)
     else Inr (0, s))"
  using assms slot_addr_load [OF assms]
  by (simp add: uva2ka_def walkpml4_lookup ld_ptr_def)

section \<open>Witnesses\<close>

text \<open>A machine with eight available pages.\<close>

definition eight_pages :: kmem_state where
  "eight_pages = two_pages\<lparr>core_map := replicate 8 \<lparr>available = 1, user = 0, cm_va = 0, ref = 0\<rparr>,
     npages := 8\<rparr>"

lemma eight_pages_ready: "kmem_ready eight_pages"
proof -
  have "KBASE \<le> page_va i" if "i < 8" for i
    using that by (intro page_va_base) simp
  then show ?thesis by (simp add: kmem_ready_def kmem_wf_def eight_pages_def two_pages_def)
qed

lemma eight_pages_kalloc: "kalloc eight_pages = Inr (page_va 0, kalloc_took 0 eight_pages)"
  using eight_pages_ready
  by (simp add: kalloc_eq) (simp add: eight_pages_def first_idx_def eval_nat_numeral)

definition root8 :: kmem_state where
  "root8 = (kalloc_took 0 eight_pages)\<lparr>pmem := mem_fill (pmem (kalloc_took 0 eight_pages)) (page_va 0) 4096 0\<rparr>"

lemma root8: "kmem_ready root8" "pt_ok root8 (page_va 0)" "pteof root8 (page_va 0) va = 0"
  using fresh_root [OF eight_pages_ready eight_pages_kalloc page_va_nonnull root8_def] by auto

lemma root8_avail: "card (avail root8) = 7"
proof -
  have "{i. i < 8 \<and> available (core_map eight_pages ! i) = 1} = {..<8}"
    by (auto simp: eight_pages_def)
  then have "avail eight_pages = page_va ` {..<8}" by (simp add: avail_def) (simp add: eight_pages_def)
  moreover have "card (page_va ` {..<8}) = 8"
    by (subst card_image) (auto intro: inj_on_subset [OF inj_page_va])
  moreover have "avail root8 = avail eight_pages - {page_va 0}"
    using kmem.alloc_page [OF eight_pages_ready eight_pages_kalloc page_va_nonnull]
    by (simp add: root8_def mem_cong_refs)
  moreover have "page_va 0 \<in> page_va ` {..<8}" by simp
  ultimately show ?thesis by simp
qed

theorem mappages_correct_witness:
  "\<exists>s'. mappages (page_va 0) 5 2 9 3 1 root8 = Inr (0, s') \<and>
     pteof s' (page_va 0) 0x6000 = push_bit 12 (9 + of_nat (pg_off 0x6000 5)) OR 3"
proof -
  have off: "pg_off 0x6000 5 < 2" by (simp add: pg_off_def PGNUM_def)
  note m = mappages_correct [OF root8(1,2), where n = 2 and v = 5 and ppn = 9 and perm = 3 and kern = 1]
  show ?thesis
  proof (cases "mappages (page_va 0) 5 2 9 3 1 root8")
    case (Inl e)
    then show ?thesis using m by (simp add: root8_avail root8(3))
  next
    case (Inr x)
    then show ?thesis using m off by (cases x) auto
  qed
qed


theorem uva2ka_translates_witness:
  "uva2ka (page_va 0) 0x6000 root8 = Inl (Fault ''null pointer'')"
proof -
  have "vpath 0x6000 \<noteq> []" by (simp add: vpath_def)
  then have "tblat (qld root8) (page_va 0) (vpath 0x6000) = None"
    using fresh_root(4) [OF eight_pages_ready eight_pages_kalloc page_va_nonnull root8_def]
      pt_treeD(2) [of "qld root8" "page_va 0" "[]" "vpath 0x6000" "page_va 0"] root8(2)
      tablesI [OF vpath_ok(1), of "qld root8" "page_va 0" "0x6000"]
    by (cases "tblat (qld root8) (page_va 0) (vpath 0x6000)") (auto simp: pt_ok_def)
  then have "slot_addr root8 (page_va 0) 0x6000 = 0" by (simp add: slot_addr_def)
  then show ?thesis using uva2ka_translates [OF root8(1,2), of "0x6000"] by simp
qed

end
