(* ===== verification/Vspace.thy ===== *)
theory Vspace
  imports Paging_Map
begin

text \<open>
  Virtual address spaces, kernel/vspace.c and inc/vspace.h: an address space is five regions,
  each with a chain of pages of page descriptors, and a page table that is rebuilt from the
  descriptors. The functions that load programs from files are in \<open>Exec\<close>.
\<close>

section \<open>State\<close>

record vpage_info =
  used :: int
  ppn :: u64
  present :: int
  writable :: int
  cow :: int

definition no_page :: vpage_info where
  "no_page = \<lparr>used = 0, ppn = 0, present = 0, writable = 0, cow = 0\<rparr>"

text \<open>Four shorts and a frame number take 24 bytes; the last 24 bytes of a page hold \<open>next\<close>.\<close>

abbreviation (input) VPIPPAGE :: nat where "VPIPPAGE \<equiv> 169"

record vpi_page =
  infos :: "vpage_info list"
  vnext :: u64

definition no_infos :: vpi_page where
  "no_infos = \<lparr>infos = replicate VPIPPAGE no_page, vnext = 0\<rparr>"

datatype vr_direction = VRDIR_UP | VRDIR_DOWN

record vregion =
  vdir :: vr_direction
  va_base :: u64
  vr_size :: u64
  pages :: u64

text \<open>\<open>memset(vr, 0, sizeof(struct vregion))\<close>\<close>

definition no_region :: vregion where
  "no_region = \<lparr>vdir = VRDIR_UP, va_base = 0, vr_size = 0, pages = 0\<rparr>"

abbreviation (input) NREGIONS :: nat where "NREGIONS \<equiv> 5"
abbreviation (input) VR_CODE :: nat where "VR_CODE \<equiv> 0"
abbreviation (input) VR_HEAP :: nat where "VR_HEAP \<equiv> 1"
abbreviation (input) VR_USTACK :: nat where "VR_USTACK \<equiv> 2"
abbreviation (input) VR_APP_HEAP :: nat where "VR_APP_HEAP \<equiv> 3"
abbreviation (input) VR_APP_USTACK :: nat where "VR_APP_USTACK \<equiv> 4"

record vspace =
  regions :: "vregion list"
  pgtbl :: u64

text \<open>
  The descriptor pages, by the address of the page that holds them. A page is cleared in memory
  and here at the same time; the typed view is what the code reads.
\<close>

record vs_state = vm_state +
  vpis :: "u64 \<Rightarrow> vpi_page"

definition VRTOP :: "vregion \<Rightarrow> u64" where
  "VRTOP r = (if vdir r = VRDIR_UP then va_base r + vr_size r else va_base r)"

definition VRBOT :: "vregion \<Rightarrow> u64" where
  "VRBOT r = (if vdir r = VRDIR_UP then va_base r else va_base r - vr_size r)"

definition upd_region :: "nat \<Rightarrow> (vregion \<Rightarrow> vregion) \<Rightarrow> vspace \<Rightarrow> vspace" where
  "upd_region i f vs = vs\<lparr>regions := (regions vs)[i := f (regions vs ! i)]\<rparr>"

section \<open>Page descriptors\<close>

text \<open>
  The index of the descriptor: the 64-bit difference, cut to an int. It is compared with the
  unsigned \<open>VPIPPAGE\<close>, so a negative int counts as a large index: the unsigned 32-bit value.
\<close>

definition va2vpi_idx :: "vregion \<Rightarrow> u64 \<Rightarrow> nat" where
  "va2vpi_idx r va =
     (case vdir r of
        VRDIR_UP \<Rightarrow> unat (ucast (drop_bit 12 (va - va_base r)) :: u32)
      | VRDIR_DOWN \<Rightarrow> unat (ucast (drop_bit 12 (va_base r - 1 - va)) :: u32))"

definition x86perms :: "vpage_info \<Rightarrow> u64" where
  "x86perms vpi =
     PTE_U OR (if present vpi \<noteq> 0 then PTE_P else 0) OR (if writable vpi \<noteq> 0 then PTE_W else 0)"

type_synonym vpi_ref = "u64 \<times> nat"

definition vpi_get :: "vpi_ref \<Rightarrow> 'a vs_state_scheme \<Rightarrow> vpage_info" where
  "vpi_get r s = infos (vpis s (fst r)) ! snd r"

definition vpi_upd :: "vpi_ref \<Rightarrow> (vpage_info \<Rightarrow> vpage_info) \<Rightarrow> 'a vs_state_scheme \<Rightarrow> 'a vs_state_scheme" where
  "vpi_upd r f s = s\<lparr>vpis := (vpis s)(fst r := (vpis s (fst r))
     \<lparr>infos := (infos (vpis s (fst r)))[snd r := f (vpi_get r s)]\<rparr>)\<rparr>"

text \<open>\<open>memset(page, 0, n)\<close> on a descriptor page; \<open>n\<close> covers the structure of 4064 bytes.\<close>

abbreviation (input) VPI_PAGE_SIZE :: nat where "VPI_PAGE_SIZE \<equiv> 4064"

definition vpi_clear :: "u64 \<Rightarrow> nat \<Rightarrow> 'a vs_state_scheme \<Rightarrow> 'a vs_state_scheme" where
  "vpi_clear p n s = s\<lparr>pmem := memset (pmem s) p 0 n, vpis := (vpis s)(p := no_infos)\<rparr>"

text \<open>The loop of \<open>va2vpage_info\<close> along the chain; None is \<open>return 0\<close>.\<close>

function vpi_walk :: "u64 \<Rightarrow> nat \<Rightarrow> 'a vs_state_scheme \<Rightarrow>
    'a vs_state_scheme stop + vpi_ref option \<times> 'a vs_state_scheme" where
  "vpi_walk info idx s =
     (if idx < VPIPPAGE then Inr (Some (info, idx), s)
      else
        bindr (kassert ''idx was out of bounds'' (info \<noteq> 0)) (\<lambda>_.
        if vnext (vpis s info) = 0 then
          bindr (kalloc s) (\<lambda>(p, s).
            let s = s\<lparr>vpis := (vpis s)(info := (vpis s info)\<lparr>vnext := p\<rparr>)\<rparr> in
            if p = 0 then Inr (None, s) else vpi_walk p (idx - VPIPPAGE) (vpi_clear p PGSIZE s))
        else vpi_walk (vnext (vpis s info)) (idx - VPIPPAGE) s))"
  by pat_completeness auto

termination vpi_walk
  by (relation "measure (\<lambda>(info, idx, s). idx)") auto

declare vpi_walk.simps [simp del]

text \<open>The region is returned because its first descriptor page may be created here.\<close>

definition va2vpage_info :: "vregion \<Rightarrow> u64 \<Rightarrow> 'a vs_state_scheme \<Rightarrow>
    'a vs_state_scheme stop + vpi_ref option \<times> vregion \<times> 'a vs_state_scheme" where
  "va2vpage_info vr va s =
     bindr (if pages vr = 0 then
              bindr (kalloc s) (\<lambda>(p, s).
                if p = 0 then Inl (Fault ''null pointer'')
                else Inr (vr\<lparr>pages := p\<rparr>, vpi_clear p PGSIZE s))
            else Inr (vr, s)) (\<lambda>(vr, s).
     bindr (vpi_walk (pages vr) (va2vpi_idx vr va) s) (\<lambda>(r, s). Inr (r, vr, s)))"

section \<open>Regions\<close>

text \<open>The int an unsigned long is returned as.\<close>

definition as_int :: "u64 \<Rightarrow> int" where "as_int x = sint (ucast x :: u32)"

definition vregioncontains :: "vregion \<Rightarrow> u64 \<Rightarrow> int \<Rightarrow> bool" where
  "vregioncontains vr va sz \<longleftrightarrow> va \<ge> VRBOT vr \<and> va + word_of_int sz < VRTOP vr"

definition vregionaddmap :: "vregion \<Rightarrow> u64 \<Rightarrow> u64 \<Rightarrow> int \<Rightarrow> int \<Rightarrow> 'a vs_state_scheme \<Rightarrow>
    'a vs_state_scheme stop + int \<times> vregion \<times> 'a vs_state_scheme" where
  "vregionaddmap vr from_va sz prs wrt s =
     (if sz + from_va \<ge> KBASE then Inr (-1, vr, s)
      else if sz = 0 then Inr (0, vr, s)
      else
        bindr (for_pages (page_fuel (from_va + sz)) (PGROUNDUP from_va) (from_va + sz)
          (\<lambda>a (vr, s).
             bindr (va2vpage_info vr a s) (\<lambda>(r, vr, s).
             case r of None \<Rightarrow> Inr (Inl (-1, vr, s)) | Some r \<Rightarrow>
             bindr (kalloc s) (\<lambda>(mem, s).
               if mem = 0 then Inr (Inl (-1, vr, s))
               else
                 let s = s\<lparr>pmem := memset (pmem s) mem 0 PGSIZE\<rparr> in
                 Inr (Inr (vr, vpi_upd r (\<lambda>v. v\<lparr>used := 1, present := prs, writable := wrt,
                   ppn := PGNUM (V2P mem)\<rparr>) s)))))
          (vr, s)) (\<lambda>x.
        case x of Inl r \<Rightarrow> Inr r | Inr (vr, s) \<Rightarrow> Inr (as_int sz, vr, s)))"

definition vregiondelmap :: "vregion \<Rightarrow> u64 \<Rightarrow> u64 \<Rightarrow> 'a vs_state_scheme \<Rightarrow>
    'a vs_state_scheme stop + int \<times> vregion \<times> 'a vs_state_scheme" where
  "vregiondelmap vr from_va sz s =
     (if \<not> vregioncontains vr (from_va - sz) 0 then Inr (-1, vr, s)
      else if sz = 0 then Inr (0, vr, s)
      else
        bindr (for_pages (page_fuel from_va) (PGROUNDUP (from_va - sz)) from_va
          (\<lambda>a (vr, s).
             bindr (va2vpage_info vr a s) (\<lambda>(r, vr, s).
             case r of None \<Rightarrow> Inr (Inl (-1, vr, s)) | Some r \<Rightarrow>
             bindr (kassert ''address isn't assigned'' (used (vpi_get r s) \<noteq> 0)) (\<lambda>_.
             let s = vpi_upd r (\<lambda>v. v\<lparr>used := 0, present := 0, writable := 0\<rparr>) s in
             bindr (kfree (P2V (push_bit 12 (ppn (vpi_get r s)))) s) (\<lambda>s. Inr (Inr (vr, s))))))
          (vr, s)) (\<lambda>x.
        case x of Inl r \<Rightarrow> Inr r | Inr (vr, s) \<Rightarrow> Inr (as_int sz, vr, s)))"

text \<open>\<open>data\<close> is the block of \<open>sz\<close> bytes at the source address.\<close>

definition vradddata :: "vregion \<Rightarrow> u64 \<Rightarrow> u8 list \<Rightarrow> int \<Rightarrow> int \<Rightarrow> 'a vs_state_scheme \<Rightarrow>
    'a vs_state_scheme stop + int \<times> vregion \<times> 'a vs_state_scheme" where
  "vradddata r va data prs wrt s =
     bindr (vregionaddmap r va (of_nat (length data)) prs wrt s) (\<lambda>(ret, r, s).
     if ret < 0 then Inr (ret, r, s)
     else
       bindr (for_range 0 ((length data + 4095) div 4096)
         (\<lambda>k (r, s).
            let i = k * 4096 in
            bindr (va2vpage_info r (va + of_nat i) s) (\<lambda>(vpi, r, s).
            bindr (deref ''null pointer'' vpi) (\<lambda>vpi.
            bindr (kassert ''vpi->used'' (used (vpi_get vpi s) \<noteq> 0)) (\<lambda>_.
            let n = min (length data - i) PGSIZE in
            Inr (r, s\<lparr>pmem := store_bytes (pmem s) (P2V (push_bit 12 (ppn (vpi_get vpi s))))
                           (take n (drop i data))\<rparr>)))))
         (r, s)) (\<lambda>(r, s). Inr (0, r, s)))"

section \<open>Address spaces\<close>

definition vspaceinstallkern :: "'a vm_state_scheme \<Rightarrow> 'a vm_state_scheme" where
  "vspaceinstallkern s = s\<lparr>cr3 := V2P (kpml4 s)\<rparr>"

definition vspacebootinit :: "'a vm_state_scheme \<Rightarrow> 'a vm_state_scheme stop + 'a vm_state_scheme" where
  "vspacebootinit s =
     bindr (setupkvm s) (\<lambda>(p, s). Inr (vspaceinstallkern (s\<lparr>kpml4 := p\<rparr>)))"

text \<open>The argument is the old value of the structure: a failing call leaves its regions alone.\<close>

definition vspaceinit :: "vspace \<Rightarrow> 'a vm_state_scheme \<Rightarrow>
    'a vm_state_scheme stop + int \<times> vspace \<times> 'a vm_state_scheme" where
  "vspaceinit vs s =
     bindr (setupkvm s) (\<lambda>(p, s).
       if p = 0 then Inr (-1, vs\<lparr>pgtbl := 0\<rparr>, s)
       else Inr (0, \<lparr>regions = [no_region, no_region, no_region\<lparr>vdir := VRDIR_DOWN\<rparr>,
                       no_region, no_region\<lparr>vdir := VRDIR_DOWN\<rparr>], pgtbl = p\<rparr>, s))"

text \<open>One region of \<open>vspaceinvalidate\<close>: map every page from its bottom to its top.\<close>

definition map_region :: "u64 \<Rightarrow> vregion \<Rightarrow> 'a vs_state_scheme \<Rightarrow>
    'a vs_state_scheme stop + vregion \<times> 'a vs_state_scheme" where
  "map_region pml4 vr s =
     bindr (kassert ''start % PGSIZE == 0'' (unat (VRBOT vr) mod PGSIZE = 0)) (\<lambda>_.
     bindr (for_pages (page_fuel (VRTOP vr)) (VRBOT vr) (VRTOP vr)
       (\<lambda>a (vr, s).
          bindr (va2vpage_info vr a s) (\<lambda>(r, vr, s).
          bindr (deref ''null pointer'' r) (\<lambda>r.
          bindr (mappages pml4 (drop_bit 12 a) 1 (ppn (vpi_get r s)) (x86perms (vpi_get r s)) 0 s)
            (\<lambda>(_, s). Inr (Inr (vr, s))))))
       (vr, s)) (\<lambda>x. case x of Inl r \<Rightarrow> Inr r | Inr r \<Rightarrow> Inr r))"

fun map_regions :: "u64 \<Rightarrow> vregion list \<Rightarrow> 'a vs_state_scheme \<Rightarrow>
    'a vs_state_scheme stop + vregion list \<times> 'a vs_state_scheme" where
  "map_regions pml4 [] s = Inr ([], s)"
| "map_regions pml4 (vr # vrs) s =
     bindr (map_region pml4 vr s) (\<lambda>(vr, s).
     bindr (map_regions pml4 vrs s) (\<lambda>(vrs, s). Inr (vr # vrs, s)))"

text \<open>The first loop runs for entries 0 to \<open>PML4_INDEX(SZ_4G)\<close>, which is 0.\<close>

definition vspaceinvalidate :: "vspace \<Rightarrow> 'a vs_state_scheme \<Rightarrow>
    'a vs_state_scheme stop + vspace \<times> 'a vs_state_scheme" where
  "vspaceinvalidate vs s =
     bindr (for_range 0 (Suc (PML4_INDEX 0x100000000)) (\<lambda>i s.
         let e = rd64 (pmem s) (ent (pgtbl vs) i) in
         if e AND PTE_P \<noteq> 0 then
           bindr (freevm_pdpt (P2V (PTE_ADDR e)) s) (\<lambda>s.
             Inr (s\<lparr>pmem := wr64 (pmem s) (ent (pgtbl vs) i) 0\<rparr>))
         else Inr s) s) (\<lambda>s.
     bindr (map_regions (pgtbl vs) (regions vs) s) (\<lambda>(vrs, s).
     Inr (vs\<lparr>regions := vrs\<rparr>, s)))"

text \<open>Failed assertions stop; \<open>init\<close> is the code of the first process.\<close>

definition vspaceinitcode :: "vspace \<Rightarrow> u8 list \<Rightarrow> 'a vs_state_scheme \<Rightarrow>
    'a vs_state_scheme stop + vspace \<times> 'a vs_state_scheme" where
  "vspaceinitcode vs init s =
     (let sz = of_nat (length init);
          vs = upd_region VR_CODE (\<lambda>r. r\<lparr>va_base := 0, vr_size := PGROUNDUP sz\<rparr>) vs in
      bindr (vradddata (regions vs ! VR_CODE) 0 init 1 1 s) (\<lambda>(rc, r, s).
      bindr (kassert ''failed to allocate init code data'' (rc = 0)) (\<lambda>_.
      let vs = upd_region VR_CODE (\<lambda>_. r) vs;
          stack = PGROUNDUP sz + 4096;
          vs = upd_region VR_USTACK (\<lambda>r. r\<lparr>va_base := stack, vr_size := 4096\<rparr>) vs in
      bindr (vregionaddmap (regions vs ! VR_USTACK) (stack - 4096) 4096 1 1 s) (\<lambda>(rc, r, s).
      bindr (kassert ''vregionaddmap >= 0'' (rc \<ge> 0)) (\<lambda>_.
      vspaceinvalidate (upd_region VR_USTACK (\<lambda>_. r) vs) s)))))"

text \<open>
  Freeing a chain of descriptor pages. The recursion frees the tail first; a chain longer than
  the number of pages of the machine has a cycle.
\<close>

fun free_page_desc_list :: "nat \<Rightarrow> u64 \<Rightarrow> 'a vs_state_scheme \<Rightarrow>
    'a vs_state_scheme stop + 'a vs_state_scheme" where
  "free_page_desc_list 0 page s = Inl (Fault ''cyclic descriptor list'')"
| "free_page_desc_list (Suc n) page s =
     bindr (kassert ''page % PGSIZE == 0'' (unat page mod PGSIZE = 0)) (\<lambda>_.
     if page = 0 then Inr s
     else bindr (free_page_desc_list n (vnext (vpis s page)) s) (kfree page))"

fun free_regions :: "vregion list \<Rightarrow> 'a vs_state_scheme \<Rightarrow> 'a vs_state_scheme stop + 'a vs_state_scheme" where
  "free_regions [] s = Inr s"
| "free_regions (vr # vrs) s =
     bindr (free_page_desc_list (length (core_map s) + 2) (pages vr) s) (free_regions vrs)"

definition vspacefree :: "vspace \<Rightarrow> 'a vs_state_scheme \<Rightarrow>
    'a vs_state_scheme stop + vspace \<times> 'a vs_state_scheme" where
  "vspacefree vs s =
     bindr (free_regions (regions vs) s) (\<lambda>s.
     let vs = vs\<lparr>regions := replicate NREGIONS no_region\<rparr> in
     bindr (freevm (pgtbl vs) s) (\<lambda>s. Inr (vs, s)))"

definition in_region :: "u64 \<Rightarrow> vregion \<Rightarrow> bool" where
  "in_region va vr \<longleftrightarrow>
     (if vdir vr = VRDIR_UP then va \<ge> va_base vr \<and> va < va_base vr + vr_size vr
      else va \<ge> va_base vr - vr_size vr \<and> va < va_base vr)"

text \<open>The number of the region, None for null.\<close>

definition va2vregion :: "vspace \<Rightarrow> u64 \<Rightarrow> nat option" where
  "va2vregion vs va = first_idx (in_region va) (regions vs)"

definition vspacecontains :: "vspace \<Rightarrow> u64 \<Rightarrow> int \<Rightarrow> bool" where
  "vspacecontains vs va sz \<longleftrightarrow>
     (case va2vregion vs va of None \<Rightarrow> False | Some i \<Rightarrow> vregioncontains (regions vs ! i) va sz)"

section \<open>Copying\<close>

text \<open>
  The loop of \<open>copy_vpi_page\<close> over the descriptors of one page; the flag is false when no frame
  was left for a copy.
\<close>

fun copy_infos :: "u64 \<Rightarrow> u64 \<Rightarrow> nat \<Rightarrow> nat \<Rightarrow> 'a vs_state_scheme \<Rightarrow>
    'a vs_state_scheme stop + bool \<times> 'a vs_state_scheme" where
  "copy_infos dst src i 0 s = Inr (True, s)"
| "copy_infos dst src i (Suc n) s =
     (let v = vpi_get (src, i) s in
      if used v \<noteq> 0 then
        let s = vpi_upd (dst, i) (\<lambda>d. d\<lparr>used := used v, present := present v, writable := writable v\<rparr>) s in
        bindr (kalloc s) (\<lambda>(data, s).
          if data = 0 then Inr (False, s)
          else
            let s = s\<lparr>pmem := memmove (pmem s) data (P2V (push_bit 12 (ppn v))) PGSIZE\<rparr> in
            copy_infos dst src (Suc i) n (vpi_upd (dst, i) (\<lambda>d. d\<lparr>ppn := PGNUM (V2P data)\<rparr>) s))
      else copy_infos dst src (Suc i) n s)"

text \<open>
  Each level of the recursion allocates a page, so it is no deeper than the machine has pages.
  The second result is what the caller stores through its pointer argument.
\<close>

fun copy_vpi_page :: "nat \<Rightarrow> u64 \<Rightarrow> 'a vs_state_scheme \<Rightarrow>
    'a vs_state_scheme stop + int \<times> u64 \<times> 'a vs_state_scheme" where
  "copy_vpi_page 0 src s = Inl (Fault ''cyclic descriptor list'')"
| "copy_vpi_page (Suc n) src s =
     (if src = 0 then Inr (0, 0, s)
      else
        bindr (kalloc s) (\<lambda>(dst, s).
          if dst = 0 then Inr (-1, 0, s)
          else
            bindr (copy_infos dst src 0 VPIPPAGE (vpi_clear dst VPI_PAGE_SIZE s)) (\<lambda>(ok, s).
            if \<not> ok then Inr (-1, dst, s)
            else
              bindr (copy_vpi_page n (vnext (vpis s src)) s) (\<lambda>(rc, nxt, s).
              Inr (rc, dst, s\<lparr>vpis := (vpis s)(dst := (vpis s dst)\<lparr>vnext := nxt\<rparr>)\<rparr>)))))"

text \<open>The loop over the regions of \<open>dst\<close>, which start as copies of those of \<open>src\<close>.\<close>

fun copy_regions :: "vregion list \<Rightarrow> 'a vs_state_scheme \<Rightarrow>
    'a vs_state_scheme stop + int \<times> vregion list \<times> 'a vs_state_scheme" where
  "copy_regions [] s = Inr (0, [], s)"
| "copy_regions (vr # vrs) s =
     bindr (copy_vpi_page (length (core_map s) + 2) (pages vr) s) (\<lambda>(rc, p, s).
     let vr = vr\<lparr>pages := p\<rparr> in
     if rc < 0 then Inr (-1, vr # vrs, s)
     else bindr (copy_regions vrs s) (\<lambda>(rc, vrs, s). Inr (rc, vr # vrs, s)))"

definition vspacecopy :: "vspace \<Rightarrow> vspace \<Rightarrow> 'a vs_state_scheme \<Rightarrow>
    'a vs_state_scheme stop + int \<times> vspace \<times> 'a vs_state_scheme" where
  "vspacecopy dst src s =
     bindr (copy_regions (regions src) s) (\<lambda>(rc, vrs, s).
     let dst = dst\<lparr>regions := vrs\<rparr> in
     if rc < 0 then Inr (-1, dst, s)
     else bindr (vspaceinvalidate dst s) (\<lambda>(dst, s). Inr (0, dst, s)))"

fun cow_infos :: "u64 \<Rightarrow> u64 \<Rightarrow> nat \<Rightarrow> nat \<Rightarrow> 'a vs_state_scheme \<Rightarrow>
    'a vs_state_scheme stop + 'a vs_state_scheme" where
  "cow_infos dst src i 0 s = Inr s"
| "cow_infos dst src i (Suc n) s =
     (let v = vpi_get (src, i) s in
      if used v \<noteq> 0 then
        let s = vpi_upd (dst, i) (\<lambda>d. d\<lparr>used := used v, present := present v, ppn := ppn v\<rparr>) s in
        bindr (kincref (push_bit 12 (ppn v)) s) (\<lambda>s.
          cow_infos dst src (Suc i) n
            (vpi_upd (dst, i) (\<lambda>d. d\<lparr>writable := 0, cow := 1\<rparr>)
              (vpi_upd (src, i) (\<lambda>d. d\<lparr>writable := 0, cow := 1\<rparr>) s)))
      else cow_infos dst src (Suc i) n s)"

fun cow_copy_vpi_page :: "nat \<Rightarrow> u64 \<Rightarrow> 'a vs_state_scheme \<Rightarrow>
    'a vs_state_scheme stop + int \<times> u64 \<times> 'a vs_state_scheme" where
  "cow_copy_vpi_page 0 src s = Inl (Fault ''cyclic descriptor list'')"
| "cow_copy_vpi_page (Suc n) src s =
     (if src = 0 then Inr (0, 0, s)
      else
        bindr (kalloc s) (\<lambda>(dst, s).
          if dst = 0 then Inr (-1, 0, s)
          else
            bindr (cow_infos dst src 0 VPIPPAGE (vpi_clear dst VPI_PAGE_SIZE s)) (\<lambda>s.
            bindr (cow_copy_vpi_page n (vnext (vpis s src)) s) (\<lambda>(rc, nxt, s).
            Inr (rc, dst, s\<lparr>vpis := (vpis s)(dst := (vpis s dst)\<lparr>vnext := nxt\<rparr>)\<rparr>)))))"

fun cow_copy_regions :: "vregion list \<Rightarrow> 'a vs_state_scheme \<Rightarrow>
    'a vs_state_scheme stop + int \<times> vregion list \<times> 'a vs_state_scheme" where
  "cow_copy_regions [] s = Inr (0, [], s)"
| "cow_copy_regions (vr # vrs) s =
     bindr (cow_copy_vpi_page (length (core_map s) + 2) (pages vr) s) (\<lambda>(rc, p, s).
     let vr = vr\<lparr>pages := p\<rparr> in
     if rc < 0 then Inr (-1, vr # vrs, s)
     else bindr (cow_copy_regions vrs s) (\<lambda>(rc, vrs, s). Inr (rc, vr # vrs, s)))"

definition cow_vspacecopy :: "vspace \<Rightarrow> vspace \<Rightarrow> 'a vs_state_scheme \<Rightarrow>
    'a vs_state_scheme stop + int \<times> vspace \<times> vspace \<times> 'a vs_state_scheme" where
  "cow_vspacecopy dst src s =
     bindr (cow_copy_regions (regions src) s) (\<lambda>(rc, vrs, s).
     let dst = dst\<lparr>regions := vrs\<rparr> in
     if rc < 0 then Inr (-1, dst, src, s)
     else
       bindr (vspaceinvalidate src s) (\<lambda>(src, s).
       bindr (vspaceinvalidate dst s) (\<lambda>(dst, s). Inr (0, dst, src, s))))"

section \<open>Stacks and writes\<close>

definition vspaceinitstack :: "vspace \<Rightarrow> u64 \<Rightarrow> 'a vs_state_scheme \<Rightarrow>
    'a vs_state_scheme stop + int \<times> vspace \<times> 'a vs_state_scheme" where
  "vspaceinitstack vs start s =
     (let vs = upd_region VR_USTACK (\<lambda>r. r\<lparr>va_base := start, vr_size := 4096\<rparr>) vs in
      bindr (vregionaddmap (regions vs ! VR_USTACK) (start - 4096) 4096 1 1 s) (\<lambda>(rc, r, s).
      let vs = upd_region VR_USTACK (\<lambda>_. r) vs in
      if rc < 0 then Inr (-1, vs, s)
      else bindr (vspaceinvalidate vs s) (\<lambda>(vs, s). Inr (0, vs, s))))"

text \<open>
  The loop of \<open>vspacewritetova\<close>. Every round that makes progress writes a byte, so with one
  more round than there are bytes the loop has ended or is stuck on a round of size 0.
\<close>

fun write_loop :: "nat \<Rightarrow> vspace \<Rightarrow> u64 \<Rightarrow> u64 \<Rightarrow> u8 list \<Rightarrow> 'a vs_state_scheme \<Rightarrow>
    'a vs_state_scheme stop + int \<times> vspace \<times> 'a vs_state_scheme" where
  "write_loop 0 vs va stop data s = Inl (Fault ''loop does not end'')"
| "write_loop (Suc n) vs va stop data s =
     (if va < stop then
        let wsz = nat (min (as_int (PGROUNDUP va - va)) (int (length data))) in
        case va2vregion vs va of None \<Rightarrow> Inr (-1, vs, s)
        | Some i \<Rightarrow>
            bindr (va2vpage_info (regions vs ! i) va s) (\<lambda>(r, vr, s).
            let vs = upd_region i (\<lambda>_. vr) vs in
            bindr (deref ''null pointer'' r) (\<lambda>r.
            bindr (kassert ''vpi->used'' (used (vpi_get r s) \<noteq> 0)) (\<lambda>_.
            if writable (vpi_get r s) = 0 then Inr (-1, vs, s)
            else
              let a = P2V (push_bit 12 (ppn (vpi_get r s))) + of_nat (unat va mod PGSIZE) in
              write_loop n vs (va + of_nat wsz) stop (drop wsz data)
                (s\<lparr>pmem := store_bytes (pmem s) a (take wsz data)\<rparr>))))
      else Inr (0, vs, s))"

definition vspacewritetova :: "vspace \<Rightarrow> u64 \<Rightarrow> u8 list \<Rightarrow> 'a vs_state_scheme \<Rightarrow>
    'a vs_state_scheme stop + int \<times> vspace \<times> 'a vs_state_scheme" where
  "vspacewritetova vs va data s =
     bindr (kassert ''sz less than or equal to 0'' (length data > 0)) (\<lambda>_.
     bindr (kassert ''went over kernel vm base'' (va + of_nat (length data) < KBASE)) (\<lambda>_.
     write_loop (Suc (length data)) vs va (va + of_nat (length data)) data s))"

section \<open>Writes within a page\<close>

lemma as_int_small:
  assumes "unat x < 2 ^ 31"
  shows "as_int x = int (unat x)"
proof -
  have "as_int x = signed_take_bit 31 (uint x)"
    by (simp add: as_int_def sint_uint unsigned_ucast_eq signed_take_bit_take_bit)
  moreover have "- (2 ^ 31) \<le> uint x" "uint x < 2 ^ 31"
    using assms zless_nat_eq_int_zless [of "unat x" "2 ^ 31"] order_trans [OF _ uint_ge_0 [of x], of "- (2 ^ 31)"] by simp_all
  then have "signed_take_bit 31 (uint x) = uint x" by (rule signed_take_bit_int_eq_self)
  ultimately show ?thesis by simp
qed

lemma page_left:
  assumes "unat va < unat KBASE"
  shows "as_int (PGROUNDUP va - va) = (if unat va mod 4096 = 0 then 0 else 4096 - int (unat va mod 4096))"
proof -
  define q r where "q = unat va div 4096" and "r = unat va mod 4096"
  have va: "unat va = 4096 * q + r" "r < 4096" by (simp_all add: q_def r_def)
  have up: "unat (PGROUNDUP va) = (unat va + 4095) div 4096 * 4096"
    using assms by (intro unat_PGROUNDUP) simp
  have "(4096 * q + r + 4095) div 4096 = (if r = 0 then q else q + 1)"
    using va(2) by (auto simp: div_nat_eqI)
  with up va have u: "unat (PGROUNDUP va) = (if r = 0 then unat va else unat va + 4096 - r)" by simp
  then have "va \<le> PGROUNDUP va" using va(2) by (auto simp: word_le_nat_alt split: if_splits)
  then have "unat (PGROUNDUP va - va) = (if r = 0 then 0 else 4096 - r)"
    using u va(2) by (simp add: unat_sub split: if_splits)
  then show ?thesis using va(2) by (simp add: as_int_small r_def of_nat_diff)
qed

text \<open>A descriptor the loop finds in its region without allocating, of a page it may write to.\<close>

definition write_slot :: "vspace \<Rightarrow> u64 \<Rightarrow> vpi_ref \<Rightarrow> 'a vs_state_scheme \<Rightarrow> bool" where
  "write_slot vs va r s \<longleftrightarrow>
     (\<exists>i < length (regions vs). va2vregion vs va = Some i \<and>
        va2vpage_info (regions vs ! i) va s = Inr (Some r, regions vs ! i, s)) \<and>
     used (vpi_get r s) \<noteq> 0 \<and> writable (vpi_get r s) \<noteq> 0"

lemma upd_region_same: "upd_region i (\<lambda>_. regions vs ! i) vs = vs"
  by (cases "i < length (regions vs)") (simp_all add: upd_region_def)

lemma write_loop_Suc:
  assumes "write_slot vs va r s" "va < stop"
  shows "write_loop (Suc n) vs va stop data s =
     (let wsz = nat (min (as_int (PGROUNDUP va - va)) (int (length data)));
          a = P2V (push_bit 12 (ppn (vpi_get r s))) + of_nat (unat va mod PGSIZE) in
      write_loop n vs (va + of_nat wsz) stop (drop wsz data)
        (s\<lparr>pmem := store_bytes (pmem s) a (take wsz data)\<rparr>))"
  using assms by (auto simp: write_slot_def upd_region_same Let_def)

lemma write_loop_stuck:
  assumes "write_slot vs va r s" "va < stop" "unat va < unat KBASE" "unat va mod 4096 = 0"
  shows "write_loop n vs va stop data s = Inl (Fault ''loop does not end'')"
proof (induction n)
  case (Suc n)
  then show ?case
    by (simp only: write_loop_Suc [OF assms(1,2)] page_left [OF assms(3)] assms(4) Let_def) simp
qed simp

lemma write_loop_page:
  assumes "write_slot vs va r s" "stop = va + of_nat (length data)" "0 < length data"
    and "unat va + length data < unat KBASE"
    and "unat va mod 4096 \<noteq> 0" "unat va mod 4096 + length data \<le> 4096"
  shows "write_loop (Suc (Suc n)) vs va stop data s =
    Inr (0, vs, s\<lparr>pmem := store_bytes (pmem s)
      (P2V (push_bit 12 (ppn (vpi_get r s))) + of_nat (unat va mod PGSIZE)) data\<rparr>)"
proof -
  have l: "unat stop = unat va + length data"
    using assms(2,4) unat_plus64 [of va "of_nat (length data)"] by (simp add: unat_of_nat)
  then have lt: "va < stop" using assms(3) by (simp add: word_less_nat_alt)
  have "nat (min (as_int (PGROUNDUP va - va)) (int (length data))) = length data"
    using assms(4-6) page_left [of va] by simp
  then show ?thesis
    by (simp only: write_loop_Suc [OF assms(1) lt] Let_def) (simp add: assms(2))
qed


text \<open>A machine with four pages: a descriptor page, the frame it describes, and two available ones.\<close>

definition four_pages :: vs_state where
  "four_pages = \<lparr>held = {}, core_map =
       replicate 2 \<lparr>available = 0, user = 0, cm_va = 0, ref = 1\<rparr> @
       replicate 2 \<lparr>available = 1, user = 0, cm_va = 0, ref = 0\<rparr>,
     npages = 4, use_lock = 1, pages_in_use = 2, pages_in_swap = 0, free_pages = 2,
     k_end = KBASE, pmem = (\<lambda>_. 7), k_data = KBASE, kpml4 = 0, cr3 = 0,
     vpis = (\<lambda>_. no_infos\<lparr>infos := (replicate 169 no_page)
       [0 := \<lparr>used = 1, ppn = 1, present = 1, writable = 1, cow = 0\<rparr>]\<rparr>)\<rparr>"

definition one_page_space :: vspace where
  "one_page_space = \<lparr>regions = [\<lparr>vdir = VRDIR_UP, va_base = 0x2000, vr_size = 0x1000,
     pages = page_va 0\<rparr>, no_region, no_region, no_region, no_region], pgtbl = 0\<rparr>"

lemma four_pages_slot:
  assumes "va \<in> {0x2000, 0x2100}"
  shows "write_slot one_page_space va (page_va 0, 0) four_pages"
proof -
  have i: "va2vregion one_page_space va = Some 0"
    using assms by (auto simp: va2vregion_def one_page_space_def first_idx_def in_region_def)
  have "drop_bit 12 (va - 0x2000) = (0 :: u64)"
    using assms by (auto simp: drop_bit_eq_div)
  then have "va2vpage_info (regions one_page_space ! 0) va four_pages =
      Inr (Some (page_va 0, 0), regions one_page_space ! 0, four_pages)"
    using page_va_nonnull [of 0]
    by (simp add: va2vpage_info_def one_page_space_def va2vpi_idx_def vpi_walk.simps)
  with i show ?thesis
    by (auto simp: write_slot_def one_page_space_def four_pages_def vpi_get_def)
qed


end
