(* ===== verification/Vspace_Copy.thy ===== *)
theory Vspace_Copy
  imports Vspace
begin

text \<open>
  Copying address spaces: \<open>copy_vpi_page\<close> makes a deep copy of a chain of descriptor pages. Every
  used descriptor gets a frame of its own with the same contents, nothing that was in use before
  changes, and the copy fails only when memory is exhausted.
\<close>

section \<open>Frames and chains\<close>

definition frame :: "vpage_info \<Rightarrow> u64" where
  "frame v = P2V (push_bit 12 (ppn v))"

fun vchain :: "'a vs_state_scheme \<Rightarrow> u64 \<Rightarrow> u64 list \<Rightarrow> bool" where
  "vchain s p [] \<longleftrightarrow> p = 0"
| "vchain s p (q # qs) \<longleftrightarrow> p = q \<and> p \<noteq> 0 \<and> length (infos (vpis s p)) = VPIPPAGE \<and>
     vchain s (vnext (vpis s p)) qs"

definition slot_frames :: "'a vs_state_scheme \<Rightarrow> u64 \<Rightarrow> nat list \<Rightarrow> u64 list" where
  "slot_frames s d js = map (\<lambda>j. frame (vpi_get (d, j) s)) (filter (\<lambda>j. used (vpi_get (d, j) s) \<noteq> 0) js)"

definition chain_frames :: "'a vs_state_scheme \<Rightarrow> u64 list \<Rightarrow> u64 list" where
  "chain_frames s ps = concat (map (\<lambda>p. slot_frames s p [0..<VPIPPAGE]) ps)"

lemma slot_frames_cong:
  assumes "\<And>j. j \<in> set js \<Longrightarrow> vpi_get (d, j) s = vpi_get (d, j) s'"
  shows "slot_frames s d js = slot_frames s' d js"
  using assms by (simp add: slot_frames_def cong: filter_cong)

lemma slot_frames_Cons:
  "slot_frames s d (j # js) =
     (if used (vpi_get (d, j) s) \<noteq> 0 then [frame (vpi_get (d, j) s)] else []) @ slot_frames s d js"
  by (simp add: slot_frames_def)

lemma chain_frames_Cons:
  "chain_frames s (p # ps) = slot_frames s p [0..<VPIPPAGE] @ chain_frames s ps"
  by (simp add: chain_frames_def)

lemma frame_PGNUM:
  assumes "page_aligned p"
  shows "P2V (push_bit 12 (PGNUM (V2P p))) = p"
proof -
  have "push_bit 12 (drop_bit 12 x) = x" if "take_bit 12 x = 0" for x :: u64
    using that bits_ident [of 12 x] by simp
  moreover have "take_bit 12 (V2P p) = 0"
  proof -
    obtain k where k: "unat p = 4096 * k" using assms by (auto simp: page_aligned_def)
    then have p: "uint p = 4096 * int k" by (simp add: uint_nat)
    have "uint (V2P p) = (4096 * (int k - 4503599626846208)) mod (4096 * 2 ^ 52)"
      by (simp add: V2P_def uint_word_ariths p)
    also have "\<dots> = 4096 * ((int k - 4503599626846208) mod 2 ^ 52)"
      by (rule mod_mult_mult1)
    finally have "take_bit 12 (uint (V2P p)) = 0" by (simp add: take_bit_eq_mod)
    then show ?thesis by (simp only: word_uint_eq_iff unsigned_take_bit_eq unsigned_0)
  qed
  ultimately show ?thesis by (simp add: PGNUM_def)
qed

section \<open>What was in use stays as it was\<close>

text \<open>Pages of \<open>D\<close> may get new descriptors.\<close>

definition kept :: "u64 set \<Rightarrow> 'a vs_state_scheme \<Rightarrow> 'a vs_state_scheme \<Rightarrow> bool" where
  "kept D s s' \<longleftrightarrow> kmem_ready s' \<and> (\<forall>p. 0 < refs s p \<longrightarrow> refs s' p = refs s p \<and>
     (p \<notin> D \<longrightarrow> vpis s' p = vpis s p) \<and> (\<forall>x. unat (x - p) < 4096 \<longrightarrow> pmem s' x = pmem s x))"

lemma kept_refl: "kmem_ready s \<Longrightarrow> kept D s s"
  by (simp add: kept_def)

lemma kept_trans: "kept D s s' \<Longrightarrow> kept D' s' s'' \<Longrightarrow> (\<And>p. p \<in> D' \<Longrightarrow> p \<in> D \<or> \<not> 0 < refs s p) \<Longrightarrow> kept D s s''"
  unfolding kept_def by (metis (no_types, lifting))

lemma keptD:
  assumes "kept D s s'"
  shows "kmem_ready s'" "0 < refs s p \<Longrightarrow> refs s' p = refs s p"
    and "0 < refs s p \<Longrightarrow> p \<notin> D \<Longrightarrow> vpis s' p = vpis s p"
    and "0 < refs s p \<Longrightarrow> unat (x - p) < 4096 \<Longrightarrow> pmem s' x = pmem s x"
  using assms by (simp_all add: kept_def)

lemma vs_refs [simp]: "refs (s\<lparr>pmem := m\<rparr>) = refs s" "refs (s\<lparr>vpis := v\<rparr>) = refs s"
  by (rule refs_cong; simp)+

lemma vs_avail [simp]: "avail (s\<lparr>pmem := m\<rparr>) = avail s" "avail (s\<lparr>vpis := v\<rparr>) = avail s"
  by (simp_all add: avail_def)

lemma vs_ready [simp]: "kmem_ready (s\<lparr>pmem := m\<rparr>) = kmem_ready s" "kmem_ready (s\<lparr>vpis := v\<rparr>) = kmem_ready s"
  by (simp_all add: kmem_ready_def kmem_wf_def)

lemma vpi_upd_simps [simp]:
  "refs (vpi_upd r f s) = refs s" "avail (vpi_upd r f s) = avail s"
  "kmem_ready (vpi_upd r f s) = kmem_ready s" "pmem (vpi_upd r f s) = pmem s"
  by (simp_all add: vpi_upd_def)

lemma vpi_upd_get:
  assumes "snd r < length (infos (vpis s (fst r)))"
  shows "vpi_get q (vpi_upd r f s) = (if q = r then f (vpi_get r s) else vpi_get q s)"
  using assms by (cases q; cases r) (auto simp: vpi_get_def vpi_upd_def)

lemma vpi_upd_other: "p \<noteq> fst r \<Longrightarrow> vpis (vpi_upd r f s) p = vpis s p"
  by (simp add: vpi_upd_def)

lemma vpi_upd_same [simp]:
  "length (infos (vpis (vpi_upd r f s) p)) = length (infos (vpis s p))"
  "vnext (vpis (vpi_upd r f s) p) = vnext (vpis s p)"
  by (simp_all add: vpi_upd_def)

lemma vs_get [simp]: "vpi_get r (s\<lparr>pmem := m\<rparr>) = vpi_get r s"
  by (simp add: vpi_get_def)

lemma kept_vpi_upd:
  assumes "kmem_ready s" "fst r \<in> D"
  shows "kept D s (vpi_upd r f s)"
proof -
  have "vpis (vpi_upd r f s) p = vpis s p" if "p \<notin> D" for p
    using that assms(2) vpi_upd_other [of p r f s] by metis
  with assms(1) show ?thesis by (simp add: kept_def)
qed

lemma refs_room:
  assumes "kmem_ready s" "0 < refs s p"
  shows "unat p + 4096 < 2 ^ 64"
proof -
  have wf: "kmem_wf s" using assms(1) by (simp add: kmem_ready_def)
  obtain i where i: "i < length (core_map s)" "p = page_va i" by (rule refs_pos [OF assms(2)])
  have "int i < npages s" "npages s < 2 ^ 19" using i(1) wf by (simp_all add: kmem_wf_def)
  then have "i + 1 < 2 ^ 19" by simp
  with i(2) show ?thesis using unat_page_va [of i] by simp
qed

lemma kept_pmem:
  assumes "kmem_ready s" "page_aligned p" "\<not> 0 < refs s p"
    and "\<And>x. \<not> unat (x - p) < 4096 \<Longrightarrow> m x = pmem s x"
  shows "kept D s (s\<lparr>pmem := m\<rparr>)"
proof -
  have "m x = pmem s x" if "0 < refs s q" "unat (x - q) < 4096" for q x
  proof -
    have "q \<noteq> p" using that(1) assms(3) by auto
    then show ?thesis
      using assms(4) pages_disjoint [OF assms(2) kmem.count_aligned [OF assms(1) that(1)] _ that(2)]
      by blast
  qed
  with assms(1) show ?thesis by (simp add: kept_def)
qed

lemma kalloc_vpis:
  fixes s :: "'a vs_state_scheme"
  assumes "kmem_ready s" "kalloc s = Inr (p, s')"
  shows "vpis s' = vpis s"
  using assms by (cases rule: kalloc_cases)
    (simp_all add: kalloc_none_def kalloc_took_def cm_upd_def)

lemma kept_kalloc:
  assumes "kmem_ready s" "kalloc s = Inr (p, s')"
  shows "kept D s s'" and "p \<noteq> 0 \<Longrightarrow> refs s p = 0 \<and> page_aligned p \<and> refs s' = (refs s)(p := 1)"
    and "p = 0 \<Longrightarrow> avail s' = {} \<and> refs s' = refs s"
proof -
  show page: "refs s p = 0 \<and> page_aligned p \<and> refs s' = (refs s)(p := 1)" if "p \<noteq> 0"
    using kalloc_page [OF assms that] avail_page [of s p] assms(1) by (simp add: kmem_ready_def)
  show null: "avail s' = {} \<and> refs s' = refs s" if "p = 0"
    using kalloc_null [OF assms(1)] assms(2) that by simp
  show "kept D s s'"
    using page null kalloc_ready [OF assms] kalloc_memory(1) [OF assms] kalloc_vpis [OF assms]
    by (cases "p = 0") (auto simp: kept_def)
qed

section \<open>Descriptor by descriptor\<close>

text \<open>What \<open>w\<close> must be to be a copy of \<open>v\<close>: the same flags, and a frame with the same bytes.\<close>

definition copy_desc :: "mem \<Rightarrow> mem \<Rightarrow> vpage_info \<Rightarrow> vpage_info \<Rightarrow> bool" where
  "copy_desc m m' v w \<longleftrightarrow>
     (if used v \<noteq> 0 then w = v\<lparr>ppn := ppn w, cow := 0\<rparr> \<and>
        (\<forall>i < 4096. m' (frame w + of_nat i) = m (frame v + of_nat i))
      else w = no_page)"

text \<open>One descriptor: the state after its copy, when a frame \<open>data\<close> was found.\<close>

lemma copy_one:
  assumes "kmem_ready s" "i < length (infos (vpis s dst))" "vpi_get (dst, i) s = no_page"
    and v: "used v \<noteq> 0" "0 < refs s (frame v)"
    and s1: "s1 = vpi_upd (dst, i) (\<lambda>d. d\<lparr>used := used v, present := present v, writable := writable v\<rparr>) s"
    and a: "kalloc s1 = Inr (data, s2)" "data \<noteq> 0"
    and s3: "s3 = s2\<lparr>pmem := memmove (pmem s2) data (frame v) PGSIZE\<rparr>"
    and s4: "s4 = vpi_upd (dst, i) (\<lambda>d. d\<lparr>ppn := PGNUM (V2P data)\<rparr>) s3"
  shows "kept {dst} s s4" "refs s data = 0" "refs s4 = (refs s)(data := 1)"
    and "copy_desc (pmem s) (pmem s4) v (vpi_get (dst, i) s4)" "frame (vpi_get (dst, i) s4) = data"
    and "used (vpi_get (dst, i) s4) = used v"
    and "j \<noteq> i \<Longrightarrow> vpi_get (dst, j) s4 = vpi_get (dst, j) s"
    and "length (infos (vpis s4 dst)) = length (infos (vpis s dst))" "vnext (vpis s4 dst) = vnext (vpis s dst)"
proof -
  have r1: "kmem_ready s1" using assms(1) s1 by simp
  note k = kept_kalloc [OF r1 a(1)]
  have al: "refs s data = 0" "page_aligned data" "refs s2 = (refs s)(data := 1)"
    using k(2) [OF a(2)] s1 by auto
  show "refs s data = 0" "refs s4 = (refs s)(data := 1)" using al s4 s3 by simp_all
  have vp: "vpis s2 = vpis s1" by (rule kalloc_vpis [OF r1 a(1)])
  have m2: "pmem s2 = pmem s" using kalloc_memory(1) [OF r1 a(1)] s1 by simp
  have m4: "pmem s4 = mem_copy (pmem s) data (frame v) 4096" 
    using s4 s3 m2 refs_room [OF assms(1) v(2)] refs_room [OF kalloc_ready [OF r1 a(1)], of data] al(3)
    by (simp add: memmove_copy)
  have g2: "vpi_get q s2 = vpi_get q s1" for q using vp by (simp add: vpi_get_def)
  have len: "i < length (infos (vpis s3 dst))" using s3 vp s1 assms(2) by simp
  have get: "vpi_get (dst, j) s4 = (if j = i then v\<lparr>ppn := PGNUM (V2P data), cow := 0\<rparr> else vpi_get (dst, j) s)" for j
    using len assms(2,3) by (simp add: s4 s3 vpi_upd_get g2 s1 no_page_def)
  show "vpi_get (dst, j) s4 = vpi_get (dst, j) s" if "j \<noteq> i" using get that by simp
  show fr: "frame (vpi_get (dst, i) s4) = data" using get frame_PGNUM [OF al(2)] by (simp add: frame_def)
  show "used (vpi_get (dst, i) s4) = used v" using get by simp
  show "copy_desc (pmem s) (pmem s4) v (vpi_get (dst, i) s4)"
    using v(1) get fr by (simp add: copy_desc_def m4 mem_copy_def unat_of_nat)
  show "length (infos (vpis s4 dst)) = length (infos (vpis s dst))" "vnext (vpis s4 dst) = vnext (vpis s dst)"
    using s4 s3 vp s1 by simp_all
  have "kept {dst} s s1" using assms(1) s1 by (simp add: kept_vpi_upd)
  then have 2: "kept {dst} s s2" using k(1) [of "{dst}"] kept_trans by blast
  have 4: "vpis s4 p = vpis s2 p" if "p \<noteq> dst" for p using that s4 s3 by (simp add: vpi_upd_other)
  have m: "pmem s4 x = pmem s x" if "0 < refs s p" "unat (x - p) < 4096" for p x
  proof -
    have "p \<noteq> data" using that(1) al(1) by auto
    then have "\<not> unat (x - data) < 4096"
      using pages_disjoint [OF al(2) kmem.count_aligned [OF assms(1) that(1)] _ that(2)] by blast
    then show ?thesis by (simp add: m4 mem_copy_def)
  qed
  show "kept {dst} s s4"
    using keptD(1,2,3) [OF 2] 4 m s4 s3 by (auto simp: kept_def)
qed


text \<open>New pages: unreferenced before, referenced once afterwards, and all different.\<close>

definition fresh :: "'a vs_state_scheme \<Rightarrow> 'a vs_state_scheme \<Rightarrow> u64 list \<Rightarrow> bool" where
  "fresh s s' ps \<longleftrightarrow> distinct ps \<and> (\<forall>p \<in> set ps. refs s p = 0 \<and> refs s' p = 1)"

lemma fresh_append:
  assumes "kept D s s1" "fresh s s1 xs" "kept D' s1 s2" "fresh s1 s2 ys"
    and "kmem_ready s"
  shows "fresh s s2 (xs @ ys)"
proof -
  have "refs s p = 0" if "p \<in> set ys" for p
    using that assms(4) keptD(2) [OF assms(1), of p] refs_nonneg [of s p] assms(5)
    by (fastforce simp: fresh_def kmem_ready_def)
  moreover have "refs s2 p = 1" if "p \<in> set xs" for p
    using that assms(2) keptD(2) [OF assms(3), of p] by (simp add: fresh_def)
  moreover have "p \<notin> set ys" if "p \<in> set xs" for p
    using that assms(2,4) by (auto simp: fresh_def)
  ultimately show ?thesis using assms(2,4) by (auto simp: fresh_def)
qed

text \<open>What a source page must satisfy.\<close>

definition src_ok :: "'a vs_state_scheme \<Rightarrow> u64 \<Rightarrow> bool" where
  "src_ok s p \<longleftrightarrow> 0 < refs s p \<and> length (infos (vpis s p)) = VPIPPAGE \<and>
     (\<forall>j < VPIPPAGE. used (vpi_get (p, j) s) \<noteq> 0 \<longrightarrow> 0 < refs s (frame (vpi_get (p, j) s)))"

lemma src_ok_kept: "kept D s s' \<Longrightarrow> p \<notin> D \<Longrightarrow> src_ok s p \<Longrightarrow> src_ok s' p"
  unfolding src_ok_def using keptD [of D s s'] by (simp add: vpi_get_def)

lemma copy_desc_kept:
  assumes "copy_desc m (pmem s) v w" "kept D s s'" "used v \<noteq> 0 \<Longrightarrow> 0 < refs s (frame w)"
  shows "copy_desc m (pmem s') v w"
  using assms(1) keptD(4) [OF assms(2,3)] by (simp add: copy_desc_def unat_of_nat)

text \<open>The result of copying the descriptors from \<open>i\<close> on.\<close>

definition infos_copied :: "nat \<Rightarrow> u64 \<Rightarrow> u64 \<Rightarrow> 'a vs_state_scheme \<Rightarrow> bool \<Rightarrow> 'a vs_state_scheme \<Rightarrow> bool" where
  "infos_copied i dst src s ok s' \<longleftrightarrow> kept {dst} s s' \<and> (\<not> ok \<longrightarrow> avail s' = {}) \<and>
     (ok \<longrightarrow>
       length (infos (vpis s' dst)) = length (infos (vpis s dst)) \<and> vnext (vpis s' dst) = vnext (vpis s dst) \<and>
       (\<forall>j < i. vpi_get (dst, j) s' = vpi_get (dst, j) s) \<and>
       (\<forall>j. i \<le> j \<and> j < VPIPPAGE \<longrightarrow>
          copy_desc (pmem s) (pmem s') (vpi_get (src, j) s) (vpi_get (dst, j) s')) \<and>
       fresh s s' (slot_frames s' dst [i..<VPIPPAGE]))"

lemma infos_copied_unused:
  assumes "infos_copied (Suc i) dst src s ok s'" "i < VPIPPAGE"
    and "vpi_get (dst, i) s = no_page" "used (vpi_get (src, i) s) = 0"
  shows "infos_copied i dst src s ok s'"
proof -
  have g: "vpi_get (dst, i) s' = no_page" if ok using assms(1,3) that by (simp add: infos_copied_def)
  have "slot_frames s' dst [i..<VPIPPAGE] = slot_frames s' dst [Suc i..<VPIPPAGE]" if ok
    using assms(2) g [OF that] by (simp add: upt_conv_Cons [of i] slot_frames_Cons no_page_def)
  moreover have "copy_desc (pmem s) (pmem s') (vpi_get (src, j) s) (vpi_get (dst, j) s')"
    if ok "i \<le> j" "j < VPIPPAGE" for j
    using that assms(1,4) g [OF that(1)]
    by (cases "j = i") (simp_all add: copy_desc_def infos_copied_def)
  ultimately show ?thesis using assms(1) unfolding infos_copied_def by simp
qed

lemma infos_copied_used:
  assumes ic: "infos_copied (Suc i) dst src s4 ok s'" and "i < VPIPPAGE" "src \<noteq> dst" "src_ok s src" "kmem_ready s"
    and one: "kept {dst} s s4" "refs s data = 0" "refs s4 = (refs s)(data := 1)"
      "copy_desc (pmem s) (pmem s4) (vpi_get (src, i) s) (vpi_get (dst, i) s4)" "frame (vpi_get (dst, i) s4) = data"
      "used (vpi_get (dst, i) s4) = used (vpi_get (src, i) s)" "used (vpi_get (src, i) s) \<noteq> 0"
      "\<And>j. j \<noteq> i \<Longrightarrow> vpi_get (dst, j) s4 = vpi_get (dst, j) s"
      "length (infos (vpis s4 dst)) = length (infos (vpis s dst))" "vnext (vpis s4 dst) = vnext (vpis s dst)"
  shows "infos_copied i dst src s ok s'"
proof -
  have k: "kept {dst} s4 s'" using ic by (simp add: infos_copied_def)
  have gi: "vpi_get (dst, i) s' = vpi_get (dst, i) s4" if ok using ic that by (simp add: infos_copied_def)
  have src: "vpi_get (src, j) s4 = vpi_get (src, j) s" for j
    using keptD(3) [OF one(1), of src] assms(3,4) by (simp add: src_ok_def vpi_get_def)
  have ci: "copy_desc (pmem s) (pmem s') (vpi_get (src, i) s) (vpi_get (dst, i) s')" if ok
    using copy_desc_kept [OF one(4) k] gi [OF that] one(3,5) by simp
  have cj: "copy_desc (pmem s) (pmem s') (vpi_get (src, j) s) (vpi_get (dst, j) s')"
    if ok "Suc i \<le> j" "j < VPIPPAGE" for j
  proof -
    have c: "copy_desc (pmem s4) (pmem s') (vpi_get (src, j) s) (vpi_get (dst, j) s')"
      using ic that src by (simp add: infos_copied_def)
    have "pmem s4 (frame (vpi_get (src, j) s) + of_nat k) = pmem s (frame (vpi_get (src, j) s) + of_nat k)"
      if "used (vpi_get (src, j) s) \<noteq> 0" "k < 4096" for k
      using keptD(4) [OF one(1), of "frame (vpi_get (src, j) s)"] that \<open>j < VPIPPAGE\<close> assms(4)
      by (simp add: src_ok_def unat_of_nat)
    with c show ?thesis by (auto simp: copy_desc_def)
  qed
  have "fresh s s4 [data]" using one(2,3) by (simp add: fresh_def)
  then have "fresh s s' ([data] @ slot_frames s' dst [Suc i..<VPIPPAGE])" if ok
    using ic that by (intro fresh_append [OF one(1) _ k _ assms(5)]) (simp_all add: infos_copied_def)
  then have fr: "fresh s s' (slot_frames s' dst [i..<VPIPPAGE])" if ok
    using assms(2) gi [OF that] one(5-7) that by (simp add: upt_conv_Cons [of i] slot_frames_Cons)
  have "copy_desc (pmem s) (pmem s') (vpi_get (src, j) s) (vpi_get (dst, j) s')"
    if ok "i \<le> j" "j < VPIPPAGE" for j
    using that ci cj by (cases "j = i") simp_all
  moreover have "kept {dst} s s'" by (rule kept_trans [OF one(1) k]) simp
  ultimately show ?thesis using ic fr one(8-10) by (simp add: infos_copied_def)
qed

lemma copy_infos_copies:
  assumes "kmem_ready s" "src_ok s src" "src \<noteq> dst" "length (infos (vpis s dst)) = VPIPPAGE" "i + n = VPIPPAGE"
    and "\<forall>j. i \<le> j \<and> j < VPIPPAGE \<longrightarrow> vpi_get (dst, j) s = no_page"
  shows "\<exists>ok s'. copy_infos dst src i n s = Inr (ok, s') \<and> infos_copied i dst src s ok s'"
  using assms
proof (induction n arbitrary: i s)
  case 0
  then have "infos_copied i dst src s True s"
    by (auto simp: infos_copied_def kept_refl slot_frames_def fresh_def)
  then show ?case by auto
next
  case (Suc n)
  define v where "v = vpi_get (src, i) s"
  have i: "i < VPIPPAGE" using Suc.prems(5) by simp
  have free: "vpi_get (dst, i) s = no_page" using Suc.prems(6) i by simp
  show ?case
  proof (cases "used v = 0")
    case True
    then have "\<exists>ok s'. copy_infos dst src (Suc i) n s = Inr (ok, s') \<and> infos_copied (Suc i) dst src s ok s'"
      using Suc.prems by (intro Suc.IH) simp_all
    with True show ?thesis using infos_copied_unused [OF _ i free] by (auto simp: v_def)
  next
    case False
    define s1 where "s1 = vpi_upd (dst, i) (\<lambda>d. d\<lparr>used := used v, present := present v, writable := writable v\<rparr>) s"
    obtain data s2 where a: "kalloc s1 = Inr (data, s2)"
      using kmem.alloc_returns [of s1] Suc.prems(1) by (auto simp: s1_def)
    show ?thesis
    proof (cases "data = 0")
      case True
      have "kept {dst} s s1" using Suc.prems(1) by (simp add: s1_def kept_vpi_upd)
      then have "kept {dst} s s2"
        using kept_trans kept_kalloc(1) [OF _ a] Suc.prems(1) by (fastforce simp: s1_def)
      then have "infos_copied i dst src s False s2"
        using kept_kalloc(3) [OF _ a True] Suc.prems(1) by (simp add: s1_def infos_copied_def)
      with True False a show ?thesis by (auto simp: v_def s1_def Let_def)
    next
      case data: False
      define s3 where "s3 = s2\<lparr>pmem := memmove (pmem s2) data (frame v) PGSIZE\<rparr>"
      define s4 where "s4 = vpi_upd (dst, i) (\<lambda>d. d\<lparr>ppn := PGNUM (V2P data)\<rparr>) s3"
      have fv: "0 < refs s (frame v)" using Suc.prems(2) i False by (simp add: src_ok_def v_def)
      have len: "i < length (infos (vpis s dst))" using i Suc.prems(4) by simp
      note one = copy_one [OF Suc.prems(1) len free False fv s1_def a data s3_def s4_def]
      have "\<exists>ok s'. copy_infos dst src (Suc i) n s4 = Inr (ok, s') \<and> infos_copied (Suc i) dst src s4 ok s'"
        using Suc.prems one(7,8) keptD(1) [OF one(1)] src_ok_kept [OF one(1)]
        by (intro Suc.IH) simp_all
      moreover have "copy_infos dst src i (Suc n) s = copy_infos dst src (Suc i) n s4"
        using False data a by (simp add: v_def s1_def s3_def s4_def frame_def Let_def)
      ultimately show ?thesis
        using infos_copied_used [OF _ i Suc.prems(3,2,1) one(1-3) one(4-6) [unfolded v_def] False [unfolded v_def] one(7-9)] by metis
    qed
  qed
qed

section \<open>Chains\<close>

lemma vchain_kept:
  assumes "vchain s p ps" "kept D s s'" "\<And>q. q \<in> set ps \<Longrightarrow> 0 < refs s q \<and> q \<notin> D"
  shows "vchain s' p ps"
  using assms(1,3)
proof (induction ps arbitrary: p)
  case (Cons q ps)
  then have "vpis s' q = vpis s q" using keptD(3) [OF assms(2)] by simp
  moreover have "vchain s' (vnext (vpis s q)) ps" using Cons.prems by (intro Cons.IH) auto
  ultimately show ?case using Cons.prems(1) by auto
qed simp

lemma slot_frames_kept:
  "kept D s s' \<Longrightarrow> 0 < refs s p \<Longrightarrow> p \<notin> D \<Longrightarrow> slot_frames s' p js = slot_frames s p js"
  using keptD(3) [of D s s' p] by (intro slot_frames_cong) (simp add: vpi_get_def)

text \<open>The chain \<open>qs\<close> in \<open>s'\<close> is a copy of the chain \<open>ps\<close> in \<open>s\<close>.\<close>

definition page_copy :: "'a vs_state_scheme \<Rightarrow> 'a vs_state_scheme \<Rightarrow> u64 \<Rightarrow> u64 \<Rightarrow> bool" where
  "page_copy s s' p q \<longleftrightarrow>
     (\<forall>j < VPIPPAGE. copy_desc (pmem s) (pmem s') (vpi_get (p, j) s) (vpi_get (q, j) s'))"

lemma vpi_clear_simps [simp]:
  "refs (vpi_clear p n s) = refs s" "avail (vpi_clear p n s) = avail s"
  "kmem_ready (vpi_clear p n s) = kmem_ready s" "vpis (vpi_clear p n s) p = no_infos"
  by (simp_all add: vpi_clear_def)

lemma kept_clear:
  assumes "kept {} s0 s" "kmem_ready s0" "refs s0 p = 0" "page_aligned p" "n \<le> 4096"
  shows "kept {} s0 (vpi_clear p n s)"
proof -
  have m: "memset (pmem s) p 0 n x = pmem s x" if "0 < refs s0 q" "unat (x - q) < 4096" for q x
  proof -
    have "q \<noteq> p" using that(1) assms(3) by auto
    then have "\<not> unat (x - p) < 4096"
      using pages_disjoint [OF assms(4) kmem.count_aligned [OF assms(2) that(1)] _ that(2)] by blast
    then show ?thesis using assms(5) by (simp add: memset_fill mem_fill_def)
  qed
  have "vpis (vpi_clear p n s) q = vpis s q" if "0 < refs s0 q" for q
    using that assms(3) by (auto simp: vpi_clear_def)
  then show ?thesis
    using keptD [OF assms(1)] m by (auto simp: kept_def vpi_clear_def)
qed

lemma page_copy_kept:
  assumes "page_copy s2 s3 p q" "kept {} s s2" "src_ok s p" "kept D s3 s4" "\<And>j. vpi_get (q, j) s4 = vpi_get (q, j) s3"
    and "\<And>f. f \<in> set (slot_frames s3 q [0..<VPIPPAGE]) \<Longrightarrow> 0 < refs s3 f"
  shows "page_copy s s4 p q"
  unfolding page_copy_def
proof (intro allI impI)
  fix j assume j: "j < VPIPPAGE"
  let ?v = "vpi_get (p, j) s" and ?w = "vpi_get (q, j) s3"
  have v: "vpi_get (p, j) s2 = ?v" using keptD(3) [OF assms(2), of p] assms(3) by (simp add: src_ok_def vpi_get_def)
  have c: "copy_desc (pmem s2) (pmem s3) ?v ?w" using assms(1) j unfolding page_copy_def v [symmetric] by blast
  have "0 < refs s3 (frame ?w)" if "used ?v \<noteq> 0"
  proof -
    have "used ?w \<noteq> 0" using c that by (cases ?w) (auto simp: copy_desc_def)
    then show ?thesis using assms(6) j by (force simp: slot_frames_def)
  qed
  then have "copy_desc (pmem s2) (pmem s4) ?v ?w" by (rule copy_desc_kept [OF c assms(4)])
  moreover have "pmem s2 (frame ?v + of_nat k) = pmem s (frame ?v + of_nat k)" if "used ?v \<noteq> 0" "k < 4096" for k
    using keptD(4) [OF assms(2), of "frame ?v"] that j assms(3) by (simp add: src_ok_def unat_of_nat)
  ultimately show "copy_desc (pmem s) (pmem s4) ?v (vpi_get (q, j) s4)"
    using assms(5) by (auto simp: copy_desc_def)
qed

definition chain_copied :: "'a vs_state_scheme \<Rightarrow> u64 list \<Rightarrow> int \<Rightarrow> u64 \<Rightarrow> 'a vs_state_scheme \<Rightarrow> bool" where
  "chain_copied s ps rc dst s' \<longleftrightarrow> kept {} s s' \<and>
     (if rc = 0 then \<exists>qs. vchain s' dst qs \<and> list_all2 (page_copy s s') ps qs \<and>
        fresh s s' (qs @ chain_frames s' qs)
      else rc = -1 \<and> avail s' = {})"

text \<open>The first page of the chain and the rest, put together.\<close>

lemma chain_copied_Cons:
  assumes k: "kmem_ready s" "kept {} s s2" "infos_copied 0 dst p s2 True s3" "chain_copied s3 ps rc nxt s4"
    and p: "src_ok s p" "\<forall>q \<in> set ps. src_ok s q"
    and dst: "dst \<noteq> 0" "fresh s s2 [dst]" "length (infos (vpis s2 dst)) = VPIPPAGE"
    and s5: "s5 = s4\<lparr>vpis := (vpis s4)(dst := (vpis s4 dst)\<lparr>vnext := nxt\<rparr>)\<rparr>"
  shows "chain_copied s (p # ps) rc dst s5"
proof -
  have r: "refs s dst = 0" "refs s2 dst = 1" using dst(2) by (simp_all add: fresh_def)
  have 23: "kept {dst} s2 s3" using k(3) by (simp add: infos_copied_def)
  have r3: "refs s3 dst = 1" using keptD(2) [OF 23, of dst] r by simp
  have s3: "kept {} s s3" by (rule kept_trans [OF k(2) 23]) (use r in simp)
  have 34: "kept {} s3 s4" using k(4) by (simp add: chain_copied_def)
  have 45: "kept {dst} s4 s5" using keptD(1) [OF 34] by (simp add: s5 kept_def)
  have s4: "kept {} s s4" by (rule kept_trans [OF s3 34]) simp
  have s5k: "kept {} s s5" by (rule kept_trans [OF s4 45]) (use r in simp)
  have d4: "vpis s4 dst = vpis s3 dst" using keptD(3) [OF 34, of dst] r3 by simp
  have g5: "vpi_get (q, j) s5 = vpi_get (q, j) s4" for q j by (simp add: s5 vpi_get_def)
  have ref5: "refs s5 = refs s4" "pmem s5 = pmem s4" "avail s5 = avail s4" by (simp_all add: s5)
  have fr: "fresh s2 s3 (slot_frames s3 dst [0..<VPIPPAGE])" using k(3) by (simp add: infos_copied_def)
  show ?thesis
  proof (cases "rc = 0")
    case True
    then obtain qs where qs: "vchain s4 nxt qs" "list_all2 (page_copy s3 s4) ps qs"
      "fresh s3 s4 (qs @ chain_frames s4 qs)" using k(4) by (auto simp: chain_copied_def)
    have nd: "dst \<notin> set qs" using qs(3) r3 by (auto simp: fresh_def)
    then have "vchain s5 nxt qs"
      using vchain_kept [OF qs(1) 45] qs(3) by (force simp: fresh_def)
    then have ch: "vchain s5 dst (dst # qs)"
      using dst(1,3) d4 k(3) by (simp add: s5 infos_copied_def)
    have "page_copy s2 s3 p dst" using k(3) by (simp add: infos_copied_def page_copy_def)
    then have "page_copy s s4 p dst"
      using d4 fr by (intro page_copy_kept [OF _ k(2) p(1) 34]) (auto simp: vpi_get_def fresh_def)
    then have first: "page_copy s s5 p dst" by (simp add: page_copy_def g5 ref5)
    have "page_copy s s5 p' q" if "p' \<in> set ps" "q \<in> set qs" "page_copy s3 s4 p' q" for p' q
    proof (rule page_copy_kept [OF that(3) s3 _ 45 g5])
      show "0 < refs s4 f" if "f \<in> set (slot_frames s4 q [0..<VPIPPAGE])" for f
      proof -
        have "f \<in> set (chain_frames s4 qs)" using that \<open>q \<in> set qs\<close> unfolding chain_frames_def set_concat set_map by blast
        then show ?thesis using qs(3) by (simp add: fresh_def)
      qed
    qed (use p(2) that(1) in simp)
    then have rest: "list_all2 (page_copy s s5) ps qs" using qs(2) by (auto intro: list.rel_mono_strong)
    have "fresh s s4 (([dst] @ slot_frames s3 dst [0..<VPIPPAGE]) @ qs @ chain_frames s4 qs)"
      by (rule fresh_append [OF s3 _ 34 qs(3) k(1)]) (rule fresh_append [OF k(2) dst(2) 23 fr k(1)])
    moreover have "slot_frames s5 dst [0..<VPIPPAGE] = slot_frames s3 dst [0..<VPIPPAGE]"
      using d4 by (intro slot_frames_cong) (simp add: g5, simp add: vpi_get_def)
    moreover have "chain_frames s5 qs = chain_frames s4 qs"
      unfolding chain_frames_def by (intro arg_cong [where f = concat] map_cong refl slot_frames_cong) (rule g5)
    ultimately have "fresh s s5 ((dst # qs) @ chain_frames s5 (dst # qs))"
      by (auto simp: fresh_def chain_frames_Cons ref5)
    moreover have "list_all2 (page_copy s s5) (p # ps) (dst # qs)" using first rest by simp
    ultimately show ?thesis using True s5k ch unfolding chain_copied_def if_P [OF True] by blast
  next
    case False
    then show ?thesis using k(4) s5k by (simp add: chain_copied_def ref5)
  qed
qed

lemma copy_vpi_page_copies:
  assumes "kmem_ready s" "vchain s src ps" "\<forall>p \<in> set ps. src_ok s p" "length ps < n"
  shows "\<exists>rc dst s'. copy_vpi_page n src s = Inr (rc, dst, s') \<and> chain_copied s ps rc dst s'"
  using assms
proof (induction n arbitrary: s src ps)
  case (Suc n)
  show ?case
  proof (cases ps)
    case Nil
    then show ?thesis
      using Suc.prems by (auto simp: chain_copied_def kept_refl fresh_def chain_frames_def intro!: exI [of _ "[]"])
  next
    case (Cons p ps')
    then have src: "src = p" "src \<noteq> 0" "vchain s (vnext (vpis s src)) ps'" "src_ok s src"
      using Suc.prems by auto
    obtain dst s1 where a: "kalloc s = Inr (dst, s1)" using kmem.alloc_returns [OF Suc.prems(1)] by blast
    note k = kept_kalloc [OF Suc.prems(1) a]
    show ?thesis
    proof (cases "dst = 0")
      case True
      then have "copy_vpi_page (Suc n) src s = Inr (-1, 0, s1)" using src(2) a by simp
      moreover have "chain_copied s ps (-1) 0 s1" using k(1,3) True by (simp add: chain_copied_def)
      ultimately show ?thesis by blast
    next
      case False
      define s2 where "s2 = vpi_clear dst VPI_PAGE_SIZE s1"
      note dst = k(2) [OF False]
      have s2: "kept {} s s2" unfolding s2_def
        using dst by (intro kept_clear [OF k(1) Suc.prems(1)]) simp_all
      have f2: "fresh s s2 [dst]" using dst by (simp add: fresh_def s2_def)
      have i2: "vpis s2 dst = no_infos" by (simp add: s2_def)
      have nd: "src \<noteq> dst" using src(4) dst by (auto simp: src_ok_def)
      obtain ok s3 where s3: "copy_infos dst src 0 VPIPPAGE s2 = Inr (ok, s3)" "infos_copied 0 dst src s2 ok s3"
        using copy_infos_copies [OF keptD(1) [OF s2] src_ok_kept [OF s2 _ src(4)] nd, of 0 VPIPPAGE]
        by (auto simp: i2 no_infos_def vpi_get_def)
      have 23: "kept {dst} s2 s3" using s3(2) by (simp add: infos_copied_def)
      have sk: "kept {} s s3" by (rule kept_trans [OF s2 23]) (use dst in simp)
      have run: "copy_vpi_page (Suc n) src s =
          (if \<not> ok then Inr (-1, dst, s3)
           else bindr (copy_vpi_page n (vnext (vpis s3 src)) s3) (\<lambda>(rc, nxt, s).
             Inr (rc, dst, s\<lparr>vpis := (vpis s)(dst := (vpis s dst)\<lparr>vnext := nxt\<rparr>)\<rparr>)))"
        using src(2) a False s3(1) by (simp add: s2_def)
      show ?thesis
      proof (cases ok)
        case True
        have "vpis s3 src = vpis s src" using keptD(3) [OF sk, of src] src(4) by (simp add: src_ok_def)
        moreover have ps': "\<forall>q \<in> set ps'. src_ok s q" using Suc.prems(3) Cons by simp
        ultimately obtain rc nxt s4 where s4: "copy_vpi_page n (vnext (vpis s3 src)) s3 = Inr (rc, nxt, s4)"
            "chain_copied s3 ps' rc nxt s4"
          using Suc.IH [OF keptD(1) [OF sk] vchain_kept [OF src(3) sk]] src_ok_kept [OF sk] Suc.prems(4) Cons
          by (auto simp: src_ok_def)
        have "chain_copied s (p # ps') rc dst (s4\<lparr>vpis := (vpis s4)(dst := (vpis s4 dst)\<lparr>vnext := nxt\<rparr>)\<rparr>)"
          using s3(2) True src(1,4)
          by (intro chain_copied_Cons [OF Suc.prems(1) s2 _ s4(2) _ ps' False f2 _ refl])
            (simp_all add: i2 no_infos_def)
        then show ?thesis using run True s4(1) Cons by auto
      next
        case False
        then have "chain_copied s ps (-1) dst s3" using sk s3(2) by (simp add: chain_copied_def infos_copied_def)
        with False run show ?thesis by auto
      qed
    qed
  qed
qed simp

section \<open>All regions of an address space\<close>

text \<open>A chain visits no page twice, so it is no longer than the core map.\<close>

lemma vchain_unique: "vchain s p xs \<Longrightarrow> vchain s p ys \<Longrightarrow> xs = ys"
proof (induction xs arbitrary: p ys)
  case Nil
  then show ?case by (cases ys) auto
next
  case (Cons x xs)
  then show ?case by (cases ys) auto
qed

lemma vchain_suffix: "vchain s p (xs @ q # ys) \<Longrightarrow> vchain s q (q # ys)"
  by (induction xs arbitrary: p) auto

lemma vchain_distinct: "vchain s p ps \<Longrightarrow> distinct ps"
proof (induction ps arbitrary: p)
  case (Cons q qs)
  have "q \<notin> set qs"
  proof
    assume "q \<in> set qs"
    then obtain xs ys where "qs = xs @ q # ys" by (auto simp: in_set_conv_decomp)
    with Cons.prems have "vchain s q (q # xs @ q # ys)" "vchain s q (q # ys)"
      using vchain_suffix [of s p "q # xs" q ys] by auto
    then have "q # xs @ q # ys = q # ys" by (rule vchain_unique)
    then have "length (xs @ q # ys) = length ys" by (metis list.inject)
    then show False by simp
  qed
  moreover have "vchain s (vnext (vpis s p)) qs" using Cons.prems unfolding vchain.simps by blast
  ultimately show ?case using Cons.IH by simp
qed simp

lemma vchain_length:
  assumes "vchain s p ps" "\<forall>q \<in> set ps. 0 < refs s q"
  shows "length ps \<le> length (core_map s)"
proof -
  have "q \<in> page_va ` {..<length (core_map s)}" if q: "q \<in> set ps" for q
    by (rule refs_pos [of s q]) (use assms(2) q in auto)
  then have "card (set ps) \<le> card (page_va ` {..<length (core_map s)})" by (intro card_mono) auto
  also have "\<dots> \<le> length (core_map s)" using card_image_le [of "{..<length (core_map s)}" page_va] by simp
  finally show ?thesis using distinct_card [OF vchain_distinct [OF assms(1)]] by simp
qed

text \<open>The regions \<open>vrs'\<close> with chains \<open>qss\<close> in \<open>s'\<close> are a copy of \<open>vrs\<close> with chains \<open>pss\<close> in \<open>s\<close>.\<close>

definition region_copy :: "'a vs_state_scheme \<Rightarrow> 'a vs_state_scheme \<Rightarrow> u64 list \<Rightarrow> u64 list \<Rightarrow> vregion \<Rightarrow> vregion \<Rightarrow> bool" where
  "region_copy s s' ps qs vr vr' \<longleftrightarrow> vr' = vr\<lparr>pages := pages vr'\<rparr> \<and> vchain s' (pages vr') qs \<and>
     list_all2 (page_copy s s') ps qs"

definition own_pages :: "'a vs_state_scheme \<Rightarrow> u64 list list \<Rightarrow> u64 list" where
  "own_pages s qss = concat (map (\<lambda>qs. qs @ chain_frames s qs) qss)"

definition regions_copied :: "'a vs_state_scheme \<Rightarrow> (vregion \<times> u64 list) list \<Rightarrow> int \<Rightarrow> vregion list \<Rightarrow>
    'a vs_state_scheme \<Rightarrow> bool" where
  "regions_copied s src rc vrs' s' \<longleftrightarrow> kept {} s s' \<and>
     (if rc = 0 then \<exists>qss. length vrs' = length src \<and> length qss = length src \<and>
        (\<forall>k < length src. region_copy s s' (snd (src ! k)) (qss ! k) (fst (src ! k)) (vrs' ! k)) \<and>
        fresh s s' (own_pages s' qss)
      else rc = -1 \<and> avail s' = {})"

definition region_ok :: "'a vs_state_scheme \<Rightarrow> vregion \<times> u64 list \<Rightarrow> bool" where
  "region_ok s = (\<lambda>(vr, ps). vchain s (pages vr) ps \<and> (\<forall>p \<in> set ps. src_ok s p))"

lemma region_ok_kept:
  assumes "kept {} s s'" "region_ok s x"
  shows "region_ok s' x"
  using assms(2) vchain_kept [OF _ assms(1)] src_ok_kept [OF assms(1)]
  by (auto simp: region_ok_def src_ok_def split: prod.splits)

lemma chain_frames_kept:
  assumes "kept {} s s'" "\<forall>q \<in> set qs. 0 < refs s q"
  shows "chain_frames s' qs = chain_frames s qs"
  unfolding chain_frames_def
  using slot_frames_kept [OF assms(1)] assms(2) by (metis (no_types, lifting) empty_iff map_eq_conv)

text \<open>A copy made on the way from \<open>s1\<close> to \<open>s2\<close> is a copy seen from before and after.\<close>

lemma region_copy_kept:
  assumes c: "region_copy s1 s2 ps qs vr vr'" and k: "kept {} s s1" "kept {} s2 s3"
    and ok: "\<forall>p \<in> set ps. src_ok s p" and r: "\<forall>q \<in> set (qs @ chain_frames s2 qs). 0 < refs s2 q"
  shows "region_copy s s3 ps qs vr vr'"
proof -
  have "page_copy s s3 p q" if "p \<in> set ps" "q \<in> set qs" "page_copy s1 s2 p q" for p q
  proof (rule page_copy_kept [OF that(3) k(1) _ k(2)])
    show "src_ok s p" using ok that(1) by simp
    show "vpi_get (q, j) s3 = vpi_get (q, j) s2" for j
      using keptD(3) [OF k(2), of q] r that(2) by (simp add: vpi_get_def)
    show "0 < refs s2 f" if "f \<in> set (slot_frames s2 q [0..<VPIPPAGE])" for f
    proof -
      have "f \<in> set (chain_frames s2 qs)"
        using that \<open>q \<in> set qs\<close> unfolding chain_frames_def set_concat set_map by blast
      then show ?thesis using r by simp
    qed
  qed
  then have "list_all2 (page_copy s s3) ps qs"
    using c unfolding region_copy_def by (auto intro: list.rel_mono_strong)
  moreover have "vchain s3 (pages vr') qs"
    using c r by (intro vchain_kept [OF _ k(2)]) (auto simp: region_copy_def)
  ultimately show ?thesis using c by (simp add: region_copy_def)
qed

lemma regions_copied_Cons:
  assumes "kmem_ready s" "chain_copied s ps 0 p s1" "regions_copied s1 src rc vrs' s2"
    and ok: "\<forall>x \<in> set ((vr, ps) # src). region_ok s x"
  shows "regions_copied s ((vr, ps) # src) rc (vr\<lparr>pages := p\<rparr> # vrs') s2"
proof -
  have k: "kept {} s s1" "kept {} s1 s2" using assms(2,3) by (simp_all add: chain_copied_def regions_copied_def)
  have k2: "kept {} s s2" by (rule kept_trans [OF k]) simp
  obtain qs where qs: "vchain s1 p qs" "list_all2 (page_copy s s1) ps qs" "fresh s s1 (qs @ chain_frames s1 qs)"
    using assms(2) by (auto simp: chain_copied_def)
  have pos: "\<forall>q \<in> set (qs @ chain_frames s1 qs). 0 < refs s1 q" using qs(3) by (simp add: fresh_def)
  show ?thesis
  proof (cases "rc = 0")
    case True
    then obtain qss where qss: "length vrs' = length src" "length qss = length src"
        "\<forall>k < length src. region_copy s1 s2 (snd (src ! k)) (qss ! k) (fst (src ! k)) (vrs' ! k)"
        "fresh s1 s2 (own_pages s2 qss)" using assms(3) by (auto simp: regions_copied_def)
    have first: "region_copy s s2 ps qs vr (vr\<lparr>pages := p\<rparr>)"
      by (rule region_copy_kept [OF _ kept_refl [OF assms(1)] k(2) _ pos])
        (use qs ok in \<open>auto simp: region_copy_def region_ok_def\<close>)
    have rest: "region_copy s s2 (snd (src ! k)) (qss ! k) (fst (src ! k)) (vrs' ! k)" if "k < length src" for k
    proof (rule region_copy_kept [OF _ k(1) kept_refl [OF keptD(1) [OF k(2)]]])
      show "\<forall>q \<in> set (qss ! k @ chain_frames s2 (qss ! k)). 0 < refs s2 q"
        using qss(2,4) that nth_mem [of k qss] by (force simp: fresh_def own_pages_def)
      show "\<forall>p \<in> set (snd (src ! k)). src_ok s p"
        using ok nth_mem [OF that] by (auto simp: region_ok_def split_beta)
    qed (use qss(3) that in simp)
    have cf: "chain_frames s2 qs = chain_frames s1 qs" using pos by (intro chain_frames_kept [OF k(2)]) simp
    have "fresh s s2 (own_pages s2 (qs # qss))"
      using fresh_append [OF k(1) qs(3) k(2) qss(4) assms(1)] by (simp add: own_pages_def cf)
    moreover have "\<forall>k < length ((vr, ps) # src). region_copy s s2 (snd (((vr, ps) # src) ! k)) ((qs # qss) ! k)
        (fst (((vr, ps) # src) ! k)) ((vr\<lparr>pages := p\<rparr> # vrs') ! k)"
      using first rest by (auto simp: less_Suc_eq_0_disj)
    ultimately have "\<exists>qss. length (vr\<lparr>pages := p\<rparr> # vrs') = length ((vr, ps) # src) \<and>
        length qss = length ((vr, ps) # src) \<and>
        (\<forall>k < length ((vr, ps) # src). region_copy s s2 (snd (((vr, ps) # src) ! k)) (qss ! k)
          (fst (((vr, ps) # src) ! k)) ((vr\<lparr>pages := p\<rparr> # vrs') ! k)) \<and> fresh s s2 (own_pages s2 qss)"
      using qss(1,2) by (intro exI [of _ "qs # qss"]) simp
    with True k2 show ?thesis unfolding regions_copied_def by simp
  qed (use assms(3) k2 in \<open>simp add: regions_copied_def\<close>)
qed

lemma copy_regions_copies:
  assumes "kmem_ready s" "\<forall>x \<in> set src. region_ok s x"
  shows "\<exists>rc vrs' s'. copy_regions (map fst src) s = Inr (rc, vrs', s') \<and> regions_copied s src rc vrs' s'"
  using assms
proof (induction src arbitrary: s)
  case Nil
  then show ?case by (simp add: regions_copied_def kept_refl fresh_def own_pages_def)
next
  case (Cons x src)
  obtain vr ps where x: "x = (vr, ps)" by (cases x)
  have vr: "vchain s (pages vr) ps" "\<forall>p \<in> set ps. src_ok s p" using Cons.prems(2) x by (simp_all add: region_ok_def)
  then have "length ps < length (core_map s) + 2"
    using vchain_length [OF vr(1)] by (force simp: src_ok_def)
  then obtain rc p s1 where c: "copy_vpi_page (length (core_map s) + 2) (pages vr) s = Inr (rc, p, s1)"
      "chain_copied s ps rc p s1" using copy_vpi_page_copies [OF Cons.prems(1) vr] by blast
  have k: "kept {} s s1" using c(2) by (simp add: chain_copied_def)
  show ?case
  proof (cases "rc = 0")
    case True
    obtain rc' vrs' s2 where r: "copy_regions (map fst src) s1 = Inr (rc', vrs', s2)" "regions_copied s1 src rc' vrs' s2"
      using Cons.IH [OF keptD(1) [OF k]] region_ok_kept [OF k] Cons.prems(2) by auto
    then have "regions_copied s (x # src) rc' (vr\<lparr>pages := p\<rparr> # vrs') s2"
      using regions_copied_Cons [OF Cons.prems(1) _ r(2), of ps p vr] c(2) True Cons.prems(2) x by simp
    with True c(1) r(1) x show ?thesis by auto
  next
    case False
    then have "regions_copied s (x # src) (-1) (vr\<lparr>pages := p\<rparr> # map fst src) s1" "rc = -1"
      using c(2) by (simp_all add: chain_copied_def regions_copied_def)
    with c(1) x show ?thesis by auto
  qed
qed

text \<open>
  C9. Copying the regions of an address space (the loop of \<open>vspacecopy\<close>) makes a deep copy or
  returns -1 because memory is exhausted. Every region of the copy has the direction, base and
  size of its original and a chain of new descriptor pages whose used descriptors have the
  original flags and frames with the original bytes; the new pages and frames are pairwise
  different, had no reference before and have one afterwards; pages that were in use keep
  their bytes, descriptors and reference counts.
\<close>

theorem copy_regions_deep:
  assumes "kmem_ready s" "\<forall>x \<in> set src. region_ok s x"
  shows "case copy_regions (map fst src) s of Inl e \<Rightarrow> False
    | Inr (rc, vrs', s') \<Rightarrow> regions_copied s src rc vrs' s'"
  using copy_regions_copies [OF assms] by auto

lemma four_pages_ready: "kmem_ready four_pages"
proof -
  have "KBASE \<le> page_va i" if "i < 4" for i
    using that by (intro page_va_base) simp
  then show ?thesis
    by (simp add: kmem_ready_def kmem_wf_def four_pages_def nth_append)
qed

lemma four_pages_region: "region_ok four_pages (regions one_page_space ! 0, [page_va 0])"
proof -
  have wf: "kmem_wf four_pages" using four_pages_ready by (simp add: kmem_ready_def)
  have "refs four_pages (page_va i) = 1" if "i < 2" for i
    using that refs_page_va [OF wf, of i] by (simp add: four_pages_def nth_append)
  then have r: "refs four_pages (page_va 0) = 1" "refs four_pages (page_va 1) = 1" by simp_all
  have "frame \<lparr>used = 1, ppn = 1, present = 1, writable = 1, cow = 0\<rparr> = page_va 1"
    by (simp add: frame_def P2V_def page2pa_def)
  moreover have "(replicate 169 no_page) ! j = no_page" if "j < 169" for j using that by simp
  ultimately have "src_ok four_pages (page_va 0)"
    using r by (simp add: src_ok_def vpi_get_def four_pages_def nth_list_update_if no_page_def)
  then show ?thesis
    using page_va_nonnull [of 0]
    by (simp add: region_ok_def one_page_space_def four_pages_def no_infos_def)
qed

theorem copy_regions_deep_witness:
  "case copy_regions (map fst [(regions one_page_space ! 0, [page_va 0])]) four_pages of Inl e \<Rightarrow> False
    | Inr (rc, vrs', s') \<Rightarrow> regions_copied four_pages [(regions one_page_space ! 0, [page_va 0])] rc vrs' s'"
  by (rule copy_regions_deep) (use four_pages_ready four_pages_region in simp_all)

end
