(* ===== verification/Screen.thy ===== *)
theory Screen
  imports Vspace
begin

text \<open>
  Output of the kernel console, the first half of kernel/console.c and \<open>uartputc\<close> of
  kernel/uart.c: number formatting, \<open>cprintf\<close>, the serial port and the text screen with its
  cursor and scrolling. Characters are ints in the code (\<open>BACKSPACE\<close> is 0x100), 32-bit words here.
\<close>

section \<open>State\<close>

text \<open>
  The screen memory, the cursor registers, whether a serial port was found and what was sent to
  it, and the flags \<open>panicked\<close> and \<open>cons.locking\<close>.
\<close>

record scr_state = vs_state +
  panicked :: bool
  cons_locking :: bool
  crt :: "nat \<Rightarrow> u16"
  crt_pos :: nat
  uart :: bool
  uart_out :: "u8 list"

abbreviation (input) BACKSPACE :: u32 where "BACKSPACE \<equiv> 0x100"

definition chr :: "char \<Rightarrow> u32" where "chr c = of_char c"

section \<open>Characters\<close>

definition uartputc :: "u32 \<Rightarrow> 'a scr_state_scheme \<Rightarrow> 'a scr_state_scheme" where
  "uartputc c s = (if uart s then s\<lparr>uart_out := uart_out s @ [ucast c]\<rparr> else s)"

text \<open>The cells of the screen hold a character and the attribute black on white.\<close>

definition cell :: "u32 \<Rightarrow> u16" where
  "cell c = (ucast c AND 0xff) OR 0x0700"

definition cga_advance :: "u32 \<Rightarrow> 'a scr_state_scheme \<Rightarrow> 'a scr_state_scheme" where
  "cga_advance c s =
     (let pos = crt_pos s in
      if c = chr CHR 0x0A then s\<lparr>crt_pos := pos + (80 - pos mod 80)\<rparr>
      else if c = BACKSPACE then (if pos > 0 then s\<lparr>crt_pos := pos - 1\<rparr> else s)
      else s\<lparr>crt := (crt s)(pos := cell c), crt_pos := pos + 1\<rparr>)"

text \<open>Scrolling: rows 1 to 23 move up by one row and the rest of the last row is cleared.\<close>

definition cga_scroll :: "'a scr_state_scheme \<Rightarrow> 'a scr_state_scheme" where
  "cga_scroll s =
     (if crt_pos s div 80 \<ge> 24 then
        let pos = crt_pos s - 80;
            up = (\<lambda>i. if i < 23 * 80 then crt s (i + 80) else crt s i)
        in s\<lparr>crt_pos := pos, crt := (\<lambda>i. if pos \<le> i \<and> i < 24 * 80 then 0 else up i)\<rparr>
      else s)"

definition cgaputc :: "u32 \<Rightarrow> 'a scr_state_scheme \<Rightarrow> 'a scr_state_scheme stop + 'a scr_state_scheme" where
  "cgaputc c s =
     (let s = cga_advance c s in
      if crt_pos s > 25 * 80 then Inl (Panic ''pos under/overflow'')
      else
        let s = cga_scroll s in
        Inr (s\<lparr>crt := (crt s)(crt_pos s := cell (chr CHR '' ''))\<rparr>))"

definition consputc :: "u32 \<Rightarrow> 'a scr_state_scheme \<Rightarrow> 'a scr_state_scheme stop + 'a scr_state_scheme" where
  "consputc c s =
     (if panicked s then Inl (Fault ''the console is frozen'')
      else if c = BACKSPACE then
        cgaputc c (uartputc (chr CHR 0x08) (uartputc (chr CHR '' '') (uartputc (chr CHR 0x08) s)))
      else cgaputc c (uartputc c s))"

fun consputs :: "u32 list \<Rightarrow> 'a scr_state_scheme \<Rightarrow> 'a scr_state_scheme stop + 'a scr_state_scheme" where
  "consputs [] s = Inr s"
| "consputs (c # cs) s = bindr (consputc c s) (consputs cs)"

section \<open>Numbers\<close>

text \<open>
  The digits the loop stores in \<open>buf\<close>, least significant first. The callers pass the bases 10
  and 16; for bases below 2 the model stops.
\<close>

function digit_loop :: "nat \<Rightarrow> nat \<Rightarrow> nat list" where
  "digit_loop base x =
     (x mod base) # (if x div base = 0 \<or> base < 2 then [] else digit_loop base (x div base))"
  by pat_completeness auto

termination digit_loop
  by (relation "measure snd") (auto simp: div_greater_zero_iff intro: div_less_dividend)

declare digit_loop.simps [simp del]

definition digit_char :: "nat \<Rightarrow> char" where
  "digit_char d = ''0123456789abcdef'' ! d"

text \<open>
  What \<open>printint\<close> and \<open>printint64\<close> print, first character first: the digits of the absolute
  value, computed at the width of the argument, and the sign. \<open>sign\<close> is 0 or 1.
\<close>

definition printint :: "u32 \<Rightarrow> nat \<Rightarrow> bool \<Rightarrow> string" where
  "printint xx base sign =
     (let neg = (sign \<and> sint xx < 0);
          x = (if neg then - xx else xx);
          buf = map digit_char (digit_loop base (unat x)) @ (if neg then ''-'' else [])
      in rev buf)"

definition printint64 :: "u64 \<Rightarrow> nat \<Rightarrow> bool \<Rightarrow> string" where
  "printint64 xx base sign =
     (let neg = (sign \<and> sint xx < 0);
          x = (if neg then - xx else xx);
          buf = map digit_char (digit_loop base (unat x)) @ (if neg then ''-'' else [])
      in rev buf)"

section \<open>Formatted output\<close>

text \<open>
  The variable arguments: an 8-byte word, or a pointer to a string, None for null. Taking an
  argument that is not there, or of the other kind, has no defined result.
\<close>

datatype varg = VWord u64 | VStr "string option"

text \<open>
  The characters the loop of \<open>cprintf\<close> prints. \<open>mode\<close> is None in plain text and \<open>Some lflag\<close>
  after a percent sign.
\<close>

fun cformat :: "string \<Rightarrow> bool option \<Rightarrow> varg list \<Rightarrow> string option" where
  "cformat [] mode args = Some []"
| "cformat (c # fmt) None args =
     (if c = CHR 0x00 then Some []
      else if c \<noteq> CHR ''%'' then map_option (Cons c) (cformat fmt None args)
      else cformat fmt (Some False) args)"
| "cformat (c # fmt) (Some lflag) args =
     (if c = CHR 0x00 then Some []
      else if c = CHR ''d'' then
        (case args of VWord w # args \<Rightarrow>
           map_option (append (if lflag then printint64 w 10 True else printint (ucast w) 10 True))
             (cformat fmt None args)
         | _ \<Rightarrow> None)
      else if c = CHR ''l'' then cformat fmt (Some (\<not> lflag)) args
      else if c = CHR ''x'' \<or> c = CHR ''p'' then
        (case args of VWord w # args \<Rightarrow>
           map_option (append (if lflag then printint64 w 16 False else printint (ucast w) 16 False))
             (cformat fmt None args)
         | _ \<Rightarrow> None)
      else if c = CHR ''s'' then
        (case args of VStr p # args \<Rightarrow>
           map_option (append (case p of None \<Rightarrow> ''(null)'' | Some t \<Rightarrow> t)) (cformat fmt None args)
         | _ \<Rightarrow> None)
      else if c = CHR ''%'' then map_option (Cons (CHR ''%'')) (cformat fmt None args)
      else map_option (append [CHR ''%'', c]) (cformat fmt None args))"

definition cprintf :: "string \<Rightarrow> varg list \<Rightarrow> 'a scr_state_scheme \<Rightarrow>
    'a scr_state_scheme stop + 'a scr_state_scheme" where
  "cprintf fmt args s =
     (let locking = cons_locking s in
      bindr (if locking then acquire LCons s else Inr s) (\<lambda>s.
      bindr (deref ''va_arg'' (cformat fmt None args)) (\<lambda>out.
      bindr (consputs (map chr out) s) (\<lambda>s.
      if locking then release LCons s else Inr s))))"

section \<open>Digits\<close>

fun digit_value :: "nat \<Rightarrow> nat list \<Rightarrow> nat" where
  "digit_value base [] = 0"
| "digit_value base (d # ds) = d + base * digit_value base ds"

lemma digit_loop_value:
  assumes "2 \<le> base"
  shows "digit_value base (digit_loop base x) = x \<and> (\<forall>d \<in> set (digit_loop base x). d < base)"
proof (induction x rule: less_induct)
  case (less x)
  show ?case
  proof (cases "x div base = 0")
    case True
    then have "x < base" using assms by (simp add: div_eq_0_iff)
    then show ?thesis using assms by (simp add: digit_loop.simps [of base x])
  next
    case False
    then have "x div base < x" using assms by (intro div_less_dividend) (auto intro: gr0I)
    note ih = less.IH [OF this]
    have "digit_loop base x = (x mod base) # digit_loop base (x div base)"
      using False assms by (subst digit_loop.simps) simp
    then show ?thesis using ih assms by simp
  qed
qed

lemma digit_loop_length:
  assumes "2 \<le> base" "x < base ^ n" "0 < n"
  shows "length (digit_loop base x) \<le> n"
  using assms(2,3)
proof (induction n arbitrary: x)
  case (Suc n)
  show ?case
  proof (cases "x div base = 0")
    case True
    then show ?thesis by (simp add: digit_loop.simps [of base x])
  next
    case False
    then have "n \<noteq> 0" using Suc.prems(1) by (auto intro: gr0I)
    moreover have "x div base < base ^ n" using Suc.prems(1) assms(1) by (simp add: less_mult_imp_div_less mult.commute)
    ultimately have "length (digit_loop base (x div base)) \<le> n" using Suc.IH by simp
    then show ?thesis using False assms(1) by (subst digit_loop.simps) simp
  qed
qed simp

text \<open>The buffers are large enough: 16 bytes for \<open>printint\<close>, 32 for \<open>printint64\<close>.\<close>

lemma printint_fits:
  "length (printint xx 10 sign) \<le> 11" "length (printint xx 16 sign) \<le> 9"
proof -
  have "unat y < 10 ^ 10" "unat y < 16 ^ 8" for y :: u32 using unsigned_less [of y, where ?'a = nat] by simp_all
  then have "length (digit_loop 10 (unat y)) \<le> 10" "length (digit_loop 16 (unat y)) \<le> 8" for y :: u32
    by (auto intro!: digit_loop_length)
  then show "length (printint xx 10 sign) \<le> 11" "length (printint xx 16 sign) \<le> 9"
    by (simp_all add: printint_def Let_def le_trans [of _ 10 11] le_trans [of _ 8 9])
qed

section \<open>The screen\<close>


definition blank_screen :: scr_state where
  "blank_screen = vs_state.extend four_pages \<lparr>panicked = False, cons_locking = True,
     crt = (\<lambda>_. 0), crt_pos = 1919, uart = True, uart_out = []\<rparr>"


end
