(* ===== verification/Proc.thy ===== *)
theory Proc
  imports Screen
begin

text \<open>
  The process table, kernel/proc.c and inc/proc.h: allocation of processes, the scheduler,
  sleeping and waking up, killing, waiting for children. \<open>fork\<close>, \<open>exit\<close> and \<open>fork_guest\<close>, which
  use open files and the disk, are in \<open>Proc_Life\<close>.

  A process that gives up the CPU in \<open>sched\<close> ends the operation with \<open>Asleep s\<close>; what it does
  when the scheduler switches back to it is a separate definition, named after the function
  with \<open>_resume\<close>.
\<close>

section \<open>Types\<close>

datatype procstate = UNUSED | EMBRYO | SLEEPING | RUNNABLE | RUNNING | ZOMBIE

text \<open>What a \<open>void *chan\<close> can point to.\<close>

datatype channel =
    ChNone | ChProc nat | ChTicks | ChSleep slid | ChBuf nat | ChPipeR u64 | ChPipeW u64 | ChInput

record app_va_segment =
  owned :: int
  bound :: u64
  midpoint :: u64
  base :: u64

text \<open>The registers of \<open>struct trap_frame\<close> in memory order, eight bytes each.\<close>

datatype trap_reg =
    RAX | RBX | RCX | RDX | RBP | RSI | RDI | R8 | R9 | R10 | R11 | R12 | R13 | R14 | R15
  | TRAPNO | ERR | RIP | CS | RFLAGS | RSP | SS

definition trap_regs :: "trap_reg list" where
  "trap_regs = [RAX, RBX, RCX, RDX, RBP, RSI, RDI, R8, R9, R10, R11, R12, R13, R14, R15,
     TRAPNO, ERR, RIP, CS, RFLAGS, RSP, SS]"

definition tf_off :: "trap_reg \<Rightarrow> u64" where
  "tf_off r = 8 * of_nat (length (takeWhile (\<lambda>x. x \<noteq> r) trap_regs))"

abbreviation (input) TF_SIZE :: nat where "TF_SIZE \<equiv> 176"

text \<open>\<open>struct context\<close>: eight registers; \<open>rbp\<close> and \<open>rip\<close> are the last two.\<close>

abbreviation (input) CTX_SIZE :: nat where "CTX_SIZE \<equiv> 64"

abbreviation (input) NPROC :: nat where "NPROC \<equiv> 64"
abbreviation (input) NOFILE :: nat where "NOFILE \<equiv> 16"
abbreviation (input) SHELL_PID :: int where "SHELL_PID \<equiv> 3"
abbreviation (input) GUEST_PID :: int where "GUEST_PID \<equiv> 2"
abbreviation (input) KSTACKSIZE :: u64 where "KSTACKSIZE \<equiv> 4096"
abbreviation (input) MAX_PHYS_PAGES :: nat where "MAX_PHYS_PAGES \<equiv> 5000"

text \<open>
  Pointers to processes are indices of the table, pointers to open files indices of the file
  table. The trap frame and the context are addresses inside the kernel stack page. The name
  is the C string in the 16-byte field.
\<close>

record proc =
  pvspace :: vspace
  kstack :: u64
  pstate :: procstate
  pid :: int
  cid :: int
  parent :: "nat option"
  tf :: u64
  pcontext :: u64
  pchan :: channel
  killed :: int
  pname :: string
  ofile :: "nat option list"
  syscall_buffer :: u64
  user_pages :: "nat \<Rightarrow> u8"
  app_processes :: "app_va_segment list"
  is_guest_os :: int

text \<open>
  The process table, the CPU's current process and kernel stack pointer, and the static
  variables of proc.c. The addresses of \<open>forkret\<close> and \<open>trapret\<close> are fixed at link time.
\<close>

record proc_state = scr_state +
  ptable :: "proc list"
  cur :: "nat option"
  rsp0 :: u64
  initproc :: "nat option"
  nextpid :: int
  nextcid :: int
  first :: bool
  forkret_pc :: u64
  trapret_pc :: u64

definition pget :: "nat \<Rightarrow> 'a proc_state_scheme \<Rightarrow> proc" where
  "pget i s = ptable s ! i"

definition pupd :: "nat \<Rightarrow> (proc \<Rightarrow> proc) \<Rightarrow> 'a proc_state_scheme \<Rightarrow> 'a proc_state_scheme" where
  "pupd i f s = s\<lparr>ptable := (ptable s)[i := f (ptable s ! i)]\<rparr>"

definition myproc :: "'a proc_state_scheme \<Rightarrow> 'a proc_state_scheme stop + nat" where
  "myproc s = deref ''myproc is null'' (cur s)"

definition tf_get :: "nat \<Rightarrow> trap_reg \<Rightarrow> 'a proc_state_scheme \<Rightarrow> u64" where
  "tf_get i r s = rd64 (pmem s) (tf (pget i s) + tf_off r)"

definition tf_set :: "nat \<Rightarrow> trap_reg \<Rightarrow> u64 \<Rightarrow> 'a proc_state_scheme \<Rightarrow> 'a proc_state_scheme" where
  "tf_set i r v s = s\<lparr>pmem := wr64 (pmem s) (tf (pget i s) + tf_off r) v\<rparr>"

section \<open>Allocation\<close>

definition pinit :: "'a proc_state_scheme \<Rightarrow> 'a proc_state_scheme" where
  "pinit s = s\<lparr>held := held s - {LPtable}\<rparr>"

text \<open>The kernel stack of a new process: trap frame, return address, context.\<close>

definition init_kstack :: "nat \<Rightarrow> u64 \<Rightarrow> 'a proc_state_scheme \<Rightarrow> 'a proc_state_scheme" where
  "init_kstack i stack s =
     (let frame = stack + KSTACKSIZE - of_nat TF_SIZE;
          ctx = frame - 8 - of_nat CTX_SIZE;
          m = wr64 (pmem s) (frame - 8) (trapret_pc s);
          m = memset m ctx 0 CTX_SIZE;
          m = wr64 m (ctx + 56) (forkret_pc s)
      in pupd i (\<lambda>p. p\<lparr>tf := frame, pcontext := ctx\<rparr>) (s\<lparr>pmem := m\<rparr>))"

definition allocproc :: "int \<Rightarrow> 'a proc_state_scheme \<Rightarrow>
    'a proc_state_scheme stop + nat option \<times> 'a proc_state_scheme" where
  "allocproc c s =
     bindr (acquire LPtable s) (\<lambda>s.
     case first_idx (\<lambda>p. pstate p = UNUSED) (ptable s) of
       None \<Rightarrow> bindr (release LPtable s) (\<lambda>s. Inr (None, s))
     | Some i \<Rightarrow>
         let s = pupd i (\<lambda>p. p\<lparr>pstate := EMBRYO, pid := nextpid s, cid := c\<rparr>) s;
             s = s\<lparr>nextpid := nextpid s + 1\<rparr> in
         bindr (release LPtable s) (\<lambda>s.
         bindr (kalloc s) (\<lambda>(stack, s).
           let s = pupd i (\<lambda>p. p\<lparr>kstack := stack\<rparr>) s in
           if stack = 0 then Inr (None, pupd i (\<lambda>p. p\<lparr>pstate := UNUSED\<rparr>) s)
           else Inr (Some i, init_kstack i stack s))))"

text \<open>\<open>init\<close> is the program linked into the kernel image.\<close>

definition userinit :: "u8 list \<Rightarrow> 'a proc_state_scheme \<Rightarrow>
    'a proc_state_scheme stop + 'a proc_state_scheme" where
  "userinit init s =
     bindr (allocproc 0 s) (\<lambda>(p, s).
     let s = s\<lparr>initproc := p\<rparr> in
     bindr (deref ''null pointer'' p) (\<lambda>p.
     bindr (vspaceinit (pvspace (pget p s)) s) (\<lambda>(rc, vs, s).
     let s = pupd p (\<lambda>q. q\<lparr>pvspace := vs\<rparr>) s in
     bindr (kassert ''error initializing process's virtual address descriptor'' (rc = 0)) (\<lambda>_.
     bindr (vspaceinitcode vs init s) (\<lambda>(vs, s).
     let s = pupd p (\<lambda>q. q\<lparr>pvspace := vs\<rparr>) s;
         s = s\<lparr>pmem := memset (pmem s) (tf (pget p s)) 0 TF_SIZE\<rparr>;
         s = tf_set p CS 0x23 s;
         s = tf_set p SS 0x2B s;
         s = tf_set p RFLAGS 0x200 s;
         s = tf_set p RIP (VRBOT (regions vs ! VR_CODE)) s;
         s = tf_set p RSP (VRTOP (regions vs ! VR_USTACK)) s;
         s = pupd p (\<lambda>q. q\<lparr>pname := ''initcode''\<rparr>) s in
     bindr (acquire LPtable s) (\<lambda>s.
     release LPtable (pupd p (\<lambda>q. q\<lparr>pstate := RUNNABLE\<rparr>) s)))))))"

section \<open>Looking up processes\<close>

definition findproc :: "int \<Rightarrow> 'a proc_state_scheme \<Rightarrow> nat option" where
  "findproc n s = first_idx (\<lambda>p. pid p = n) (ptable s)"

definition num_children :: "'a proc_state_scheme \<Rightarrow> nat" where
  "num_children s = length (filter (\<lambda>p. parent p = cur s \<and> pstate p \<noteq> ZOMBIE \<and> pstate p \<noteq> UNUSED) (ptable s))"

text \<open>The channel a process pointer stands for.\<close>

definition proc_chan :: "nat option \<Rightarrow> channel" where
  "proc_chan p = (case p of None \<Rightarrow> ChNone | Some i \<Rightarrow> ChProc i)"

section \<open>Switching\<close>

definition vspaceinstall :: "nat option \<Rightarrow> 'a proc_state_scheme \<Rightarrow>
    'a proc_state_scheme stop + 'a proc_state_scheme" where
  "vspaceinstall p s =
     (case p of None \<Rightarrow> Inl (Panic ''mrinstall: null proc'')
      | Some i \<Rightarrow>
          if kstack (pget i s) = 0 then Inl (Panic ''mrinstall: null kstack'')
          else if pgtbl (pvspace (pget i s)) = 0 then Inl (Panic ''mrinstall: page table not initialized'')
          else Inr (s\<lparr>rsp0 := kstack (pget i s) + KSTACKSIZE, cr3 := V2P (pgtbl (pvspace (pget i s)))\<rparr>))"

text \<open>
  The nesting depth \<open>ncli\<close> is the number of held locks. The last test of \<open>sched\<close>, that
  interrupts are off, holds whenever a lock is held.
\<close>

definition sched :: "'a proc_state_scheme \<Rightarrow> 'a proc_state_scheme stop + 'a proc_state_scheme" where
  "sched s =
     (if \<not> holding LPtable s then Inl (Panic ''sched ptable.lock'')
      else if card (held s) \<noteq> 1 then
        bindr (myproc s) (\<lambda>me.
        bindr (cprintf ''pid : %d\<newline>'' [VWord (word_of_int (pid (pget me s)))] s) (\<lambda>s.
        bindr (cprintf ''ncli : %d\<newline>'' [VWord (of_nat (card (held s)))] s) (\<lambda>s.
        bindr (cprintf ''intena : %d\<newline>'' [VWord 0] s) (\<lambda>s. Inl (Panic ''sched locks'')))))
      else
        bindr (myproc s) (\<lambda>me.
        if pstate (pget me s) = RUNNING then Inl (Panic ''sched running'')
        else Inl (Asleep s)))"

definition yield :: "'a proc_state_scheme \<Rightarrow> 'a proc_state_scheme stop + 'a proc_state_scheme" where
  "yield s =
     bindr (acquire LPtable s) (\<lambda>s.
     bindr (myproc s) (\<lambda>me.
     bindr (sched (pupd me (\<lambda>p. p\<lparr>pstate := RUNNABLE\<rparr>) s)) (release LPtable)))"

definition yield_resume :: "'a proc_state_scheme \<Rightarrow> 'a proc_state_scheme stop + 'a proc_state_scheme" where
  "yield_resume s = release LPtable s"

text \<open>
  The scheduler, from the point where it looks at slot \<open>pos\<close> with the table locked: the next
  runnable slot of this pass, or of the next pass (which releases and takes the lock again in
  between). None: nothing is runnable and the CPU waits for an interrupt.
\<close>

definition scheduler_scan :: "nat \<Rightarrow> 'a proc_state_scheme \<Rightarrow> nat option" where
  "scheduler_scan pos s =
     (case first_from (\<lambda>p. pstate p = RUNNABLE) (drop pos (ptable s)) pos of
        Some i \<Rightarrow> Some i
      | None \<Rightarrow> first_from (\<lambda>p. pstate p = RUNNABLE) (ptable s) 0)"

text \<open>Entering process \<open>i\<close>, up to \<open>swtch\<close>, and what follows when it comes back.\<close>

definition scheduler_enter :: "nat \<Rightarrow> 'a proc_state_scheme \<Rightarrow>
    'a proc_state_scheme stop + 'a proc_state_scheme" where
  "scheduler_enter i s =
     bindr (vspaceinstall (Some i) (s\<lparr>cur := Some i\<rparr>)) (\<lambda>s.
     Inr (pupd i (\<lambda>p. p\<lparr>pstate := RUNNING\<rparr>) s))"

definition scheduler_back :: "'a proc_state_scheme \<Rightarrow> 'a proc_state_scheme" where
  "scheduler_back s = (vspaceinstallkern s)\<lparr>cur := None\<rparr>"

section \<open>Sleeping and waking up\<close>

definition sleep :: "channel \<Rightarrow> lockid \<Rightarrow> 'a proc_state_scheme \<Rightarrow>
    'a proc_state_scheme stop + 'a proc_state_scheme" where
  "sleep ch lk s =
     (case cur s of None \<Rightarrow> Inl (Panic ''sleep'')
      | Some me \<Rightarrow>
          bindr (if lk \<noteq> LPtable then bindr (acquire LPtable s) (release lk) else Inr s) (\<lambda>s.
          sched (pupd me (\<lambda>p. p\<lparr>pchan := ch, pstate := SLEEPING\<rparr>) s)))"

definition sleep_resume :: "lockid \<Rightarrow> 'a proc_state_scheme \<Rightarrow>
    'a proc_state_scheme stop + 'a proc_state_scheme" where
  "sleep_resume lk s =
     bindr (myproc s) (\<lambda>me.
     let s = pupd me (\<lambda>p. p\<lparr>pchan := ChNone\<rparr>) s in
     if lk \<noteq> LPtable then bindr (release LPtable s) (acquire lk) else Inr s)"

definition sleep_process :: "channel \<Rightarrow> 'a proc_state_scheme \<Rightarrow>
    'a proc_state_scheme stop + 'a proc_state_scheme" where
  "sleep_process ch s =
     bindr (acquire LPtable s) (\<lambda>s. bindr (sleep ch LPtable s) (release LPtable))"

definition sleep_process_resume :: "'a proc_state_scheme \<Rightarrow>
    'a proc_state_scheme stop + 'a proc_state_scheme" where
  "sleep_process_resume s = bindr (sleep_resume LPtable s) (release LPtable)"

definition sleep_process2 :: "channel \<Rightarrow> 'a proc_state_scheme \<Rightarrow>
    'a proc_state_scheme stop + 'a proc_state_scheme" where
  "sleep_process2 ch s = sleep ch LPtable s"

definition wake :: "(proc \<Rightarrow> bool) \<Rightarrow> proc \<Rightarrow> proc" where
  "wake P p = (if pstate p = SLEEPING \<and> P p then p\<lparr>pstate := RUNNABLE\<rparr> else p)"

definition wakeup1 :: "channel \<Rightarrow> 'a proc_state_scheme \<Rightarrow> 'a proc_state_scheme" where
  "wakeup1 ch s = s\<lparr>ptable := map (wake (\<lambda>p. pchan p = ch)) (ptable s)\<rparr>"

definition wakeup :: "channel \<Rightarrow> 'a proc_state_scheme \<Rightarrow>
    'a proc_state_scheme stop + 'a proc_state_scheme" where
  "wakeup ch s =
     bindr (if proc_chan (findproc GUEST_PID s) = ch then cprintf ''waking up guest in wak\<newline>'' [] s
            else Inr s) (\<lambda>s.
     bindr (acquire LPtable s) (\<lambda>s.
     let s = wakeup1 ch s in
     bindr (if proc_chan (findproc GUEST_PID s) = ch then
              bindr (cprintf ''done waking up guest in wak\<newline>'' [] s) (\<lambda>s.
              bindr (deref ''null pointer'' (findproc GUEST_PID s)) (\<lambda>g.
              if pstate (pget g s) = RUNNABLE then cprintf ''guest is runnable\<newline>'' [] s else Inr s))
            else Inr s)
       (release LPtable)))"

definition lock_ptable :: "'a proc_state_scheme \<Rightarrow> 'a proc_state_scheme stop + 'a proc_state_scheme" where
  "lock_ptable s = acquire LPtable s"

definition unlock_ptable :: "'a proc_state_scheme \<Rightarrow> 'a proc_state_scheme stop + 'a proc_state_scheme" where
  "unlock_ptable s = release LPtable s"

definition wakeup_children :: "'a proc_state_scheme \<Rightarrow>
    'a proc_state_scheme stop + 'a proc_state_scheme" where
  "wakeup_children s =
     bindr (acquire LPtable s) (\<lambda>s.
     release LPtable (s\<lparr>ptable := map (wake (\<lambda>p. parent p = cur s)) (ptable s)\<rparr>))"

definition kill :: "int \<Rightarrow> 'a proc_state_scheme \<Rightarrow> 'a proc_state_scheme stop + int \<times> 'a proc_state_scheme" where
  "kill n s =
     bindr (acquire LPtable s) (\<lambda>s.
     case first_idx (\<lambda>p. pid p = n) (ptable s) of
       Some i \<Rightarrow>
         let s = pupd i (\<lambda>p. p\<lparr>killed := 1\<rparr>) s;
             s = (if pstate (pget i s) = SLEEPING then pupd i (\<lambda>p. p\<lparr>pstate := RUNNABLE\<rparr>) s else s) in
         bindr (release LPtable s) (\<lambda>s. Inr (0, s))
     | None \<Rightarrow> bindr (release LPtable s) (\<lambda>s. Inr (-1, s)))"

section \<open>Waiting for children\<close>

text \<open>Collecting the exited child in slot \<open>i\<close>.\<close>

definition reap :: "nat \<Rightarrow> 'a proc_state_scheme \<Rightarrow> 'a proc_state_scheme stop + int \<times> 'a proc_state_scheme" where
  "reap i s =
     (let n = pid (pget i s) in
      bindr (kfree (kstack (pget i s)) s) (\<lambda>s.
      let s = pupd i (\<lambda>p. p\<lparr>kstack := 0\<rparr>) s in
      bindr (vspacefree (pvspace (pget i s)) s) (\<lambda>(vs, s).
      Inr (n, pupd i (\<lambda>p. p\<lparr>pvspace := vs, pid := 0, parent := None, pname := [], killed := 0,
                 pstate := UNUSED\<rparr>) s))))"

text \<open>One round of the loop; a round that finds no exited child sleeps.\<close>

definition wait_loop :: "'a proc_state_scheme \<Rightarrow> 'a proc_state_scheme stop + int \<times> 'a proc_state_scheme" where
  "wait_loop s =
     bindr (myproc s) (\<lambda>me.
     case first_idx (\<lambda>p. parent p = Some me \<and> pstate p = ZOMBIE) (ptable s) of
       Some i \<Rightarrow> bindr (reap i s) (\<lambda>(n, s). bindr (release LPtable s) (\<lambda>s. Inr (n, s)))
     | None \<Rightarrow>
         if (\<forall>p \<in> set (ptable s). parent p \<noteq> Some me) \<or> killed (pget me s) \<noteq> 0 then
           bindr (release LPtable s) (\<lambda>s. Inr (-1, s))
         else
           bindr (if pid (pget me s) = SHELL_PID then cprintf ''sleeping shell\<newline>'' [] s else Inr s) (\<lambda>s.
           bindr (sleep (ChProc me) LPtable s) (\<lambda>s. Inr (0, s))))"

definition wait :: "'a proc_state_scheme \<Rightarrow> 'a proc_state_scheme stop + int \<times> 'a proc_state_scheme" where
  "wait s = bindr (acquire LPtable s) wait_loop"

definition wait_resume :: "'a proc_state_scheme \<Rightarrow> 'a proc_state_scheme stop + int \<times> 'a proc_state_scheme" where
  "wait_resume s = bindr (sleep_resume LPtable s) wait_loop"

section \<open>Listing\<close>

definition state_name :: "procstate \<Rightarrow> string" where
  "state_name st = (case st of UNUSED \<Rightarrow> ''unused'' | EMBRYO \<Rightarrow> ''embryo'' | SLEEPING \<Rightarrow> ''sleep ''
     | RUNNABLE \<Rightarrow> ''runble'' | RUNNING \<Rightarrow> ''run   '' | ZOMBIE \<Rightarrow> ''zombie'')"

fun print_pcs :: "u64 list \<Rightarrow> 'a scr_state_scheme \<Rightarrow> 'a scr_state_scheme stop + 'a scr_state_scheme" where
  "print_pcs [] s = Inr s"
| "print_pcs (pc # pcs) s =
     (if pc = 0 then Inr s else bindr (cprintf '' %p'' [VWord pc] s) (print_pcs pcs))"

fun procdump_loop :: "proc list \<Rightarrow> 'a scr_state_scheme \<Rightarrow> 'a scr_state_scheme stop + 'a scr_state_scheme" where
  "procdump_loop [] s = Inr s"
| "procdump_loop (p # ps) s =
     (if pstate p = UNUSED then procdump_loop ps s
      else
        bindr (cprintf ''%d %s %s'' [VWord (word_of_int (pid p)), VStr (Some (state_name (pstate p))),
                 VStr (Some (pname p))] s) (\<lambda>s.
        bindr (if pstate p = SLEEPING then
                 print_pcs (getcallerpcs (rd64 (pmem s)) (rd64 (pmem s) (pcontext p + 48))) s
               else Inr s) (\<lambda>s.
        bindr (cprintf ''\<newline>'' [] s) (procdump_loop ps))))"

definition procdump :: "'a proc_state_scheme \<Rightarrow> 'a proc_state_scheme stop + 'a proc_state_scheme" where
  "procdump s = procdump_loop (ptable s) s"

end
