(* ===== verification/Vspace_Frame.thy ===== *)
theory Vspace_Frame
  imports Vspace
begin

text \<open>
  What the memory layers leave alone: the allocator, the page tables and the address spaces
  change neither the set of held locks nor anything of the layers above them, and they never
  give up the CPU.
\<close>

definition vfrm :: "'a vs_state_scheme \<Rightarrow> 'a vs_state_scheme \<Rightarrow> bool" where
  "vfrm s s' \<longleftrightarrow> vs_state.more s' = vs_state.more s \<and> held s' = held s"

lemma vfrm_refl [simp]: "vfrm s s"
  by (simp add: vfrm_def)

lemma vfrm_trans: "vfrm s s' \<Longrightarrow> vfrm s' s'' \<Longrightarrow> vfrm s s''"
  by (simp add: vfrm_def)

lemma vfrm_simps [simp]:
  "vfrm s (t\<lparr>pmem := m\<rparr>) = vfrm s t"
  "vfrm s (t\<lparr>vpis := v\<rparr>) = vfrm s t"
  "vfrm s (t\<lparr>core_map := c\<rparr>) = vfrm s t"
  "vfrm s (t\<lparr>pages_in_use := n\<rparr>) = vfrm s t"
  "vfrm s (t\<lparr>free_pages := n\<rparr>) = vfrm s t"
  "vfrm s (t\<lparr>kpml4 := x\<rparr>) = vfrm s t"
  "vfrm s (t\<lparr>cr3 := x\<rparr>) = vfrm s t"
  "vfrm s (cm_upd r f t) = vfrm s t"
  "vfrm s (vpi_upd q g t) = vfrm s t"
  "vfrm s (vpi_clear p k t) = vfrm s t"
  by (simp_all add: vfrm_def cm_upd_def vpi_upd_def vpi_clear_def)

section \<open>The allocator and the page tables\<close>

lemma kalloc_frame:
  "vfrm s0 s \<Longrightarrow> wp (\<lambda>(p, s'). vfrm s0 s') Q (kalloc s)"
  by (auto simp: kalloc_def wp_eq kmem_acquire_def kmem_release_def vfrm_def cm_upd_def Let_def
      split: option.split)

lemma kfree_frame: "vfrm s0 s \<Longrightarrow> wp (vfrm s0) Q (kfree v s)"
  by (auto simp: kfree_def wp_eq kmem_acquire_def kmem_release_def pa2page_def vfrm_def cm_upd_def Let_def)

lemmas kalloc_wp = kalloc_frame [THEN wp_post]

lemmas kfree_wp = kfree_frame [THEN wp_post]

lemma mark_user_mem_frame: "vfrm s0 s \<Longrightarrow> wp (vfrm s0) Q (mark_user_mem pa va s)"
  by (auto simp: mark_user_mem_def wp_eq pa2page_def)

lemma kincref_frame: "vfrm s0 s \<Longrightarrow> wp (vfrm s0) Q (kincref pa s)"
  by (auto simp: kincref_def wp_eq pa2page_def)

lemma walk_level_frame: "vfrm s0 s \<Longrightarrow> wp (\<lambda>(r, s'). vfrm s0 s') Q (walk_level e alloc s)"
  by (auto simp: walk_level_def wp_eq Let_def intro!: kalloc_wp)

lemmas walk_level_wp = walk_level_frame [THEN wp_post]

lemma walkpml4_frame: "vfrm s0 s \<Longrightarrow> wp (\<lambda>(r, s'). vfrm s0 s') Q (walkpml4 pml4 va alloc s)"
  by (auto simp: walkpml4_def wp_eq intro!: walk_level_wp split: option.split)

lemmas walkpml4_wp = walkpml4_frame [THEN wp_post]

lemma mappages_frame: "vfrm s0 s \<Longrightarrow> wp (\<lambda>(r, s'). vfrm s0 s') Q (mappages pml4 v n p perm kern s)"
proof (induction n arbitrary: v p s)
  case (Suc n)
  then show ?case
    by (auto simp: wp_eq Let_def intro!: walkpml4_wp mark_user_mem_frame [THEN wp_post])
qed simp

lemmas mappages_wp = mappages_frame [THEN wp_post]

lemma map_kmap_frame: "vfrm s0 s \<Longrightarrow> wp (\<lambda>(r, s'). vfrm s0 s') Q (map_kmap pml4 ks s)"
proof (induction ks arbitrary: s)
  case (Cons k ks)
  then show ?case by (cases k) (auto simp: wp_eq intro!: mappages_wp)
qed simp

lemma setupkvm_frame: "vfrm s0 s \<Longrightarrow> wp (\<lambda>(r, s'). vfrm s0 s') Q (setupkvm s)"
  by (auto simp: setupkvm_def wp_eq intro!: kalloc_wp map_kmap_frame)

lemma wp_find_next: "(\<And>a. P a) \<Longrightarrow> wp P Q (find_next_possible_page pml4 va s)"
  by (simp add: find_next_possible_page_def Let_def)

lemma dealloc_loop_frame: "vfrm s0 s \<Longrightarrow> wp (vfrm s0) Q (dealloc_loop n pml4 a stop s)"
proof (induction n arbitrary: a s)
  case (Suc n)
  then show ?case
    by (auto simp: wp_eq Let_def intro!: walkpml4_wp kfree_wp wp_find_next)
qed simp

lemma deallocuvm_frame: "vfrm s0 s \<Longrightarrow> wp (\<lambda>(r, s'). vfrm s0 s') Q (deallocuvm pml4 a b c s)"
  by (auto simp: deallocuvm_def wp_eq simp del: dealloc_loop.simps intro!: dealloc_loop_frame [THEN wp_post])

lemma freevm_pgdir_frame: "vfrm s0 s \<Longrightarrow> wp (vfrm s0) Q (freevm_pgdir p s)"
  unfolding freevm_pgdir_def wp_bindr
  by (rule wp_for_range [where I = "vfrm s0", THEN wp_post]) (auto simp: Let_def intro!: kfree_frame)

lemma freevm_pdpt_frame: "vfrm s0 s \<Longrightarrow> wp (vfrm s0) Q (freevm_pdpt p s)"
  unfolding freevm_pdpt_def wp_bindr
  by (rule wp_for_range [where I = "vfrm s0", THEN wp_post]) (auto simp: Let_def intro!: kfree_frame freevm_pgdir_frame)

lemma freevm_frame: "vfrm s0 s \<Longrightarrow> wp (vfrm s0) Q (freevm p s)"
proof -
  assume s: "vfrm s0 s"
  have "wp (vfrm s0) Q (bindr (for_range 0 512 (\<lambda>i s.
         let e = rd64 (pmem s) (ent p i) in
         if e AND PTE_P \<noteq> 0 then freevm_pdpt (P2V (PTE_ADDR e)) s else Inr s) t) (kfree p))"
    if "vfrm s0 t" for t
    unfolding wp_bindr
    by (rule wp_for_range [where I = "vfrm s0", THEN wp_post])
      (use that in \<open>auto simp: Let_def intro!: freevm_pdpt_frame kfree_frame\<close>)
  then show ?thesis
    using s by (auto simp: freevm_def wp_eq intro!: deallocuvm_frame [THEN wp_post])
qed

section \<open>Address spaces\<close>

lemma vpi_walk_frame: "vfrm s0 s \<Longrightarrow> wp (\<lambda>(r, s'). vfrm s0 s') Q (vpi_walk info idx s)"
proof (induction idx arbitrary: info s rule: less_induct)
  case (less idx)
  then show ?case
    by (subst vpi_walk.simps) (auto simp: wp_eq Let_def intro!: kalloc_wp)
qed

lemma va2vpage_info_frame: "vfrm s0 s \<Longrightarrow> wp (\<lambda>(r, vr, s'). vfrm s0 s') Q (va2vpage_info vr va s)"
  by (auto simp: va2vpage_info_def wp_eq intro!: kalloc_wp vpi_walk_frame [THEN wp_post])

lemmas va2vpage_info_wp = va2vpage_info_frame [THEN wp_post]

text \<open>A loop over pages, for the two ways it ends.\<close>

lemma for_pages_frame:
  assumes "vfrm s0 (snd b)" "\<And>a b. vfrm s0 (snd b) \<Longrightarrow> wp (case_sum (\<lambda>(rc, vr, s). vfrm s0 s) (\<lambda>b. vfrm s0 (snd b))) Q (f a b)"
    and "\<And>rc vr s. vfrm s0 s \<Longrightarrow> P (Inl (rc, vr, s))" "\<And>b. vfrm s0 (snd b) \<Longrightarrow> P (Inr b)"
  shows "wp P Q (for_pages n a stop f b)"
  by (rule wp_for_pages [where I = "\<lambda>b. vfrm s0 (snd b)" and P = "\<lambda>(rc, vr, s). vfrm s0 s", THEN wp_post])
    (use assms in \<open>auto split: sum.splits\<close>)

lemma vregionaddmap_frame:
  "vfrm s0 s \<Longrightarrow> wp (\<lambda>(rc, vr, s'). vfrm s0 s') Q (vregionaddmap vr a sz prs wrt s)"
  unfolding vregionaddmap_def
  by (auto simp: wp_eq Let_def intro!: for_pages_frame va2vpage_info_wp kalloc_wp split: option.split)

lemma vregiondelmap_frame:
  "vfrm s0 s \<Longrightarrow> wp (\<lambda>(rc, vr, s'). vfrm s0 s') Q (vregiondelmap vr a sz s)"
  unfolding vregiondelmap_def
  by (auto simp: wp_eq Let_def intro!: for_pages_frame va2vpage_info_wp kfree_wp split: option.split)

lemma map_region_frame: "vfrm s0 s \<Longrightarrow> wp (\<lambda>(vr, s'). vfrm s0 s') Q (map_region pml4 vr s)"
proof -
  assume s: "vfrm s0 s"
  have "wp (case_sum (\<lambda>r. vfrm s0 (snd r)) (\<lambda>r. vfrm s0 (snd r))) Q
     (for_pages (page_fuel (VRTOP vr)) (VRBOT vr) (VRTOP vr)
       (\<lambda>a (vr, s).
          bindr (va2vpage_info vr a s) (\<lambda>(r, vr, s).
          bindr (deref ''null pointer'' r) (\<lambda>r.
          bindr (mappages pml4 (drop_bit 12 a) 1 (ppn (vpi_get r s)) (x86perms (vpi_get r s)) 0 s)
            (\<lambda>(_, s). Inr (Inr (vr, s))))))
       (vr, s))"
    by (rule wp_for_pages) (use s in \<open>auto simp: wp_eq simp del: mappages.simps intro!: va2vpage_info_wp mappages_wp\<close>)
  then show ?thesis
    unfolding map_region_def wp_bindr wp_kassert
    by (auto elim!: wp_post split: sum.splits)
qed

lemma map_regions_frame: "vfrm s0 s \<Longrightarrow> wp (\<lambda>(vrs, s'). vfrm s0 s') Q (map_regions pml4 vrs s)"
proof (induction vrs arbitrary: s)
  case (Cons vr vrs)
  then show ?case
    by (auto simp: wp_eq intro!: map_region_frame [THEN wp_post] Cons.IH [THEN wp_post])
qed simp

lemma vspaceinvalidate_frame: "vfrm s0 s \<Longrightarrow> wp (\<lambda>(vs, s'). vfrm s0 s') Q (vspaceinvalidate vs s)"
  unfolding vspaceinvalidate_def wp_bindr
  by (rule wp_for_range [where I = "vfrm s0", THEN wp_post])
    (auto simp: Let_def wp_eq intro!: freevm_pdpt_frame [THEN wp_post] map_regions_frame [THEN wp_post])

lemma vspaceinit_frame: "vfrm s0 s \<Longrightarrow> wp (\<lambda>(rc, vs, s'). vfrm s0 s') Q (vspaceinit vs s)"
  by (auto simp: vspaceinit_def wp_eq intro!: setupkvm_frame [THEN wp_post])

lemma free_page_desc_list_frame: "vfrm s0 s \<Longrightarrow> wp (vfrm s0) Q (free_page_desc_list n p s)"
proof (induction n arbitrary: p s)
  case (Suc n)
  then show ?case
    by (auto simp: wp_eq intro!: Suc.IH [THEN wp_post] kfree_frame)
qed simp

lemma free_regions_frame: "vfrm s0 s \<Longrightarrow> wp (vfrm s0) Q (free_regions vrs s)"
proof (induction vrs arbitrary: s)
  case (Cons vr vrs)
  then show ?case
    by (auto simp: wp_eq simp del: free_page_desc_list.simps intro!: free_page_desc_list_frame [THEN wp_post])
qed simp

lemma vspacefree_frame: "vfrm s0 s \<Longrightarrow> wp (\<lambda>(vs, s'). vfrm s0 s') Q (vspacefree vs s)"
  by (auto simp: vspacefree_def wp_eq Let_def intro!: free_regions_frame [THEN wp_post] freevm_frame [THEN wp_post])

lemma copy_infos_frame: "vfrm s0 s \<Longrightarrow> wp (\<lambda>(ok, s'). vfrm s0 s') Q (copy_infos dst src i n s)"
proof (induction n arbitrary: i s)
  case (Suc n)
  then show ?case by (auto simp: wp_eq Let_def intro!: kalloc_wp)
qed simp

lemma copy_vpi_page_frame: "vfrm s0 s \<Longrightarrow> wp (\<lambda>(rc, p, s'). vfrm s0 s') Q (copy_vpi_page n src s)"
proof (induction n arbitrary: src s)
  case (Suc n)
  then show ?case
    by (auto simp: wp_eq intro!: kalloc_wp copy_infos_frame [THEN wp_post] Suc.IH [THEN wp_post])
qed simp

lemma copy_regions_frame: "vfrm s0 s \<Longrightarrow> wp (\<lambda>(rc, vrs, s'). vfrm s0 s') Q (copy_regions vrs s)"
proof (induction vrs arbitrary: s)
  case (Cons vr vrs)
  then show ?case
    by (auto simp: wp_eq Let_def simp del: copy_vpi_page.simps
      intro!: copy_vpi_page_frame [THEN wp_post] Cons.IH [THEN wp_post])
qed simp

lemma vspacecopy_frame: "vfrm s0 s \<Longrightarrow> wp (\<lambda>(rc, vs, s'). vfrm s0 s') Q (vspacecopy dst src s)"
  by (auto simp: vspacecopy_def wp_eq Let_def
    intro!: copy_regions_frame [THEN wp_post] vspaceinvalidate_frame [THEN wp_post])

end
