(* ===== verification/Proc_Inv.thy ===== *)
theory Proc_Inv
  imports Proc Vspace_Frame
begin

text \<open>
  The process table through scheduling, sleeping, waking, killing, allocating and collecting
  processes: one process runs at a time, it is the one the CPU points to, and no two processes
  have the same number.
\<close>

section \<open>Frames\<close>

definition pfrm :: "'a scr_state_scheme \<Rightarrow> 'a scr_state_scheme \<Rightarrow> bool" where
  "pfrm s s' \<longleftrightarrow> scr_state.more s' = scr_state.more s \<and> held s' = held s"

lemma pfrm_refl [simp]: "pfrm s s"
  by (simp add: pfrm_def)

lemma pfrm_trans: "pfrm s s' \<Longrightarrow> pfrm s' s'' \<Longrightarrow> pfrm s s''"
  by (simp add: pfrm_def)

lemma vfrm_pfrm:
  fixes s s' :: "'a scr_state_scheme"
  shows "vfrm s s' \<Longrightarrow> pfrm s s'"
  by (cases s; cases s') (simp add: vfrm_def pfrm_def)

lemma screen_frames [simp]:
  "pfrm s (uartputc c t) = pfrm s t" "pfrm s (cga_advance c t) = pfrm s t"
  "pfrm s (cga_scroll t) = pfrm s t" "pfrm s (t\<lparr>crt := f\<rparr>) = pfrm s t"
  by (simp_all add: pfrm_def uartputc_def cga_advance_def cga_scroll_def Let_def)

lemma consputc_frame: "wp (pfrm s) Q (consputc c s)"
  by (simp add: consputc_def cgaputc_def Let_def)

lemma consputs_frame: "wp (pfrm s) Q (consputs cs s)"
proof (induction cs arbitrary: s)
  case (Cons c cs)
  have "wp (pfrm s) Q (consputs cs t)" if "pfrm s t" for t
    by (rule wp_post [OF Cons.IH]) (rule pfrm_trans [OF that])
  then show ?case by (simp add: wp_bindr) (rule wp_post [OF consputc_frame])
qed simp

lemma cprintf_frame: "wp (pfrm s) Q (cprintf fmt args s)"
proof (cases "cons_locking s")
  case True
  let ?t = "s\<lparr>held := insert LCons (held s)\<rparr>"
  have "LCons \<in> held u \<longrightarrow> pfrm s (u\<lparr>held := held u - {LCons}\<rparr>)" if "pfrm ?t u" "LCons \<notin> held s" for u
    using that by (auto simp: pfrm_def)
  then have "wp (\<lambda>u. LCons \<in> held u \<longrightarrow> pfrm s (u\<lparr>held := held u - {LCons}\<rparr>)) Q (consputs (map chr out) ?t)"
    if "LCons \<notin> held s" for out
    using that by (intro wp_post [OF consputs_frame]) auto
  with True show ?thesis by (simp add: cprintf_def wp_eq)
next
  case False
  then show ?thesis by (simp add: cprintf_def wp_eq consputs_frame)
qed

lemma pfrm_fields:
  assumes "pfrm s s'"
  shows "ptable s' = ptable s" "cur s' = cur s" "nextpid s' = nextpid s" "held s' = held s"
  using assms by (cases s; cases s'; simp add: pfrm_def)+

lemmas pfrm_wp = cprintf_frame [THEN wp_post]

text \<open>Operations on processes leave the layers above them alone.\<close>

definition pmore :: "'a proc_state_scheme \<Rightarrow> 'a proc_state_scheme \<Rightarrow> bool" where
  "pmore s s' \<longleftrightarrow> proc_state.more s' = proc_state.more s"

lemma pmore_refl [simp]: "pmore s s"
  by (simp add: pmore_def)

lemma pmore_trans: "pmore s s' \<Longrightarrow> pmore s' s'' \<Longrightarrow> pmore s s''"
  by (simp add: pmore_def)

lemma pmore_simps [simp]:
  "pmore s (t\<lparr>held := h\<rparr>) = pmore s t" "pmore s (pupd i f t) = pmore s t"
  "pmore s (wakeup1 ch t) = pmore s t" "pmore s (t\<lparr>ptable := ps\<rparr>) = pmore s t"
  "pmore s (scheduler_back t) = pmore s t"
  by (simp_all add: pmore_def pupd_def wakeup1_def scheduler_back_def vspaceinstallkern_def)

lemma pfrm_pmore: "pfrm s s' \<Longrightarrow> pmore s s'"
  by (cases s; cases s') (simp add: pfrm_def pmore_def)

lemma cprintf_pmore: "pmore s0 s \<Longrightarrow> wp (pmore s0) Q (cprintf fmt args s)"
  by (rule wp_post [OF cprintf_frame]) (blast intro: pmore_trans pfrm_pmore)

lemma wakeup_pmore: "pmore s0 s \<Longrightarrow> wp (pmore s0) Q (wakeup ch s)"
  by (auto simp: wakeup_def wp_eq Let_def intro!: cprintf_pmore [THEN wp_post])

lemma sched_pmore: "pmore s0 s \<Longrightarrow> wp P (pmore s0) (sched s)"
  by (auto simp: sched_def wp_eq myproc_def intro!: pfrm_wp)

lemma sleep_pmore: "pmore s0 s \<Longrightarrow> wp P (pmore s0) (sleep ch lk s)"
  by (auto simp: sleep_def wp_eq intro!: sched_pmore split: option.split)

lemma sleep_resume_pmore: "pmore s0 s \<Longrightarrow> wp (pmore s0) Q (sleep_resume lk s)"
  by (auto simp: sleep_resume_def wp_eq myproc_def Let_def)

text \<open>Sleeping with one lock held.\<close>

lemma sleep_total:
  assumes "cur s = Some me" "held s = {lk}" "lk \<noteq> LPtable" "me < length (ptable s)"
  shows "sleep ch lk s = Inl (Asleep (pupd me (\<lambda>p. p\<lparr>pchan := ch, pstate := SLEEPING\<rparr>) (s\<lparr>held := {LPtable}\<rparr>)))"
proof -
  have "insert LPtable {lk} - {lk} = {LPtable}" using assms(3) by auto
  then show ?thesis using assms by (auto simp: sleep_def sched_def holding_def myproc_def pget_def pupd_def)
qed

text \<open>Waking up where the channel is not a process.\<close>

lemma wakeup_plain:
  assumes "\<And>p. proc_chan p \<noteq> ch" "LPtable \<notin> held s"
  shows "wakeup ch s = Inr (wakeup1 ch s)"
proof -
  have "insert LPtable (held s) - {LPtable} = held s" using assms(2) by auto
  then show ?thesis using assms by (simp add: wakeup_def wakeup1_def)
qed

section \<open>The invariant\<close>

definition ptable_ok :: "'a proc_state_scheme \<Rightarrow> bool" where
  "ptable_ok s \<longleftrightarrow>
     (\<forall>i < length (ptable s). pstate (ptable s ! i) = RUNNING \<longleftrightarrow> cur s = Some i) \<and>
     (\<forall>i. cur s = Some i \<longrightarrow> i < length (ptable s)) \<and>
     1 \<le> nextpid s \<and> (\<forall>i < length (ptable s). 0 \<le> pid (ptable s ! i) \<and> pid (ptable s ! i) < nextpid s) \<and>
     (\<forall>i < length (ptable s). \<forall>j < length (ptable s).
        pid (ptable s ! i) = pid (ptable s ! j) \<and> pid (ptable s ! i) \<noteq> 0 \<longrightarrow> i = j)"

text \<open>Changes that start or stop no process and give none a new number.\<close>

definition same_runs :: "proc \<Rightarrow> proc \<Rightarrow> bool" where
  "same_runs p p' \<longleftrightarrow> (pstate p' = RUNNING \<longleftrightarrow> pstate p = RUNNING) \<and> (pid p' = pid p \<or> pid p' = 0)"

lemma ptable_okD:
  assumes "ptable_ok s"
  shows "i < length (ptable s) \<Longrightarrow> pstate (ptable s ! i) = RUNNING \<longleftrightarrow> cur s = Some i"
    and "cur s = Some i \<Longrightarrow> i < length (ptable s)" "1 \<le> nextpid s"
    and "i < length (ptable s) \<Longrightarrow> 0 \<le> pid (ptable s ! i) \<and> pid (ptable s ! i) < nextpid s"
    and "i < length (ptable s) \<Longrightarrow> j < length (ptable s) \<Longrightarrow> pid (ptable s ! i) = pid (ptable s ! j) \<Longrightarrow>
      pid (ptable s ! i) \<noteq> 0 \<Longrightarrow> i = j"
  using assms unfolding ptable_ok_def by blast+

lemma ptable_ok_same:
  assumes ok: "ptable_ok s" and l: "list_all2 same_runs (ptable s) (ptable s')"
    and "cur s' = cur s" "nextpid s' = nextpid s"
  shows "ptable_ok s'"
proof -
  have len: "length (ptable s') = length (ptable s)" using l by (simp add: list_all2_lengthD)
  have same: "pstate (ptable s' ! i) = RUNNING \<longleftrightarrow> pstate (ptable s ! i) = RUNNING"
      "pid (ptable s' ! i) = pid (ptable s ! i) \<or> pid (ptable s' ! i) = 0" if "i < length (ptable s)" for i
    using list_all2_nthD [OF l that] by (simp_all add: same_runs_def)
  have "pstate (ptable s' ! i) = RUNNING \<longleftrightarrow> cur s' = Some i" if "i < length (ptable s)" for i
    using same(1) [OF that] ptable_okD(1) [OF ok that] assms(3) by simp
  moreover have "0 \<le> pid (ptable s' ! i) \<and> pid (ptable s' ! i) < nextpid s" if "i < length (ptable s)" for i
    using same(2) [OF that] ptable_okD(3) [OF ok] ptable_okD(4) [OF ok that] by auto
  moreover have "i = j" if "i < length (ptable s)" "j < length (ptable s)"
      "pid (ptable s' ! i) = pid (ptable s' ! j) \<and> pid (ptable s' ! i) \<noteq> 0" for i j
    using ptable_okD(5) [OF ok that(1,2)] same(2) [OF that(1)] same(2) [OF that(2)] that(3) by auto
  ultimately show ?thesis
    using ptable_okD(2,3) [OF ok] assms(3,4) unfolding ptable_ok_def len by simp
qed

lemma same_runs_refl [simp]: "same_runs p p"
  by (simp add: same_runs_def)

lemma list_all2_upd:
  assumes "\<And>x. R x x" "i < length xs \<Longrightarrow> R (xs ! i) y"
  shows "list_all2 R xs (xs[i := y])"
  using assms by (cases "i < length xs") (auto simp: list_all2_conv_all_nth nth_list_update_if)

lemma ptable_ok_pupd:
  assumes "ptable_ok s" "i < length (ptable s) \<Longrightarrow> same_runs (ptable s ! i) (f (ptable s ! i))"
  shows "ptable_ok (pupd i f s)"
  by (rule ptable_ok_same [OF assms(1)]) (use assms(2) in \<open>auto simp: pupd_def intro!: list_all2_upd\<close>)

lemma ptable_ok_pfrm: "pfrm s s' \<Longrightarrow> ptable_ok s \<Longrightarrow> ptable_ok s'"
  using pfrm_fields [of s s'] by (simp add: ptable_ok_def)

lemma ptable_ok_held [simp]: "ptable_ok (s\<lparr>held := h\<rparr>) = ptable_ok s"
  by (simp add: ptable_ok_def)

lemma ptable_ok_pmem [simp]: "ptable_ok (s\<lparr>pmem := h\<rparr>) = ptable_ok s"
  by (simp add: ptable_ok_def)

text \<open>The state a process leaves to the scheduler.\<close>

definition ptable_off :: "'a proc_state_scheme \<Rightarrow> bool" where
  "ptable_off t \<longleftrightarrow> ptable_ok (scheduler_back t)"

lemma ptable_off_stop:
  assumes "ptable_ok s" "cur s = Some me" "pid (f (ptable s ! me)) = pid (ptable s ! me)"
    and "pstate (f (ptable s ! me)) \<noteq> RUNNING"
  shows "ptable_off (pupd me f s)"
proof -
  have me: "me < length (ptable s)" using assms(1,2) by (simp add: ptable_ok_def)
  have nth: "(ptable s)[me := f (ptable s ! me)] ! i = (if i = me then f (ptable s ! me) else ptable s ! i)" for i
    using me by (simp add: nth_list_update_if)
  have eq: "pid (if i = me then f (ptable s ! me) else ptable s ! i) = pid (ptable s ! i)" for i
    using assms(3) by simp
  show ?thesis
    using assms(1,2,4)
    by (auto simp: ptable_off_def ptable_ok_def scheduler_back_def vspaceinstallkern_def pupd_def nth eq)
qed

lemma sched_wp:
  assumes "cur s \<noteq> None \<Longrightarrow> pstate (pget (the (cur s)) s) \<noteq> RUNNING \<Longrightarrow> Q s"
  shows "wp P Q (sched s)"
  using assms
  by (auto simp: sched_def wp_eq myproc_def intro!: pfrm_wp)

section \<open>Operations keep it\<close>

lemma sleep_ok: "ptable_ok s \<Longrightarrow> wp P ptable_off (sleep ch lk s)"
  by (auto simp: sleep_def wp_eq intro!: sched_wp ptable_off_stop split: option.split)

lemma yield_ok: "ptable_ok s \<Longrightarrow> wp ptable_ok ptable_off (yield s)"
  by (auto simp: yield_def wp_eq myproc_def intro!: sched_wp ptable_off_stop)

lemma sleep_resume_ok: "ptable_ok s \<Longrightarrow> wp ptable_ok Q (sleep_resume lk s)"
  by (auto simp: sleep_resume_def wp_eq myproc_def Let_def same_runs_def intro!: ptable_ok_pupd)

lemma sleep_process_ok: "ptable_ok s \<Longrightarrow> wp ptable_ok ptable_off (sleep_process ch s)"
  by (auto simp: sleep_process_def wp_eq intro!: sleep_ok)

lemma wake_same [simp]: "same_runs p (wake P p)"
  by (simp add: wake_def same_runs_def)

lemma wake_map_ok: "ptable_ok s \<Longrightarrow> ptable_ok (s\<lparr>ptable := map (wake P) (ptable s)\<rparr>)"
  by (erule ptable_ok_same) (simp_all add: list_all2_conv_all_nth)

lemma wakeup1_ok: "ptable_ok s \<Longrightarrow> ptable_ok (wakeup1 ch s)"
  by (simp add: wakeup1_def wake_map_ok)

lemma wakeup_ok: "ptable_ok s \<Longrightarrow> wp ptable_ok Q (wakeup ch s)"
proof -
  have "wp ptable_ok Q (cprintf m [] s)" if "ptable_ok s" for m and s :: "'a proc_state_scheme"
    by (rule wp_post [OF cprintf_frame]) (rule ptable_ok_pfrm [OF _ that])
  note pr = this [THEN wp_post]
  assume "ptable_ok s"
  then show ?thesis
    by (auto simp: wakeup_def wp_eq Let_def intro!: pr wakeup1_ok)
qed

lemma wakeup_children_ok: "ptable_ok s \<Longrightarrow> wp ptable_ok Q (wakeup_children s)"
  using wake_map_ok [of "s\<lparr>held := insert LPtable (held s)\<rparr>"] by (simp add: wakeup_children_def wp_eq)

lemma kill_ok: "ptable_ok s \<Longrightarrow> wp (\<lambda>(rc, s'). ptable_ok s') Q (kill n s)"
  by (auto simp: kill_def wp_eq Let_def same_runs_def pget_def split: option.split intro!: ptable_ok_pupd)

lemma reap_ok:
  assumes "ptable_ok s" "pstate (ptable s ! i) = ZOMBIE"
  shows "wp (\<lambda>(n, s'). ptable_ok s') Q (reap i s)"
proof -
  let ?f = "\<lambda>vs p. p\<lparr>pvspace := vs, pid := 0, parent := None, pname := [], killed := 0, pstate := UNUSED\<rparr>"
  have step: "ptable_ok (pupd i (?f vs) u)"
    if t: "ptable_ok t" "pstate (ptable t ! i) = ZOMBIE" and u: "vfrm (pupd i (\<lambda>p. p\<lparr>kstack := 0\<rparr>) t) u"
    for vs and t u :: "'a proc_state_scheme"
  proof (rule ptable_ok_pupd)
    have "ptable_ok (pupd i (\<lambda>p. p\<lparr>kstack := 0\<rparr>) t)"
      by (rule ptable_ok_pupd [OF t(1)]) (simp add: same_runs_def)
    then show "ptable_ok u" by (rule ptable_ok_pfrm [OF vfrm_pfrm [OF u]])
    show "same_runs (ptable u ! i) (?f vs (ptable u ! i))" if "i < length (ptable u)"
      using t(2) that pfrm_fields(1) [OF vfrm_pfrm [OF u]] by (simp add: pupd_def same_runs_def)
  qed
  have "wp (\<lambda>(n, s'). ptable_ok s') Q
      (bindr (vspacefree vs (pupd i (\<lambda>p. p\<lparr>kstack := 0\<rparr>) t)) (\<lambda>(vs, s). Inr (n, pupd i (?f vs) s)))"
    if "vfrm s t" for vs n t
  proof -
    have "ptable_ok t" "pstate (ptable t ! i) = ZOMBIE"
      using ptable_ok_pfrm [OF vfrm_pfrm [OF that]] pfrm_fields(1) [OF vfrm_pfrm [OF that]] assms by simp_all
    then show ?thesis
      unfolding wp_bindr by (intro wp_post [OF vspacefree_frame [OF vfrm_refl]]) (auto intro!: step)
  qed
  then show ?thesis
    by (auto simp: reap_def Let_def wp_bindr intro!: wp_post [OF kfree_frame [OF vfrm_refl]])
qed

lemma wait_loop_ok: "ptable_ok s \<Longrightarrow> wp (\<lambda>(n, s'). ptable_ok s') ptable_off (wait_loop s)"
proof -
  assume ok: "ptable_ok s"
  have "ptable_ok t" if "pfrm s t" for t using ptable_ok_pfrm that ok by blast
  then show ?thesis
    using ok
    by (auto simp: wait_loop_def wp_eq myproc_def split: option.split
      intro!: reap_ok [THEN wp_post] sleep_ok pfrm_wp dest: first_idx_Some(2))
qed

lemma wait_ok: "ptable_ok s \<Longrightarrow> wp (\<lambda>(n, s'). ptable_ok s') ptable_off (wait s)"
  by (auto simp: wait_def wp_eq intro!: wait_loop_ok)

lemma wait_resume_ok: "ptable_ok s \<Longrightarrow> wp (\<lambda>(n, s'). ptable_ok s') ptable_off (wait_resume s)"
  by (auto simp: wait_resume_def wp_eq intro!: sleep_resume_ok [THEN wp_post] wait_loop_ok)

text \<open>A new process gets the next number.\<close>

lemma ptable_ok_new:
  assumes ok: "ptable_ok s" and i: "i < length (ptable s)" "pstate (ptable s ! i) \<noteq> RUNNING"
    and x: "pid x = nextpid s" "pstate x \<noteq> RUNNING"
    and s': "ptable s' = (ptable s)[i := x]" "cur s' = cur s" "nextpid s' = nextpid s + 1"
  shows "ptable_ok s'"
proof -
  have nth: "ptable s' ! k = (if k = i then x else ptable s ! k)" for k
    using i(1) s'(1) by (simp add: nth_list_update_if)
  have len: "length (ptable s') = length (ptable s)" using s'(1) by simp
  have lt: "0 \<le> pid (ptable s ! k) \<and> pid (ptable s ! k) < nextpid s" if "k < length (ptable s)" for k
    using ptable_okD(4) [OF ok that] .
  have run: "pstate (ptable s' ! k) = RUNNING \<longleftrightarrow> cur s' = Some k" if "k < length (ptable s)" for k
    using ptable_okD(1) [OF ok that] i(2) x(2) s'(2) nth [of k] by auto
  have range: "0 \<le> pid (ptable s' ! k) \<and> pid (ptable s' ! k) < nextpid s'" if "k < length (ptable s)" for k
    using lt [OF that] ptable_okD(3) [OF ok] x(1) s'(3) nth [of k] by auto
  have uniq: "k = l" if "k < length (ptable s)" "l < length (ptable s)"
      "pid (ptable s' ! k) = pid (ptable s' ! l) \<and> pid (ptable s' ! k) \<noteq> 0" for k l
    using that lt [OF that(1)] lt [OF that(2)] ptable_okD(5) [OF ok that(1,2)] x(1) nth [of k] nth [of l]
    by (auto split: if_splits)
  show ?thesis
    unfolding ptable_ok_def len using run range uniq ptable_okD(2,3) [OF ok] s'(2,3) by auto
qed

lemma init_kstack_same: "list_all2 same_runs (ptable s) (ptable (init_kstack i p s))"
    "cur (init_kstack i p s) = cur s" "nextpid (init_kstack i p s) = nextpid s"
  by (auto simp: init_kstack_def pupd_def Let_def same_runs_def intro!: list_all2_upd)

lemma allocproc_ok: "ptable_ok s \<Longrightarrow> wp (\<lambda>(r, s'). ptable_ok s') Q (allocproc c s)"
proof -
  assume ok: "ptable_ok s"
  have new: "ptable_ok t"
    if "first_idx (\<lambda>p. pstate p = UNUSED) (ptable s) = Some i"
      "ptable t = (ptable s)[i := (ptable s ! i)\<lparr>pstate := EMBRYO, pid := nextpid s, cid := c\<rparr>]"
      "cur t = cur s" "nextpid t = nextpid s + 1" for i and t :: "'a proc_state_scheme"
    by (rule ptable_ok_new [OF ok _ _ _ _ that(2-4)]) (use first_idx_Some(1,2) [OF that(1)] in auto)
  have fail: "ptable_ok (pupd i (\<lambda>p. p\<lparr>pstate := UNUSED\<rparr>) (pupd i (\<lambda>p. p\<lparr>kstack := k\<rparr>) u))"
    if "ptable_ok u" "i < length (ptable u) \<Longrightarrow> pstate (ptable u ! i) = EMBRYO" for i k and u :: "'a proc_state_scheme"
    using that by (intro ptable_ok_pupd) (auto simp: same_runs_def pupd_def)
  have fin: "ptable_ok (init_kstack i k (pupd i (\<lambda>p. p\<lparr>kstack := k\<rparr>) u))" if "ptable_ok u" for i k and u :: "'a proc_state_scheme"
    by (rule ptable_ok_same [OF ptable_ok_pupd [OF that] init_kstack_same]) (simp add: same_runs_def)
  show ?thesis
  proof (cases "first_idx (\<lambda>p. pstate p = UNUSED) (ptable s)")
    case None
    then show ?thesis using ok by (simp add: allocproc_def wp_eq)
  next
    case (Some i)
    define t where "t = s\<lparr>ptable := (ptable s)[i := (ptable s ! i)
      \<lparr>pstate := EMBRYO, pid := nextpid s, cid := c\<rparr>], nextpid := nextpid s + 1\<rparr>"
    have t: "ptable_ok t" by (rule new [OF Some]) (simp_all add: t_def)
    have emb: "pstate (ptable t ! i) = EMBRYO" using first_idx_Some(1) [OF Some] by (simp add: t_def)
    have u: "ptable_ok u" "pstate (ptable u ! i) = EMBRYO" if "vfrm t u" for u
      using ptable_ok_pfrm [OF vfrm_pfrm [OF that] t] pfrm_fields(1) [OF vfrm_pfrm [OF that]] emb by simp_all
    have "wp (\<lambda>(r, s'). ptable_ok s') Q (bindr (kalloc t) (\<lambda>(stack, s).
           let s = pupd i (\<lambda>p. p\<lparr>kstack := stack\<rparr>) s in
           if stack = 0 then Inr (None, pupd i (\<lambda>p. p\<lparr>pstate := UNUSED\<rparr>) s)
           else Inr (Some i, init_kstack i stack s)))"
      unfolding wp_bindr
      by (rule wp_post [OF kalloc_frame [OF vfrm_refl]]) (auto simp: Let_def intro!: fail fin dest: u)
    then show ?thesis by (simp add: allocproc_def wp_eq Some t_def pupd_def Let_def)
  qed
qed

section \<open>The machine\<close>

text \<open>
  What can happen to the process table: the current process runs one of the operations, a
  process that was made ready becomes runnable, an operation gives up the CPU and the scheduler
  continues, or the scheduler enters the next runnable process, which resumes.
\<close>

inductive kstep :: "'a proc_state_scheme \<Rightarrow> 'a proc_state_scheme \<Rightarrow> bool" where
  k_alloc: "allocproc c s = Inr (r, s') \<Longrightarrow> kstep s s'"
| k_ready: "pstate (pget i s) = EMBRYO \<Longrightarrow> kstep s (pupd i (\<lambda>p. p\<lparr>pstate := RUNNABLE\<rparr>) s)"
| k_kill: "kill n s = Inr (rc, s') \<Longrightarrow> kstep s s'"
| k_wakeup: "wakeup ch s = Inr s' \<Longrightarrow> kstep s s'"
| k_children: "wakeup_children s = Inr s' \<Longrightarrow> kstep s s'"
| k_wait: "wait s = Inr (n, s') \<Longrightarrow> kstep s s'"
| k_wait_sleep: "wait s = Inl (Asleep t) \<Longrightarrow> kstep s (scheduler_back t)"
| k_wait_resume: "wait_resume s = Inr (n, s') \<Longrightarrow> kstep s s'"
| k_wait_again: "wait_resume s = Inl (Asleep t) \<Longrightarrow> kstep s (scheduler_back t)"
| k_sleep: "sleep ch lk s = Inl (Asleep t) \<Longrightarrow> kstep s (scheduler_back t)"
| k_resume: "sleep_resume lk s = Inr s' \<Longrightarrow> kstep s s'"
| k_yield: "yield s = Inl (Asleep t) \<Longrightarrow> kstep s (scheduler_back t)"
| k_yielded: "yield_resume s = Inr s' \<Longrightarrow> kstep s s'"
| k_enter: "cur s = None \<Longrightarrow> scheduler_scan pos s = Some i \<Longrightarrow> scheduler_enter i s = Inr s' \<Longrightarrow> kstep s s'"

lemma wpD: "wp P Q r \<Longrightarrow> r = Inr x \<Longrightarrow> P x" "wp P Q r \<Longrightarrow> r = Inl (Asleep t) \<Longrightarrow> Q t"
  by simp_all

lemma scheduler_scan_Some:
  assumes "scheduler_scan pos s = Some i"
  shows "i < length (ptable s) \<and> pstate (ptable s ! i) = RUNNABLE \<and>
    (pos \<le> i \<longrightarrow> (\<forall>k. pos \<le> k \<and> k < i \<longrightarrow> pstate (ptable s ! k) \<noteq> RUNNABLE)) \<and>
    (i < pos \<longrightarrow> (\<forall>k < length (ptable s). pos \<le> k \<longrightarrow> pstate (ptable s ! k) \<noteq> RUNNABLE) \<and>
       (\<forall>k < i. pstate (ptable s ! k) \<noteq> RUNNABLE))"
proof (cases "first_from (\<lambda>p. pstate p = RUNNABLE) (drop pos (ptable s)) pos")
  case None
  then have none: "pstate (ptable s ! k) \<noteq> RUNNABLE" if "pos \<le> k" "k < length (ptable s)" for k
    using that nth_mem [of "k - pos" "drop pos (ptable s)"] by (force simp: first_from_None)
  have f: "first_from (\<lambda>p. pstate p = RUNNABLE) (ptable s) 0 = Some i"
    using assms None by (simp add: scheduler_scan_def)
  from first_from_Some [OF f] none show ?thesis by (metis diff_zero)
next
  case (Some j)
  then have "j = i" using assms by (simp add: scheduler_scan_def)
  note f = first_from_Some [OF Some [unfolded this]]
  have pos: "pos \<le> length (ptable s)" using f by (metis length_drop diff_is_0_eq' nat_le_linear not_less_zero)
  have "pstate (ptable s ! k) \<noteq> RUNNABLE" if "pos \<le> k" "k < i" for k
  proof -
    have "\<not> pstate (drop pos (ptable s) ! (k - pos)) = RUNNABLE" using f that by auto
    then show ?thesis using that pos by (simp only: nth_drop) simp
  qed
  then show ?thesis using f pos by auto
qed

lemma enter_ok:
  assumes ok: "ptable_ok s" and "cur s = None" "i < length (ptable s)" "scheduler_enter i s = Inr s'"
  shows "ptable_ok s'"
proof -
  have s': "ptable s' = (ptable s)[i := (ptable s ! i)\<lparr>pstate := RUNNING\<rparr>]" "cur s' = Some i" "nextpid s' = nextpid s"
    using assms(4) by (auto simp: scheduler_enter_def vspaceinstall_def pupd_def split: if_splits)
  have nth: "ptable s' ! k = (if k = i then (ptable s ! i)\<lparr>pstate := RUNNING\<rparr> else ptable s ! k)" for k
    using assms(3) s'(1) by (simp add: nth_list_update_if)
  have "pid (ptable s' ! k) = pid (ptable s ! k)" for k using nth by simp
  moreover have "pstate (ptable s' ! k) = RUNNING \<longleftrightarrow> cur s' = Some k" if "k < length (ptable s)" for k
    using nth [of k] ptable_okD(1) [OF ok that] assms(2) s'(2) by auto
  moreover have "length (ptable s') = length (ptable s)" using s'(1) by simp
  ultimately show ?thesis
    using ptable_okD(3,4,5) [OF ok] assms(3) s'(2,3) unfolding ptable_ok_def by simp
qed

lemma kstep_ok: "kstep s s' \<Longrightarrow> ptable_ok s \<Longrightarrow> ptable_ok s'"
proof (induction rule: kstep.induct)
  case (k_alloc c s r s')
  then show ?case using wpD(1) [OF allocproc_ok] by fastforce
next
  case (k_ready i s)
  then show ?case by (intro ptable_ok_pupd) (simp_all add: same_runs_def pget_def)
next
  case (k_kill n s rc s')
  then show ?case using wpD(1) [OF kill_ok] by fastforce
next
  case (k_wait s n s')
  then show ?case using wpD(1) [OF wait_ok] by fastforce
next
  case (k_wait_resume s n s')
  then show ?case using wpD(1) [OF wait_resume_ok] by fastforce
next
  case (k_sleep ch lk s t)
  then show ?case using wpD(2) [OF sleep_ok] by (simp add: ptable_off_def)
next
  case (k_yielded s s')
  then show ?case by (auto simp: yield_resume_def release_def split: if_splits)
next
  case (k_enter s pos i s')
  then show ?case using enter_ok scheduler_scan_Some by blast
qed (use wpD(1) [OF wakeup_ok] wpD(1) [OF wakeup_children_ok] wpD(2) [OF wait_ok] wpD(2) [OF wait_resume_ok]
    wpD(1) [OF sleep_resume_ok] wpD(2) [OF yield_ok] in \<open>simp_all add: ptable_off_def\<close>)

lemma ksteps_ok: "kstep\<^sup>*\<^sup>* s s' \<Longrightarrow> ptable_ok s \<Longrightarrow> ptable_ok s'"
  by (induction rule: rtranclp_induct) (auto intro: kstep_ok)

definition boot_table :: "'a proc_state_scheme \<Rightarrow> bool" where
  "boot_table s \<longleftrightarrow> cur s = None \<and> nextpid s = 1 \<and> (\<forall>p \<in> set (ptable s). pstate p = UNUSED \<and> pid p = 0)"

lemma boot_table_ok: "boot_table s \<Longrightarrow> ptable_ok s"
  by (simp add: boot_table_def ptable_ok_def)


definition boot_proc :: proc where
  "boot_proc = \<lparr>pvspace = \<lparr>regions = replicate 5 no_region, pgtbl = 0\<rparr>, kstack = 0, pstate = UNUSED, pid = 0,
     cid = 0, parent = None, tf = 0, pcontext = 0, pchan = ChNone, killed = 0, pname = [],
     ofile = replicate 16 None, syscall_buffer = 0, user_pages = (\<lambda>_. 0),
     app_processes = replicate 64 \<lparr>owned = 0, bound = 0, midpoint = 0, base = 0\<rparr>, is_guest_os = 0\<rparr>"

definition boot_state :: proc_state where
  "boot_state = scr_state.extend blank_screen \<lparr>ptable = replicate 64 boot_proc, cur = None, rsp0 = 0,
     initproc = None, nextpid = 1, nextcid = 1, first = True, forkret_pc = KBASE, trapret_pc = KBASE\<rparr>"

lemma boot_state_fields [simp]:
  "ptable boot_state = replicate 64 boot_proc" "cur boot_state = None" "nextpid boot_state = 1"
  "held boot_state = {}" "pstate boot_proc = UNUSED" "pid boot_proc = 0"
  by (simp_all add: boot_state_def boot_proc_def scr_state.defs blank_screen_def vs_state.defs four_pages_def)

lemma boot_state_alloc: "\<exists>r s'. allocproc 0 boot_state = Inr (r, s')"
proof -
  have "kmem_ready (boot_state\<lparr>ptable := p, nextpid := n, held := {}\<rparr>)" for p n
  proof -
    have "KBASE \<le> page_va i" if "i < 4" for i using that by (intro page_va_base) simp
    then show ?thesis
      by (simp add: boot_state_def scr_state.defs blank_screen_def vs_state.defs four_pages_def
        kmem_ready_def kmem_wf_def nth_append)
  qed
  then obtain p t where "kalloc (boot_state\<lparr>ptable := (replicate 64 boot_proc)[0 := boot_proc
      \<lparr>pstate := EMBRYO, pid := 1, cid := 0\<rparr>], nextpid := 2, held := {}\<rparr>) = Inr (p, t)"
    using kmem.alloc_returns by blast
  moreover have "first_idx (\<lambda>p. pstate p = UNUSED) (replicate 64 boot_proc) = Some 0"
    by (rule first_idx_eqI) simp_all
  ultimately show ?thesis by (simp add: allocproc_def pupd_def Let_def)
qed


section \<open>The scheduler is fair\<close>

text \<open>
  Successive choices of the scheduler: each element is the process table at the moment of a
  choice and the slot chosen; the scan goes on after the slot chosen before. Between two
  choices anything may happen to the table.
\<close>

fun choices :: "nat \<Rightarrow> ('a proc_state_scheme \<times> nat) list \<Rightarrow> bool" where
  "choices pos [] = True"
| "choices pos ((s, i) # xs) = (scheduler_scan pos s = Some i \<and> choices (Suc i) xs)"

definition scan_distance :: "nat \<Rightarrow> nat \<Rightarrow> nat \<Rightarrow> nat" where
  "scan_distance n j pos = (if pos \<le> j then j - pos else j + n - pos)"

lemma scan_closer:
  assumes "scheduler_scan pos s = Some i" "i \<noteq> j" "j < length (ptable s)" "pos \<le> length (ptable s)"
    and "pstate (ptable s ! j) = RUNNABLE"
  shows "scan_distance (length (ptable s)) j (Suc i) < scan_distance (length (ptable s)) j pos"
proof -
  note sc = scheduler_scan_Some [OF assms(1)]
  have "i < j" if "pos \<le> i" "pos \<le> j" using sc that assms(2,5) by (metis linorder_neqE_nat)
  moreover have "i < j \<and> j < pos" if "i < pos" using sc that assms(2,3,5) by (metis linorder_neqE_nat not_le)
  ultimately show ?thesis using sc assms(3,4) by (auto simp: scan_distance_def)
qed

lemma chosen_in_distance:
  assumes "choices pos xs" "\<forall>(s, i) \<in> set xs. length (ptable s) = n \<and> pstate (ptable s ! j) = RUNNABLE"
    and "j < n" "pos \<le> n" "scan_distance n j pos < length xs"
  shows "j \<in> snd ` set xs"
  using assms
proof (induction xs arbitrary: pos)
  case (Cons x xs)
  obtain s i where x: "x = (s, i)" by (cases x)
  show ?case
  proof (cases "i = j")
    case False
    have s: "scheduler_scan pos s = Some i" "length (ptable s) = n" "pstate (ptable s ! j) = RUNNABLE"
      using Cons.prems(1,2) x by auto
    have "scan_distance n j (Suc i) < scan_distance n j pos"
      using scan_closer [OF s(1) False] s(2,3) Cons.prems(3,4) by simp
    moreover have "Suc i \<le> n" using scheduler_scan_Some [OF s(1)] s(2) by simp
    ultimately have "j \<in> snd ` set xs"
      using Cons.prems x by (intro Cons.IH [of "Suc i"]) auto
    then show ?thesis by auto
  qed (use x in force)
qed simp

text \<open>
  C15. The scheduler starves nobody: a process that stays runnable is chosen at the latest by the
  choice whose number is the size of the process table, whatever the other processes do and
  wherever the scan stands.
\<close>

theorem scheduler_fair:
  assumes "choices pos xs" "\<forall>(s, i) \<in> set xs. length (ptable s) = n \<and> pstate (ptable s ! j) = RUNNABLE"
    and "j < n" "pos \<le> n" "n \<le> length xs"
  shows "j \<in> snd ` set xs"
proof -
  have "scan_distance n j pos < n" using assms(3,4) by (auto simp: scan_distance_def)
  then show ?thesis using chosen_in_distance [OF assms(1-4)] assms(5) by simp
qed

definition one_runnable :: proc_state where
  "one_runnable = boot_state\<lparr>ptable := replicate 63 boot_proc @ [boot_proc\<lparr>pstate := RUNNABLE\<rparr>]\<rparr>"

lemma one_runnable_scan: "pos \<le> 64 \<Longrightarrow> scheduler_scan pos one_runnable = Some 63"
proof -
  assume pos: "pos \<le> 64"
  have last: "pstate (ptable one_runnable ! 63) = RUNNABLE" "length (ptable one_runnable) = 64"
    by (simp_all add: one_runnable_def nth_append)
  have other: "pstate (ptable one_runnable ! k) \<noteq> RUNNABLE" if "k < 63" for k
    using that by (simp add: one_runnable_def nth_append)
  have "first_from (\<lambda>p. pstate p = RUNNABLE) (ptable one_runnable) 0 = Some (0 + 63)"
    by (rule first_from_eqI) (use last other in auto)
  moreover have "first_from (\<lambda>p. pstate p = RUNNABLE) (drop pos (ptable one_runnable)) pos = Some (pos + (63 - pos))"
    if "pos < 64"
    by (rule first_from_eqI) (use last other pos that in auto)
  ultimately show ?thesis
    using pos last(2) by (cases "pos = 64") (simp_all add: scheduler_scan_def)
qed

theorem scheduler_fair_witness:
  "choices 0 (replicate 64 (one_runnable, 63)) \<and> 63 \<in> snd ` set (replicate 64 (one_runnable, 63 :: nat))"
proof -
  have c: "choices pos (replicate k (one_runnable, 63))" if "pos \<le> 64" for pos k
    using that by (induction k arbitrary: pos) (simp_all add: one_runnable_scan)
  have "length (ptable one_runnable) = 64" "pstate (ptable one_runnable ! 63) = RUNNABLE"
    by (simp_all add: one_runnable_def nth_append)
  then show ?thesis
    using scheduler_fair [OF c, of 0 64 64 63] c [of 0] by simp
qed

section \<open>Sleeping and being woken\<close>


definition two_procs :: proc_state where
  "two_procs = boot_state\<lparr>held := {LTicks}, cur := Some 0, ptable := [boot_proc\<lparr>pstate := RUNNING, pid := 1\<rparr>, boot_proc]\<rparr>"


section \<open>Killing\<close>

text \<open>
  C30. \<open>kill(0)\<close> succeeds on a free slot. Free slots have number 0, so the call marks the first of
  them as killed, and \<open>allocproc\<close> does not clear the mark: when that slot is the first free
  one, the next process allocated is marked as killed from the start.
\<close>

theorem kill_zero_marks_next_process:
  assumes "LPtable \<notin> held s" "first_idx (\<lambda>p. pid p = 0) (ptable s) = Some i"
    and "first_idx (\<lambda>p. pstate p = UNUSED) (ptable s) = Some i"
  shows "case kill 0 s of Inl e \<Rightarrow> False
    | Inr (rc, s') \<Rightarrow> rc = 0 \<and> wp (\<lambda>(r, s''). r = None \<or> r = Some i \<and> killed (pget i s'') = 1) Q (allocproc c s')"
proof -
  have i: "i < length (ptable s)" "pstate (ptable s ! i) = UNUSED"
    using first_idx_Some [OF assms(3)] by simp_all
  define s' where "s' = pupd i (\<lambda>p. p\<lparr>killed := 1\<rparr>) s"
  have k: "kill 0 s = Inr (0, s')"
    using assms(1,2) i by (simp add: kill_def Let_def pget_def pupd_def s'_def)
  have f: "first_idx (\<lambda>p. pstate p = UNUSED) (ptable s') = Some i"
  proof (rule first_idx_eqI)
    show "pstate (ptable s' ! j) \<noteq> UNUSED" if "j < i" for j
      using first_idx_Some(3) [OF assms(3) that] that by (simp add: s'_def pupd_def)
  qed (use i in \<open>simp_all add: s'_def pupd_def\<close>)
  define t where "t = s'\<lparr>ptable := (ptable s')[i := (ptable s' ! i)\<lparr>pstate := EMBRYO, pid := nextpid s', cid := c\<rparr>],
    nextpid := nextpid s' + 1\<rparr>"
  have len: "i < length (ptable u)" "killed (ptable u ! i) = 1" if "vfrm t u" for u
    using pfrm_fields(1) [OF vfrm_pfrm [OF that]] i by (simp_all add: t_def s'_def pupd_def)
  have "wp (\<lambda>(r, s''). r = None \<or> r = Some i \<and> killed (pget i s'') = 1) Q (bindr (kalloc t) (\<lambda>(stack, s).
         let s = pupd i (\<lambda>p. p\<lparr>kstack := stack\<rparr>) s in
         if stack = 0 then Inr (None, pupd i (\<lambda>p. p\<lparr>pstate := UNUSED\<rparr>) s)
         else Inr (Some i, init_kstack i stack s)))"
    unfolding wp_bindr
    by (rule wp_post [OF kalloc_frame [OF vfrm_refl]])
      (auto simp: Let_def init_kstack_def pget_def pupd_def len)
  moreover have "LPtable \<notin> held s'" using assms(1) by (simp add: s'_def pupd_def)
  ultimately show ?thesis
    by (simp add: k allocproc_def wp_eq f t_def pupd_def Let_def)
qed

theorem kill_zero_marks_next_process_witness:
  "case kill 0 boot_state of Inl e \<Rightarrow> False
    | Inr (rc, s') \<Rightarrow> rc = 0 \<and>
        wp (\<lambda>(r, s''). r = None \<or> r = Some 0 \<and> killed (pget 0 s'') = 1) (\<lambda>_. True) (allocproc 5 s')"
proof (rule kill_zero_marks_next_process)
  show "first_idx (\<lambda>p. pid p = 0) (ptable boot_state) = Some 0"
    "first_idx (\<lambda>p. pstate p = UNUSED) (ptable boot_state) = Some 0"
    by (rule first_idx_eqI; simp)+
qed simp

end
