(* ===== verification/Sleeplock.thy ===== *)
theory Sleeplock
  imports Proc_Inv
begin

text \<open>
  Sleep locks, kernel/sleeplock.c: locks a process may hold for long, protected by a spin lock
  of their own. A process that finds the lock busy sleeps on it and looks again when it is
  woken up.
\<close>

section \<open>The code\<close>

record sleeplock =
  slocked :: u32
  slname :: string
  slpid :: int

record sl_state = proc_state +
  slocks :: "slid \<Rightarrow> sleeplock"

definition sl_upd :: "slid \<Rightarrow> (sleeplock \<Rightarrow> sleeplock) \<Rightarrow> 'a sl_state_scheme \<Rightarrow> 'a sl_state_scheme" where
  "sl_upd l f s = s\<lparr>slocks := (slocks s)(l := f (slocks s l))\<rparr>"

definition initsleeplock :: "slid \<Rightarrow> string \<Rightarrow> 'a sl_state_scheme \<Rightarrow> 'a sl_state_scheme" where
  "initsleeplock l name s =
     sl_upd l (\<lambda>k. k\<lparr>slname := name, slocked := 0, slpid := 0\<rparr>) (s\<lparr>held := held s - {LSleep l}\<rparr>)"

text \<open>The loop of \<open>acquiresleep\<close> and what follows it.\<close>

definition acquiresleep_loop :: "slid \<Rightarrow> 'a sl_state_scheme \<Rightarrow> 'a sl_state_scheme stop + 'a sl_state_scheme" where
  "acquiresleep_loop l s =
     (if slocked (slocks s l) \<noteq> 0 then sleep (ChSleep l) (LSleep l) s
      else
        let s = sl_upd l (\<lambda>k. k\<lparr>slocked := 1\<rparr>) s in
        bindr (myproc s) (\<lambda>me.
        release (LSleep l) (sl_upd l (\<lambda>k. k\<lparr>slpid := pid (pget me s)\<rparr>) s)))"

definition acquiresleep :: "slid \<Rightarrow> 'a sl_state_scheme \<Rightarrow> 'a sl_state_scheme stop + 'a sl_state_scheme" where
  "acquiresleep l s = bindr (acquire (LSleep l) s) (acquiresleep_loop l)"

definition acquiresleep_resume :: "slid \<Rightarrow> 'a sl_state_scheme \<Rightarrow> 'a sl_state_scheme stop + 'a sl_state_scheme" where
  "acquiresleep_resume l s = bindr (sleep_resume (LSleep l) s) (acquiresleep_loop l)"

definition releasesleep :: "slid \<Rightarrow> 'a sl_state_scheme \<Rightarrow> 'a sl_state_scheme stop + 'a sl_state_scheme" where
  "releasesleep l s =
     bindr (acquire (LSleep l) s) (\<lambda>s.
     bindr (wakeup (ChSleep l) (sl_upd l (\<lambda>k. k\<lparr>slocked := 0, slpid := 0\<rparr>) s)) (release (LSleep l)))"

definition holdingsleep :: "slid \<Rightarrow> 'a sl_state_scheme \<Rightarrow> 'a sl_state_scheme stop + u32 \<times> 'a sl_state_scheme" where
  "holdingsleep l s =
     bindr (acquire (LSleep l) s) (\<lambda>s.
     let r = slocked (slocks s l) in
     bindr (release (LSleep l) s) (\<lambda>s. Inr (r, s)))"

section \<open>Mutual exclusion\<close>

text \<open>
  One lock and the processes that own it: those that returned from \<open>acquiresleep\<close> and did not
  call \<open>releasesleep\<close> since. Between two operations on the lock any kernel code runs that does
  not touch the fields of this lock.
\<close>

inductive sl_step :: "slid \<Rightarrow> 'a sl_state_scheme \<times> nat set \<Rightarrow> 'a sl_state_scheme \<times> nat set \<Rightarrow> bool" for l where
  sl_take: "cur s = Some me \<Longrightarrow> acquiresleep l s = Inr s' \<Longrightarrow> sl_step l (s, own) (s', insert me own)"
| sl_wait: "acquiresleep l s = Inl (Asleep t) \<Longrightarrow> sl_step l (s, own) (scheduler_back t, own)"
| sl_retake: "cur s = Some me \<Longrightarrow> acquiresleep_resume l s = Inr s' \<Longrightarrow> sl_step l (s, own) (s', insert me own)"
| sl_rewait: "acquiresleep_resume l s = Inl (Asleep t) \<Longrightarrow> sl_step l (s, own) (scheduler_back t, own)"
| sl_release: "me \<in> own \<Longrightarrow> releasesleep l s = Inr s' \<Longrightarrow> sl_step l (s, own) (s', own - {me})"
| sl_other: "slocks s' l = slocks s l \<Longrightarrow> sl_step l (s, own) (s', own)"

inductive_cases sl_stepE [consumes 1, case_names take wait retake rewait release other]:
  "sl_step l (s, own) (s', own')"

definition sl_inv :: "slid \<Rightarrow> 'a sl_state_scheme \<times> nat set \<Rightarrow> bool" where
  "sl_inv l = (\<lambda>(s, own). if slocked (slocks s l) = 0 then own = {} else \<exists>p. own = {p})"

lemma pmore_slocks: "pmore s s' \<Longrightarrow> slocks s' = slocks s"
  by (cases s; cases s') (simp add: pmore_def)

lemma acquiresleep_loop_wp:
  "pmore s0 s \<Longrightarrow> wp (\<lambda>s'. slocked (slocks s0 l) = 0 \<and> slocked (slocks s' l) = 1) (\<lambda>t. slocks t = slocks s0)
     (acquiresleep_loop l s)"
  using pmore_slocks [of s0 s]
  by (auto simp: acquiresleep_loop_def wp_eq Let_def myproc_def sl_upd_def
      intro!: sleep_pmore [THEN wp_mono] dest: pmore_slocks)

lemma acquiresleep_wp:
  "wp (\<lambda>s'. slocked (slocks s l) = 0 \<and> slocked (slocks s' l) = 1) (\<lambda>t. slocks t = slocks s) (acquiresleep l s)"
  by (auto simp: acquiresleep_def wp_eq intro!: acquiresleep_loop_wp)

lemma acquiresleep_resume_wp:
  "wp (\<lambda>s'. slocked (slocks s l) = 0 \<and> slocked (slocks s' l) = 1) (\<lambda>t. slocks t = slocks s) (acquiresleep_resume l s)"
  by (auto simp: acquiresleep_resume_def wp_eq intro!: sleep_resume_pmore [THEN wp_post] acquiresleep_loop_wp)

lemma releasesleep_wp: "wp (\<lambda>s'. slocked (slocks s' l) = 0) Q (releasesleep l s)"
proof -
  have "LSleep l \<in> held u \<longrightarrow> slocked (slocks (u\<lparr>held := held u - {LSleep l}\<rparr>) l) = 0"
    if "pmore (sl_upd l (\<lambda>k. k\<lparr>slocked := 0, slpid := 0\<rparr>) (s\<lparr>held := insert (LSleep l) (held s)\<rparr>)) u" for u
    using pmore_slocks [OF that] by (simp add: sl_upd_def)
  then show ?thesis
    unfolding releasesleep_def wp_eq by (auto intro!: wakeup_pmore [OF pmore_refl, THEN wp_post])
qed

lemma sl_step_inv:
  assumes "sl_step l c c'" "sl_inv l c"
  shows "sl_inv l c'"
proof -
  obtain s own s' own' where c: "c = (s, own)" "c' = (s', own')" by (cases c; cases c')
  have sb: "slocks (scheduler_back t) = slocks t" for t :: "'a sl_state_scheme"
    by (simp add: scheduler_back_def vspaceinstallkern_def)
  from assms(1) [unfolded c] show ?thesis
  proof (cases rule: sl_stepE)
    case (take me)
    then show ?thesis using acquiresleep_wp [of s l] assms(2) by (simp add: sl_inv_def c)
  next
    case (wait t)
    then show ?thesis using acquiresleep_wp [of s l] assms(2) by (simp add: sl_inv_def c sb)
  next
    case (retake me)
    then show ?thesis using acquiresleep_resume_wp [of s l] assms(2) by (simp add: sl_inv_def c)
  next
    case (rewait t)
    then show ?thesis using acquiresleep_resume_wp [of s l] assms(2) by (simp add: sl_inv_def c sb)
  next
    case (release me)
    then show ?thesis using releasesleep_wp [of l "\<lambda>_. True" s] assms(2)
      by (auto simp: sl_inv_def c split: if_splits)
  next
    case other
    then show ?thesis using assms(2) by (simp add: sl_inv_def c)
  qed
qed

lemma sl_steps_inv: "(sl_step l)\<^sup>*\<^sup>* c c' \<Longrightarrow> sl_inv l c \<Longrightarrow> sl_inv l c'"
  by (induction rule: rtranclp_induct) (auto intro: sl_step_inv)

text \<open>
  C19. A sleep lock excludes: after \<open>initsleeplock\<close>, whatever processes take, wait for and
  release the lock in whatever order, at most one process owns it, the lock word is nonzero
  exactly while it is owned, and \<open>acquiresleep\<close> only returns to a new owner when nobody owns it.
\<close>

theorem sleeplock_exclusion:
  assumes "(sl_step l)\<^sup>*\<^sup>* (initsleeplock l name s, {}) (s', own)"
  shows "(\<forall>p q. p \<in> own \<longrightarrow> q \<in> own \<longrightarrow> p = q) \<and> (slocked (slocks s' l) \<noteq> 0 \<longleftrightarrow> own \<noteq> {}) \<and>
    wp (\<lambda>_. own = {}) (\<lambda>_. True) (acquiresleep l s')"
proof -
  have "sl_inv l (initsleeplock l name s, {})" by (simp add: sl_inv_def initsleeplock_def sl_upd_def)
  then have inv: "sl_inv l (s', own)" by (rule sl_steps_inv [OF assms])
  then have "wp (\<lambda>_. own = {}) (\<lambda>_. True) (acquiresleep l s')"
    by (intro wp_mono [OF acquiresleep_wp]) (simp_all add: sl_inv_def)
  with inv show ?thesis by (auto simp: sl_inv_def split: if_splits)
qed

definition sl_boot :: sl_state where
  "sl_boot = proc_state.extend (two_procs\<lparr>held := {}\<rparr>)
     \<lparr>slocks = (\<lambda>_. \<lparr>slocked = 0, slname = [], slpid = 0\<rparr>)\<rparr>"

lemma sl_boot_fields [simp]: "held sl_boot = {}" "cur sl_boot = Some 0" "slocked (slocks sl_boot l) = 0"
  "ptable sl_boot = [boot_proc\<lparr>pstate := RUNNING, pid := 1\<rparr>, boot_proc]"
  by (simp_all add: sl_boot_def proc_state.defs two_procs_def)

theorem sleeplock_exclusion_witness:
  "\<exists>s'. acquiresleep (SLBuf 0) (initsleeplock (SLBuf 0) ''buffer'' sl_boot) = Inr s' \<and>
     slocked (slocks s' (SLBuf 0)) \<noteq> 0 \<and> wp (\<lambda>_. False) (\<lambda>_. True) (acquiresleep (SLBuf 0) s')"
proof -
  let ?s = "initsleeplock (SLBuf 0) ''buffer'' sl_boot"
  have "\<exists>s'. acquiresleep (SLBuf 0) ?s = Inr s'"
    by (simp add: acquiresleep_def acquiresleep_loop_def initsleeplock_def sl_upd_def myproc_def Let_def)
  then obtain s' where s': "acquiresleep (SLBuf 0) ?s = Inr s'" by blast
  have "cur ?s = Some 0" by (simp add: initsleeplock_def sl_upd_def)
  from sl_take [OF this s'] have "(sl_step (SLBuf 0))\<^sup>*\<^sup>* (?s, {}) (s', {0})" by blast
  from sleeplock_exclusion [OF this] s' show ?thesis by auto
qed

end
