(* ===== verification/Bio.thy ===== *)
theory Bio
  imports Sleeplock
begin

text \<open>
  The buffer cache, kernel/bio.c, over the memory disk of kernel/memide.c. The driver of a real
  disk, kernel/ide.c, is in \<open>Ide\<close>, where it is shown to have the same effect on a buffer.
\<close>

section \<open>State\<close>

abbreviation (input) BSIZE :: nat where "BSIZE \<equiv> 512"
abbreviation (input) NBUF :: nat where "NBUF \<equiv> 30"
abbreviation (input) B_VALID :: u32 where "B_VALID \<equiv> 2"
abbreviation (input) B_DIRTY :: u32 where "B_DIRTY \<equiv> 4"

text \<open>
  Pointers between buffers are indices; \<open>bcache.head\<close> has the index \<open>NBUF\<close>. The lock of buffer \<open>b\<close>
  is the sleep lock \<open>SLBuf b\<close>.
\<close>

record buf =
  bflags :: u32
  bdev :: u32
  blockno :: u32
  refcnt :: u32
  bprev :: nat
  bnext :: nat
  qnext :: "nat option"
  bdata :: "u8 list"

abbreviation (input) BHEAD :: nat where "BHEAD \<equiv> NBUF"

record bio_state = sl_state +
  bufs :: "buf list"
  num_disk_reads :: int
  crashn_enable :: int
  crashn :: int
  disk :: "nat \<Rightarrow> u8 list"
  disksize :: nat

definition bget_buf :: "nat \<Rightarrow> 'a bio_state_scheme \<Rightarrow> buf" where
  "bget_buf b s = bufs s ! b"

definition bupd :: "nat \<Rightarrow> (buf \<Rightarrow> buf) \<Rightarrow> 'a bio_state_scheme \<Rightarrow> 'a bio_state_scheme" where
  "bupd b f s = s\<lparr>bufs := (bufs s)[b := f (bufs s ! b)]\<rparr>"

section \<open>The memory disk\<close>

text \<open>\<open>img\<close> is the file system image linked into the kernel, as a function from block numbers.\<close>

definition ideinit :: "(nat \<Rightarrow> u8 list) \<Rightarrow> nat \<Rightarrow> 'a bio_state_scheme \<Rightarrow> 'a bio_state_scheme" where
  "ideinit img size_in_bytes s = s\<lparr>disk := img, disksize := size_in_bytes div BSIZE\<rparr>"

definition iderw :: "nat \<Rightarrow> 'a bio_state_scheme \<Rightarrow> 'a bio_state_scheme stop + 'a bio_state_scheme" where
  "iderw b s =
     bindr (holdingsleep (SLBuf b) s) (\<lambda>(r, s).
     let fl = bflags (bget_buf b s); n = unat (blockno (bget_buf b s)) in
     if r = 0 then Inl (Panic ''iderw: buf not locked'')
     else if fl AND (B_VALID OR B_DIRTY) = B_VALID then Inl (Panic ''iderw: nothing to do'')
     else if bdev (bget_buf b s) \<noteq> 1 then Inl (Panic ''iderw: request not for disk 1'')
     else if n \<ge> disksize s then Inl (Panic ''iderw: block out of range'')
     else
       let s = (if fl AND B_DIRTY \<noteq> 0
                then (bupd b (\<lambda>x. x\<lparr>bflags := bflags x AND NOT B_DIRTY\<rparr>) s)
                       \<lparr>disk := (disk s)(n := bdata (bget_buf b s))\<rparr>
                else bupd b (\<lambda>x. x\<lparr>bdata := disk s n\<rparr>) s)
       in Inr (bupd b (\<lambda>x. x\<lparr>bflags := bflags x OR B_VALID\<rparr>) s))"

section \<open>The cache\<close>

definition binit_one :: "nat \<Rightarrow> 'a bio_state_scheme \<Rightarrow> 'a bio_state_scheme" where
  "binit_one b s =
     (let s = bupd b (\<lambda>x. x\<lparr>bnext := bnext (bget_buf BHEAD s), bprev := BHEAD\<rparr>) s;
          s = initsleeplock (SLBuf b) ''buffer'' s;
          s = bupd (bnext (bget_buf BHEAD s)) (\<lambda>x. x\<lparr>bprev := b\<rparr>) s
      in bupd BHEAD (\<lambda>x. x\<lparr>bnext := b\<rparr>) s)"

definition binit :: "'a bio_state_scheme \<Rightarrow> 'a bio_state_scheme" where
  "binit s =
     fold binit_one [0..<NBUF]
       (bupd BHEAD (\<lambda>x. x\<lparr>bprev := BHEAD, bnext := BHEAD\<rparr>) (s\<lparr>held := held s - {LBcache}\<rparr>))"

text \<open>
  The two loops of \<open>bget\<close> follow the list of buffers from its head along \<open>next\<close> or \<open>prev\<close> until they
  are back at the head. The list has at most \<open>NBUF\<close> buffers.
\<close>

fun bscan :: "nat \<Rightarrow> (buf \<Rightarrow> nat) \<Rightarrow> nat \<Rightarrow> (buf \<Rightarrow> bool) \<Rightarrow> 'a bio_state_scheme \<Rightarrow>
    'a bio_state_scheme stop + nat option" where
  "bscan 0 link b P s = Inl (Fault ''the list of buffers does not end'')"
| "bscan (Suc n) link b P s =
     (if b = BHEAD then Inr None
      else if P (bget_buf b s) then Inr (Some b)
      else bscan n link (link (bget_buf b s)) P s)"

definition bget :: "u32 \<Rightarrow> u32 \<Rightarrow> 'a bio_state_scheme \<Rightarrow>
    'a bio_state_scheme stop + nat \<times> 'a bio_state_scheme" where
  "bget dev bno s =
     bindr (acquire LBcache s) (\<lambda>s.
     bindr (bscan (Suc NBUF) bnext (bnext (bget_buf BHEAD s)) (\<lambda>x. bdev x = dev \<and> blockno x = bno) s) (\<lambda>r.
     case r of
       Some b \<Rightarrow>
         bindr (release LBcache (bupd b (\<lambda>x. x\<lparr>refcnt := refcnt x + 1\<rparr>) s)) (\<lambda>s.
         bindr (acquiresleep (SLBuf b) s) (\<lambda>s. Inr (b, s)))
     | None \<Rightarrow>
         bindr (bscan (Suc NBUF) bprev (bprev (bget_buf BHEAD s))
                  (\<lambda>x. refcnt x = 0 \<and> bflags x AND B_DIRTY = 0) s) (\<lambda>r.
         case r of
           Some b \<Rightarrow>
             bindr (release LBcache (bupd b (\<lambda>x. x\<lparr>bdev := dev, blockno := bno, bflags := 0, refcnt := 1\<rparr>) s)) (\<lambda>s.
             bindr (acquiresleep (SLBuf b) s) (\<lambda>s. Inr (b, s)))
         | None \<Rightarrow> Inl (Panic ''bget: no buffers''))))"

definition bread :: "u32 \<Rightarrow> u32 \<Rightarrow> 'a bio_state_scheme \<Rightarrow>
    'a bio_state_scheme stop + nat \<times> 'a bio_state_scheme" where
  "bread dev bno s =
     bindr (bget dev bno (s\<lparr>num_disk_reads := num_disk_reads s + 1\<rparr>)) (\<lambda>(b, s).
     if bflags (bget_buf b s) AND B_VALID = 0 then bindr (iderw b s) (\<lambda>s. Inr (b, s))
     else Inr (b, s))"

text \<open>\<open>reboot\<close> resets the machine; nothing follows.\<close>

definition bwrite :: "nat \<Rightarrow> 'a bio_state_scheme \<Rightarrow> 'a bio_state_scheme stop + 'a bio_state_scheme" where
  "bwrite b s =
     bindr (if crashn_enable s \<noteq> 0 then
              let s = s\<lparr>crashn := crashn s - 1\<rparr> in
              if crashn s < 0 then Inl (Panic ''reboot'') else Inr s
            else Inr s) (\<lambda>s.
     bindr (holdingsleep (SLBuf b) s) (\<lambda>(r, s).
     if r = 0 then Inl (Panic ''bwrite'')
     else iderw b (bupd b (\<lambda>x. x\<lparr>bflags := bflags x OR B_DIRTY\<rparr>) s)))"

text \<open>Unlinking a buffer and linking it after the head.\<close>

definition bunlink :: "nat \<Rightarrow> 'a bio_state_scheme \<Rightarrow> 'a bio_state_scheme" where
  "bunlink b s =
     (let s = bupd (bnext (bget_buf b s)) (\<lambda>x. x\<lparr>bprev := bprev (bget_buf b s)\<rparr>) s
      in bupd (bprev (bget_buf b s)) (\<lambda>x. x\<lparr>bnext := bnext (bget_buf b s)\<rparr>) s)"

definition blink :: "nat \<Rightarrow> 'a bio_state_scheme \<Rightarrow> 'a bio_state_scheme" where
  "blink b s =
     (let s = bupd b (\<lambda>x. x\<lparr>bnext := bnext (bget_buf BHEAD s)\<rparr>) s;
          s = bupd b (\<lambda>x. x\<lparr>bprev := BHEAD\<rparr>) s;
          s = bupd (bnext (bget_buf BHEAD s)) (\<lambda>x. x\<lparr>bprev := b\<rparr>) s
      in bupd BHEAD (\<lambda>x. x\<lparr>bnext := b\<rparr>) s)"

definition brelse :: "nat \<Rightarrow> 'a bio_state_scheme \<Rightarrow> 'a bio_state_scheme stop + 'a bio_state_scheme" where
  "brelse b s =
     bindr (holdingsleep (SLBuf b) s) (\<lambda>(r, s).
     if r = 0 then Inl (Panic ''brelse'')
     else
       bindr (releasesleep (SLBuf b) s) (\<lambda>s.
       bindr (acquire LBcache s) (\<lambda>s.
       let s = bupd b (\<lambda>x. x\<lparr>refcnt := refcnt x - 1\<rparr>) s;
           s = (if refcnt (bget_buf b s) = 0 then blink b (bunlink b s) else s)
       in release LBcache s)))"

end
