(* ===== verification/Bio_Ring.thy ===== *)
theory Bio_Ring
  imports Bio
begin

text \<open>
  The doubly linked list of the buffer cache: \<open>binit\<close> builds a ring of all buffers, \<open>brelse\<close> moves
  a buffer to its front, and the scans of \<open>bget\<close> visit every buffer once and end.
\<close>

section \<open>Circular lists as functions\<close>

fun chain :: "('a \<Rightarrow> 'a) \<Rightarrow> 'a \<Rightarrow> 'a list \<Rightarrow> 'a \<Rightarrow> bool" where
  "chain nx a [] c \<longleftrightarrow> a = c"
| "chain nx a (x # xs) c \<longleftrightarrow> a = x \<and> chain nx (nx x) xs c"

lemma chain_append: "chain nx a (xs @ ys) c \<longleftrightarrow> (\<exists>m. chain nx a xs m \<and> chain nx m ys c)"
  by (induction xs arbitrary: a) auto

lemma chain_upd [simp]: "y \<notin> set xs \<Longrightarrow> chain (nx(y := v)) a xs c = chain nx a xs c"
  by (induction xs arbitrary: a) auto

lemma chain_hd: "chain nx a xs c \<Longrightarrow> a = hd (xs @ [c])"
  by (cases xs) auto

text \<open>From \<open>h\<close> through \<open>xs\<close> back to \<open>h\<close>.\<close>

definition circ :: "('a \<Rightarrow> 'a) \<Rightarrow> 'a \<Rightarrow> 'a list \<Rightarrow> bool" where
  "circ nx h xs \<longleftrightarrow> chain nx h (h # xs) h"

lemma circ_next: "circ nx h xs \<Longrightarrow> nx h = hd (xs @ [h])"
  by (simp add: circ_def chain_hd)

lemma circ_mid: "circ nx h (ys @ b # zs) \<Longrightarrow> nx b = hd (zs @ [h])"
  unfolding circ_def append_Cons [symmetric] chain_append by (auto dest: chain_hd)

lemma circ_unlink:
  assumes "circ nx h (ys @ b # zs)" "distinct (h # ys @ b # zs)" "q = last (h # ys)" "v = nx b"
  shows "circ (nx(q := v)) h (ys @ zs)"
proof -
  obtain us where us: "h # ys = us @ [q]" using assms(3) by (metis append_butlast_last_id list.distinct(1))
  then have d: "q \<notin> set us" "q \<notin> set zs" "q \<noteq> b"
    using assms(2) by (metis append_Cons distinct_append distinct.simps(2) not_distinct_conv_prefix Un_iff set_append
      disjoint_insert(1) list.set_intros(1) insert_disjoint(1) list.simps(15) disjoint_iff in_set_conv_decomp)+
  have "chain nx h (us @ [q] @ b # zs) h" using assms(1) us by (simp add: circ_def flip: append_Cons append_assoc)
  then have "chain nx h us q" "nx q = b" "chain nx v zs h" using assms(4) by (auto simp: chain_append)
  with d have "chain (nx(q := v)) h (us @ [q] @ zs) h" by (auto simp: chain_append)
  moreover have "us @ [q] @ zs = h # ys @ zs" using us by (simp flip: append_Cons append_assoc)
  ultimately show ?thesis by (simp only: circ_def)
qed

lemma circ_push:
  assumes "circ nx h xs" "b \<notin> set (h # xs)" "h \<notin> set xs"
  shows "circ (nx(b := nx h, h := b)) h (b # xs)"
  using assms by (auto simp: circ_def)

lemma circ_snoc:
  assumes "circ nx h xs" "b \<notin> set (h # xs)" "distinct (h # xs)" "q = last (h # xs)"
  shows "circ (nx(b := h, q := b)) h (xs @ [b])"
proof -
  obtain us where us: "h # xs = us @ [q]" using assms(4) by (metis append_butlast_last_id list.distinct(1))
  then have d: "q \<notin> set us" "b \<notin> set us" "b \<noteq> q"
    using assms(2,3) by (metis distinct_append disjoint_iff list.set_intros(1) Un_iff set_append)+
  have "chain nx h (us @ [q]) h" using assms(1) us by (simp add: circ_def)
  then have "chain nx h us q" by (auto simp: chain_append)
  with d have "chain (nx(b := h, q := b)) h (us @ [q] @ [b]) h" by (auto simp: chain_append)
  moreover have "us @ [q] @ [b] = h # xs @ [b]" using us by (simp flip: append_Cons append_assoc)
  ultimately show ?thesis by (simp only: circ_def)
qed

section \<open>The ring of buffers\<close>

definition nxt :: "'a bio_state_scheme \<Rightarrow> nat \<Rightarrow> nat" where "nxt s = (\<lambda>i. bnext (bufs s ! i))"

definition prv :: "'a bio_state_scheme \<Rightarrow> nat \<Rightarrow> nat" where "prv s = (\<lambda>i. bprev (bufs s ! i))"

definition ring :: "'a bio_state_scheme \<Rightarrow> nat list \<Rightarrow> bool" where
  "ring s xs \<longleftrightarrow> length (bufs s) = Suc NBUF \<and> distinct xs \<and> set xs \<subseteq> {..<NBUF} \<and>
     circ (nxt s) BHEAD xs \<and> circ (prv s) BHEAD (rev xs)"

lemma nxt_bupd: "b < length (bufs s) \<Longrightarrow> nxt (bupd b f s) = (nxt s)(b := bnext (f (bufs s ! b)))"
  by (auto simp: nxt_def bupd_def nth_list_update_if)

lemma prv_bupd: "b < length (bufs s) \<Longrightarrow> prv (bupd b f s) = (prv s)(b := bprev (f (bufs s ! b)))"
  by (auto simp: prv_def bupd_def nth_list_update_if)

lemma length_bupd [simp]: "length (bufs (bupd b f s)) = length (bufs s)"
  by (simp add: bupd_def)

lemma ring_hd:
  assumes "ring s xs"
  shows "nxt s BHEAD = hd (xs @ [BHEAD])" "prv s BHEAD = hd (rev xs @ [BHEAD])"
  using assms circ_next by (auto simp: ring_def)

lemma hd_le:
  assumes "set xs \<subseteq> {..<n}" shows "hd (xs @ [n]) \<le> (n :: nat)"
  using assms by (cases xs) auto

text \<open>The scans return the first buffer of the list that satisfies the test.\<close>

lemma bscan_path:
  assumes "chain (\<lambda>i. link (bufs s ! i)) b xs BHEAD" "BHEAD \<notin> set xs" "length xs < n"
  shows "bscan n link b P s = Inr (List.find (\<lambda>b. P (bget_buf b s)) xs)"
  using assms
proof (induction xs arbitrary: b n)
  case Nil
  then show ?case by (cases n) auto
next
  case (Cons x xs)
  then show ?case by (cases n) (auto simp: bget_buf_def)
qed

lemma ring_length: "ring s xs \<Longrightarrow> length xs \<le> NBUF"
  using card_mono [of "{..<NBUF}" "set xs"] by (auto simp: ring_def distinct_card)

lemma bscan_ring:
  assumes "ring s xs"
  shows "bscan (Suc NBUF) bnext (bnext (bget_buf BHEAD s)) P s = Inr (List.find (\<lambda>b. P (bget_buf b s)) xs)"
    and "bscan (Suc NBUF) bprev (bprev (bget_buf BHEAD s)) P s = Inr (List.find (\<lambda>b. P (bget_buf b s)) (rev xs))"
  using assms ring_length [OF assms]
  by (auto simp: ring_def circ_def nxt_def prv_def bget_buf_def intro!: bscan_path [unfolded bget_buf_def])

lemma last_rev_hd: "last (h # rev xs) = hd (xs @ [h])"
  by (cases xs) auto

lemma hd_rev_last: "hd (rev xs @ [h]) = last (h # xs)"
  by (cases xs rule: rev_cases) auto

lemma bunlink_ring:
  assumes r: "ring s (ys @ b # zs)"
  shows "ring (bunlink b s) (ys @ zs)"
proof -
  have len: "length (bufs s) = Suc NBUF" and sub: "set (ys @ b # zs) \<subseteq> {..<NBUF}" and d: "distinct (ys @ b # zs)"
    and n: "circ (nxt s) BHEAD (ys @ b # zs)" and p: "circ (prv s) BHEAD (rev zs @ b # rev ys)"
    using r by (simp_all add: ring_def)
  have dh: "distinct (BHEAD # ys @ b # zs)" "distinct (BHEAD # rev zs @ b # rev ys)" using d sub by auto
  define q q' where "q = last (BHEAD # ys)" and "q' = last (BHEAD # rev zs)"
  have pb: "bprev (bufs s ! b) = q" "bnext (bufs s ! b) = q'"
    using circ_mid [OF p] circ_mid [OF n] hd_rev_last [of ys BHEAD] last_rev_hd [of BHEAD zs]
    by (simp_all add: prv_def nxt_def q_def q'_def)
  have qq: "q < length (bufs s)" "q' < length (bufs s)" "b < length (bufs s)" "q' \<noteq> b"
    using sub dh len last_in_set [of "BHEAD # ys"] last_in_set [of "BHEAD # rev zs"] by (auto simp: q_def q'_def)
  have "nxt (bunlink b s) = (nxt s)(q := nxt s b)" "prv (bunlink b s) = (prv s)(q' := prv s b)"
    using qq pb
    by (simp_all add: bunlink_def Let_def nxt_bupd prv_bupd bget_buf_def nxt_def prv_def fun_eq_iff
        bupd_def nth_list_update_if)
  then show ?thesis
    using circ_unlink [OF n dh(1) q_def refl] circ_unlink [OF p dh(2) q'_def refl] len sub d
    by (auto simp: ring_def bunlink_def Let_def)
qed

lemma push_ring:
  assumes r: "ring s xs" and b: "b < NBUF" "b \<notin> set xs"
    and len: "length (bufs s') = length (bufs s)"
    and n: "nxt s' = (nxt s)(b := nxt s BHEAD, BHEAD := b)"
    and p: "prv s' = (prv s)(b := BHEAD, nxt s BHEAD := b)"
  shows "ring s' (b # xs)"
proof -
  have sub: "set xs \<subseteq> {..<NBUF}" "distinct xs" using r by (simp_all add: ring_def)
  have h: "BHEAD \<notin> set xs" using sub by auto
  have "circ (nxt s') BHEAD (b # xs)"
    using r b h unfolding n by (intro circ_push) (auto simp: ring_def)
  moreover have "circ (prv s') BHEAD (rev xs @ [b])"
    unfolding p ring_hd(1) [OF r] last_rev_hd [symmetric]
    using r b h sub by (intro circ_snoc) (auto simp: ring_def)
  ultimately show ?thesis using r b len by (simp add: ring_def)
qed

lemma blink_ring:
  assumes r: "ring s xs" and b: "b < NBUF" "b \<notin> set xs"
  shows "ring (blink b s) (b # xs)"
proof (rule push_ring [OF r b])
  have len: "length (bufs s) = Suc NBUF" and h: "bnext (bufs s ! BHEAD) \<le> BHEAD" "bnext (bufs s ! BHEAD) \<noteq> b"
    using r ring_hd(1) [OF r] hd_le [of xs BHEAD] b by (cases xs; auto simp: ring_def nxt_def)+
  show "length (bufs (blink b s)) = length (bufs s)" by (simp add: blink_def Let_def)
  show "nxt (blink b s) = (nxt s)(b := nxt s BHEAD, BHEAD := b)"
    "prv (blink b s) = (prv s)(b := BHEAD, nxt s BHEAD := b)"
    using len h b(1)
    by (auto simp: blink_def Let_def nxt_def prv_def bget_buf_def bupd_def nth_list_update_if fun_eq_iff)
qed

text \<open>What the caller of \<open>brelse\<close> sees: the buffer is at the front.\<close>

lemma move_front_ring:
  assumes "ring s xs" "b \<in> set xs"
  shows "ring (blink b (bunlink b s)) (b # remove1 b xs)"
proof -
  obtain ys zs where xs: "xs = ys @ b # zs" using assms(2) by (auto simp: in_set_conv_decomp)
  have d: "b \<notin> set ys" "b \<notin> set zs" "b < NBUF" using assms(1) xs by (auto simp: ring_def)
  then have "remove1 b xs = ys @ zs" using xs by (simp add: remove1_append)
  with blink_ring [OF bunlink_ring [OF assms(1) [unfolded xs]] d(3)] d show ?thesis by simp
qed

lemma binit_one_ring:
  assumes r: "ring s xs" and b: "b < NBUF" "b \<notin> set xs"
  shows "ring (binit_one b s) (b # xs)"
proof (rule push_ring [OF r b])
  have len: "length (bufs s) = Suc NBUF" and h: "bnext (bufs s ! BHEAD) \<le> BHEAD" "bnext (bufs s ! BHEAD) \<noteq> b"
    using r ring_hd(1) [OF r] hd_le [of xs BHEAD] b by (cases xs; auto simp: ring_def nxt_def)+
  show "length (bufs (binit_one b s)) = length (bufs s)"
    by (simp add: binit_one_def Let_def initsleeplock_def sl_upd_def bupd_def)
  show "nxt (binit_one b s) = (nxt s)(b := nxt s BHEAD, BHEAD := b)"
    "prv (binit_one b s) = (prv s)(b := BHEAD, nxt s BHEAD := b)"
    using len h b(1)
    by (auto simp: binit_one_def Let_def nxt_def prv_def bget_buf_def bupd_def nth_list_update_if fun_eq_iff
        initsleeplock_def sl_upd_def)
qed

lemma binit_ring:
  assumes "length (bufs s) = Suc NBUF"
  shows "ring (binit s) (rev [0..<NBUF])"
proof -
  let ?s0 = "bupd BHEAD (\<lambda>x. x\<lparr>bprev := BHEAD, bnext := BHEAD\<rparr>) (s\<lparr>held := held s - {LBcache}\<rparr>)"
  have "ring ?s0 []"
    using assms by (simp add: ring_def circ_def nxt_def prv_def bupd_def)
  then have "ring (fold binit_one [0..<n] ?s0) (rev [0..<n])" if "n \<le> NBUF" for n
    using that by (induction n) (auto intro: binit_one_ring)
  then show ?thesis by (simp only: binit_def)
qed

end
