(* ===== verification/Bio_Inv.thy ===== *)
theory Bio_Inv
  imports Bio_Ring
begin

text \<open>
  The contract of the buffer cache: no disk block is cached twice, an unlocked valid buffer holds
  what is on the disk, \<open>bread\<close> returns the contents of the block, \<open>bwrite\<close> changes that block
  of the disk and no other, and \<open>brelse\<close> keeps the invariant. Operations return, or sleep until
  another process releases the buffer.
\<close>

section \<open>Sleep locks, seen from above\<close>

text \<open>A process is running in the kernel and holds no spin lock.\<close>

definition running :: "'a sl_state_scheme \<Rightarrow> bool" where
  "running s \<longleftrightarrow> held s = {} \<and> (\<exists>me. cur s = Some me \<and> me < length (ptable s))"

text \<open>The layers above the locks, memory, the current process and the containers are as they were.\<close>

definition smore :: "'a sl_state_scheme \<Rightarrow> 'a sl_state_scheme \<Rightarrow> bool" where
  "smore s s' \<longleftrightarrow> sl_state.more s' = sl_state.more s \<and> pmem s' = pmem s \<and> cr3 s' = cr3 s \<and> cur s' = cur s \<and>
     map cid (ptable s') = map cid (ptable s)"

lemma smore_refl [simp]: "smore s s" by (simp add: smore_def)

lemma map_update_same: "f y = f (xs ! i) \<Longrightarrow> map f (xs[i := y]) = map f xs"
  by (cases "i < length xs") (auto simp: list_update_beyond nth_list_update_if intro!: nth_equalityI)

lemma cid_wake [simp]: "cid (wake P p) = cid p"
  by (simp add: wake_def)

lemma acquiresleep_total:
  assumes "running s"
  shows "wpt (\<lambda>s'. running s' \<and> smore s s' \<and> slocked (slocks s l) = 0 \<and>
      slocks s' = (slocks s)(l := slocks s' l) \<and> slocked (slocks s' l) = 1)
    (\<lambda>t. smore s t \<and> slocks t = slocks s \<and> held t = {LPtable} \<and> slocked (slocks s l) \<noteq> 0) (acquiresleep l s)"
proof (cases "slocked (slocks s l) = 0")
  case True
  then show ?thesis
    using assms by (auto simp: acquiresleep_def acquiresleep_loop_def running_def wpt_eq myproc_def Let_def sl_upd_def smore_def)
next
  case False
  obtain me where me: "cur s = Some me" "me < length (ptable s)" "held s = {}" using assms by (auto simp: running_def)
  have "insert LPtable {LSleep l} - {LSleep l} = {LPtable}" by auto
  with False me show ?thesis
    by (simp add: acquiresleep_def acquiresleep_loop_def sleep_def sched_def holding_def myproc_def wpt_eq pget_def
        pupd_def smore_def map_update_same)
qed

lemma proc_chan_ChSleep [simp]: "proc_chan p \<noteq> ChSleep l"
  by (simp add: proc_chan_def split: option.split)

lemma releasesleep_total:
  assumes "running s"
  shows "wpt (\<lambda>s'. running s' \<and> smore s s' \<and> slocks s' = (slocks s)(l := slocks s' l) \<and> slocked (slocks s' l) = 0)
    Q (releasesleep l s)"
proof -
  obtain me where me: "cur s = Some me" "me < length (ptable s)" "held s = {}" using assms by (auto simp: running_def)
  have "{LPtable, LSleep l} - {LPtable} = {LSleep l}" by auto
  with me show ?thesis
    by (simp add: releasesleep_def wakeup_def wpt_eq Let_def running_def smore_def sl_upd_def wakeup1_def comp_def)
qed

lemma holdingsleep_total:
  assumes "running s"
  shows "holdingsleep l s = Inr (slocked (slocks s l), s)"
proof -
  have "s\<lparr>held := {}\<rparr> = s" using assms by (simp add: running_def)
  then show ?thesis using assms by (simp add: holdingsleep_def running_def)
qed

section \<open>Flags\<close>

lemma valid_bit: "(x :: u32) AND 2 = 0 \<longleftrightarrow> \<not> bit x 1" and dirty_bit: "(x :: u32) AND 4 = 0 \<longleftrightarrow> \<not> bit x 2"
  using and_exp_eq_0_iff_not_bit [of x 1] and_exp_eq_0_iff_not_bit [of x 2] by simp_all

lemma bit_2: "bit (2 :: u32) k \<longleftrightarrow> k = 1" and bit_4: "bit (4 :: u32) k \<longleftrightarrow> k = 2"
  using bit_exp_iff [where 'a = u32, of 1 k] bit_exp_iff [where 'a = u32, of 2 k] by auto

lemma bit_6: "bit (6 :: u32) k \<longleftrightarrow> k = 1 \<or> k = 2"
proof -
  have "(6 :: u32) = 2 OR 4" by simp
  then show ?thesis by (simp only: bit_or_iff bit_2 bit_4)
qed

lemma valid_not_dirty: "(x :: u32) AND 6 = 2 \<longleftrightarrow> bit x 1 \<and> \<not> bit x 2"
proof
  assume "x AND 6 = 2"
  then have "bit (x AND 6) k = bit (2 :: u32) k" for k by (simp only:)
  from this [of 1] this [of 2] show "bit x 1 \<and> \<not> bit x 2" by (simp only: bit_and_iff bit_2 bit_6) auto
next
  assume "bit x 1 \<and> \<not> bit x 2"
  then show "x AND 6 = 2" by (intro bit_word_eqI) (simp only: bit_and_iff bit_2 bit_6, blast)
qed

lemma set_valid: "bit (x OR 2 :: u32) 1" "bit (x OR 2 :: u32) 2 = bit x 2"
  and set_dirty: "bit (x OR 4 :: u32) 2" "bit (x OR 4 :: u32) 1 = bit x 1"
  and clear_dirty: "\<not> bit (x AND NOT 4 :: u32) 2" "bit (x AND NOT 4 :: u32) 1 = bit x 1"
  by (simp_all only: bit_or_iff bit_and_iff bit_not_iff bit_2 bit_4 possible_bit_word) simp_all

lemma clear_dirty_num: "\<not> bit (x AND - 5 :: u32) 2" "bit (x AND - 5 :: u32) 1 = bit x 1"
proof -
  have "(- 5 :: u32) = NOT 4" by simp
  then show "\<not> bit (x AND - 5 :: u32) 2" "bit (x AND - 5 :: u32) 1 = bit x 1" by (simp_all only: clear_dirty not_False_eq_True)
qed

lemmas flag_bits = clear_dirty_num [unfolded One_nat_def] valid_bit dirty_bit valid_not_dirty
  set_valid [unfolded One_nat_def] set_dirty [unfolded One_nat_def] clear_dirty [unfolded One_nat_def]

section \<open>The invariant\<close>

definition bcache_ok :: "'a bio_state_scheme \<Rightarrow> bool" where
  "bcache_ok s \<longleftrightarrow> (\<exists>xs. ring s xs \<and> set xs = {..<NBUF}) \<and>
     (\<forall>b < NBUF. \<not> bit (bflags (bufs s ! b)) 2 \<and> (bit (bflags (bufs s ! b)) 1 \<longrightarrow> bdev (bufs s ! b) = 1)) \<and>
     (\<forall>b < NBUF. \<forall>c < NBUF. bdev (bufs s ! b) = 1 \<and> bdev (bufs s ! c) = 1 \<and>
        blockno (bufs s ! b) = blockno (bufs s ! c) \<longrightarrow> b = c) \<and>
     (\<forall>b < NBUF. slocked (slocks s (SLBuf b)) = 0 \<and> bit (bflags (bufs s ! b)) 1 \<longrightarrow>
        bdata (bufs s ! b) = disk s (unat (blockno (bufs s ! b))))"

lemma smore_fields:
  assumes "smore s s'"
  shows "bufs s' = bufs s" "disk s' = disk s" "disksize s' = disksize s" "crashn_enable s' = crashn_enable s"
  using assms by (cases s; cases s'; simp add: smore_def)+

text \<open>What every operation of the cache keeps, and the reference counts it changes.\<close>

definition bkeep :: "'a bio_state_scheme \<Rightarrow> 'a bio_state_scheme \<Rightarrow> bool" where
  "bkeep s s' \<longleftrightarrow> bio_state.more s' = bio_state.more s \<and> pmem s' = pmem s \<and> cr3 s' = cr3 s \<and> cur s' = cur s \<and>
     map cid (ptable s') = map cid (ptable s)"

lemma bkeep_refl [simp]: "bkeep s s" by (simp add: bkeep_def)

lemma bkeep_trans: "bkeep s t \<Longrightarrow> bkeep t u \<Longrightarrow> bkeep s u" by (simp add: bkeep_def)

lemma smore_bkeep: "smore s s' \<Longrightarrow> bkeep s s'"
  by (cases s; cases s') (simp add: smore_def bkeep_def)

definition refcnts :: "'a bio_state_scheme \<Rightarrow> u32 list" where
  "refcnts s = map refcnt (bufs s)"

lemma bkeep_upds [simp]:
  "bkeep s (bupd b f t) = bkeep s t" "bkeep s (t\<lparr>disk := d\<rparr>) = bkeep s t" "bkeep s (t\<lparr>held := h\<rparr>) = bkeep s t"
  "bkeep s (t\<lparr>num_disk_reads := n\<rparr>) = bkeep s t" "bkeep (bupd b f s) t = bkeep s t"
  "bkeep (s\<lparr>num_disk_reads := n\<rparr>) t = bkeep s t" "bkeep (s\<lparr>held := h\<rparr>) t = bkeep s t"
  by (simp_all add: bkeep_def bupd_def)

lemma refcnts_upds [simp]:
  "refcnts (s\<lparr>disk := d\<rparr>) = refcnts s" "refcnts (s\<lparr>held := h\<rparr>) = refcnts s" "refcnts (s\<lparr>num_disk_reads := n\<rparr>) = refcnts s"
  by (simp_all add: refcnts_def)

lemma refcnts_bupd: "refcnts (bupd b f s) = (refcnts s)[b := refcnt (f (bufs s ! b))]"
  by (simp add: refcnts_def bupd_def map_update)

lemma refcnts_bupd_same: "refcnt (f (bufs s ! b)) = refcnt (bufs s ! b) \<Longrightarrow> refcnts (bupd b f s) = refcnts s"
  by (simp add: refcnts_def bupd_def map_update_same)

lemma bcache_okD:
  assumes "bcache_ok s"
  shows "\<exists>xs. ring s xs \<and> set xs = {..<NBUF}" "length (bufs s) = Suc NBUF"
    and "b < NBUF \<Longrightarrow> \<not> bit (bflags (bufs s ! b)) 2" "b < NBUF \<Longrightarrow> bit (bflags (bufs s ! b)) 1 \<Longrightarrow> bdev (bufs s ! b) = 1"
    and "b < NBUF \<Longrightarrow> c < NBUF \<Longrightarrow> bdev (bufs s ! b) = 1 \<Longrightarrow> bdev (bufs s ! c) = 1 \<Longrightarrow>
      blockno (bufs s ! b) = blockno (bufs s ! c) \<Longrightarrow> b = c"
    and "b < NBUF \<Longrightarrow> slocked (slocks s (SLBuf b)) = 0 \<Longrightarrow> bit (bflags (bufs s ! b)) 1 \<Longrightarrow>
      bdata (bufs s ! b) = disk s (unat (blockno (bufs s ! b)))"
  using assms unfolding bcache_ok_def by (blast, force simp: ring_def, blast+)

text \<open>The same buffers, disk and, at least, locks.\<close>

lemma bcache_ok_more:
  assumes "bcache_ok s" "bufs s' = bufs s" "disk s' = disk s"
    and "\<And>b. b < NBUF \<Longrightarrow> slocked (slocks s' (SLBuf b)) = 0 \<Longrightarrow> slocked (slocks s (SLBuf b)) = 0"
  shows "bcache_ok s'"
proof -
  have "ring s' = ring s" using assms(2) by (simp add: ring_def nxt_def prv_def fun_eq_iff)
  then show ?thesis using assms unfolding bcache_ok_def by auto
qed

text \<open>A change of buffer \<open>b\<close> that leaves the list and the other buffers alone.\<close>

lemma ring_bupd:
  assumes "\<And>x. bnext (f x) = bnext x" "\<And>x. bprev (f x) = bprev x"
  shows "ring (bupd b f s) xs = ring s xs"
proof (cases "b < length (bufs s)")
  case True
  then have "nxt (bupd b f s) = nxt s" "prv (bupd b f s) = prv s"
    using assms by (auto simp: nxt_def prv_def bupd_def nth_list_update_if fun_eq_iff)
  then show ?thesis by (simp add: ring_def)
next
  case False
  then have "bufs (bupd b f s) = bufs s" by (simp add: bupd_def list_update_beyond)
  then show ?thesis by (simp add: ring_def nxt_def prv_def)
qed

lemma bcache_ok_bupd:
  assumes ok: "bcache_ok s" and b: "b < NBUF"
    and link: "\<And>x. bnext (f x) = bnext x" "\<And>x. bprev (f x) = bprev x"
    and s': "bufs s' = bufs (bupd b f s)" "slocks s' = slocks s"
      "\<And>c. c < NBUF \<Longrightarrow> c \<noteq> b \<Longrightarrow> bit (bflags (bufs s ! c)) 1 \<Longrightarrow> disk s' (unat (blockno (bufs s ! c))) = disk s (unat (blockno (bufs s ! c)))"
    and new: "\<not> bit (bflags (f (bufs s ! b))) 2" "bit (bflags (f (bufs s ! b))) 1 \<Longrightarrow> bdev (f (bufs s ! b)) = 1"
      "\<And>c. c < NBUF \<Longrightarrow> c \<noteq> b \<Longrightarrow> bdev (f (bufs s ! b)) = 1 \<Longrightarrow> bdev (bufs s ! c) = 1 \<Longrightarrow>
         blockno (bufs s ! c) \<noteq> blockno (f (bufs s ! b))"
      "slocked (slocks s (SLBuf b)) = 0 \<Longrightarrow> bit (bflags (f (bufs s ! b))) 1 \<Longrightarrow>
         bdata (f (bufs s ! b)) = disk s' (unat (blockno (f (bufs s ! b))))"
  shows "bcache_ok s'"
proof -
  have nth: "bufs s' ! c = (if c = b then f (bufs s ! b) else bufs s ! c)" for c
    using b s'(1) bcache_okD(2) [OF ok] by (simp add: bupd_def nth_list_update_if)
  have "ring s' = ring (bupd b f s)" using s'(1) by (simp add: ring_def nxt_def prv_def fun_eq_iff)
  then have "\<exists>xs. ring s' xs \<and> set xs = {..<NBUF}" using bcache_okD(1) [OF ok] by (simp add: ring_bupd [OF link])
  moreover have "\<not> bit (bflags (bufs s' ! c)) 2 \<and> (bit (bflags (bufs s' ! c)) 1 \<longrightarrow> bdev (bufs s' ! c) = 1)" if "c < NBUF" for c
    using new(1,2) bcache_okD(3,4) [OF ok that] by (simp add: nth)
  moreover have "c = d" if "c < NBUF" "d < NBUF" "bdev (bufs s' ! c) = 1 \<and> bdev (bufs s' ! d) = 1 \<and>
      blockno (bufs s' ! c) = blockno (bufs s' ! d)" for c d
    using that bcache_okD(5) [OF ok that(1,2)] new(3) [of c] new(3) [of d] by (auto simp: nth split: if_splits)
  moreover have "bdata (bufs s' ! c) = disk s' (unat (blockno (bufs s' ! c)))"
    if "c < NBUF" "slocked (slocks s' (SLBuf c)) = 0 \<and> bit (bflags (bufs s' ! c)) 1" for c
    using that bcache_okD(6) [OF ok that(1)] new(4) s'(2,3) by (auto simp: nth split: if_splits)
  ultimately show ?thesis unfolding bcache_ok_def by blast
qed

section \<open>Reading and writing a locked buffer\<close>

lemma running_bio [simp]:
  "running (bupd b f s) = running s" "running (s\<lparr>disk := d\<rparr>) = running s"
  "running (s\<lparr>num_disk_reads := n\<rparr>) = running s" "running (s\<lparr>crashn := c\<rparr>) = running s"
  by (simp_all add: running_def bupd_def)

lemma bupd_simps [simp]:
  "slocks (bupd b f s) = slocks s" "disk (bupd b f s) = disk s" "disksize (bupd b f s) = disksize s"
  "held (bupd b f s) = held s" "crashn_enable (bupd b f s) = crashn_enable s"
  by (simp_all add: bupd_def)

lemma bupd_proc [simp]: "cur (bupd b f s) = cur s" "ptable (bupd b f s) = ptable s"
  by (simp_all add: bupd_def)

lemma bcache_ok_held [simp]: "bcache_ok (s\<lparr>held := h\<rparr>) = bcache_ok s"
  by (simp add: bcache_ok_def ring_def nxt_def prv_def)

lemma bget_bupd: "b < length (bufs s) \<Longrightarrow> bget_buf c (bupd b f s) = (if c = b then f (bget_buf b s) else bget_buf c s)"
  by (simp add: bget_buf_def bupd_def nth_list_update_if)

text \<open>Reading an invalid buffer.\<close>

lemma iderw_read:
  assumes "running s" "slocked (slocks s (SLBuf b)) \<noteq> 0" "length (bufs s) = Suc NBUF" "b < NBUF"
    and "\<not> bit (bflags (bufs s ! b)) 1" "\<not> bit (bflags (bufs s ! b)) 2" "bdev (bufs s ! b) = 1"
    and "unat (blockno (bufs s ! b)) < disksize s"
  shows "iderw b s = Inr (bupd b (\<lambda>x. x\<lparr>bdata := disk s (unat (blockno x)), bflags := bflags x OR B_VALID\<rparr>) s)"
proof -
  have "iderw b s = Inr (bupd b (\<lambda>x. x\<lparr>bflags := bflags x OR B_VALID\<rparr>)
      (bupd b (\<lambda>x. x\<lparr>bdata := disk s (unat (blockno (bufs s ! b)))\<rparr>) s))"
    unfolding iderw_def holdingsleep_total [OF assms(1)]
    using assms(2,5-8) by (simp add: bget_buf_def flag_bits Let_def)
  then show ?thesis using assms(3,4) by (simp add: bupd_def)
qed

text \<open>Writing a dirty buffer.\<close>

lemma iderw_write:
  assumes "running s" "slocked (slocks s (SLBuf b)) \<noteq> 0" "length (bufs s) = Suc NBUF" "b < NBUF"
    and "bit (bflags (bufs s ! b)) 2" "bdev (bufs s ! b) = 1" "unat (blockno (bufs s ! b)) < disksize s"
  shows "iderw b s = Inr ((bupd b (\<lambda>x. x\<lparr>bflags := (bflags x AND NOT B_DIRTY) OR B_VALID\<rparr>) s)
    \<lparr>disk := (disk s)(unat (blockno (bufs s ! b)) := bdata (bufs s ! b))\<rparr>)"
proof -
  have "iderw b s = Inr (bupd b (\<lambda>x. x\<lparr>bflags := bflags x OR B_VALID\<rparr>)
      ((bupd b (\<lambda>x. x\<lparr>bflags := bflags x AND NOT B_DIRTY\<rparr>) s)
         \<lparr>disk := (disk s)(unat (blockno (bufs s ! b)) := bdata (bufs s ! b))\<rparr>))"
    unfolding iderw_def holdingsleep_total [OF assms(1)]
    using assms(2,5-7) by (simp add: bget_buf_def flag_bits Let_def)
  then show ?thesis using assms(3,4) by (simp add: bupd_def)
qed

section \<open>The operations\<close>

definition locked_block :: "nat \<Rightarrow> u32 \<Rightarrow> 'a bio_state_scheme \<Rightarrow> bool" where
  "locked_block b bno s \<longleftrightarrow> b < NBUF \<and> slocked (slocks s (SLBuf b)) \<noteq> 0 \<and> bdev (bufs s ! b) = 1 \<and>
     blockno (bufs s ! b) = bno \<and> bit (bflags (bufs s ! b)) 1"

text \<open>A buffer to use: the block is cached, or some buffer is free.\<close>

definition has_buffer :: "u32 \<Rightarrow> 'a bio_state_scheme \<Rightarrow> bool" where
  "has_buffer bno s \<longleftrightarrow> (\<exists>b < NBUF. bdev (bufs s ! b) = 1 \<and> blockno (bufs s ! b) = bno \<or> refcnt (bufs s ! b) = 0)"

lemma find_Some: "List.find P xs = Some x \<Longrightarrow> x \<in> set xs \<and> P x"
  by (induction xs) (auto split: if_splits)

lemma find_None: "List.find P xs = None \<longleftrightarrow> (\<forall>x \<in> set xs. \<not> P x)"
  by (induction xs) auto

text \<open>Taking the lock of a buffer.\<close>

lemma lock_buffer:
  assumes ok: "bcache_ok s" and "running s" "b < NBUF"
  shows "wpt (\<lambda>s'. bcache_ok s' \<and> running s' \<and> bufs s' = bufs s \<and> disk s' = disk s \<and> disksize s' = disksize s \<and>
      crashn_enable s' = crashn_enable s \<and> bkeep s s' \<and> slocked (slocks s' (SLBuf b)) \<noteq> 0 \<and>
      (bit (bflags (bufs s ! b)) 1 \<longrightarrow> bdata (bufs s ! b) = disk s (unat (blockno (bufs s ! b)))))
    (\<lambda>t. bcache_ok t \<and> held t = {LPtable} \<and> disk t = disk s) (acquiresleep (SLBuf b) s)"
proof (rule wpt_mono [OF acquiresleep_total [OF assms(2), of "SLBuf b"]])
  fix s' assume s': "running s' \<and> smore s s' \<and> slocked (slocks s (SLBuf b)) = 0 \<and>
      slocks s' = (slocks s)(SLBuf b := slocks s' (SLBuf b)) \<and> slocked (slocks s' (SLBuf b)) = 1"
  have k: "slocks s' (SLBuf c) = slocks s (SLBuf c)" if "c \<noteq> b" for c
    using s' that by (metis fun_upd_other slid.inject(1))
  note f = smore_fields [of s s']
  have "bcache_ok s'"
    by (rule bcache_ok_more [OF ok]) (use s' f k in \<open>auto, metis\<close>)
  then show "bcache_ok s' \<and> running s' \<and> bufs s' = bufs s \<and> disk s' = disk s \<and> disksize s' = disksize s \<and>
      crashn_enable s' = crashn_enable s \<and> bkeep s s' \<and> slocked (slocks s' (SLBuf b)) \<noteq> 0 \<and>
      (bit (bflags (bufs s ! b)) 1 \<longrightarrow> bdata (bufs s ! b) = disk s (unat (blockno (bufs s ! b))))"
    using s' f bcache_okD(6) [OF ok assms(3)] smore_bkeep [of s s'] by simp
next
  fix t assume t: "smore s t \<and> slocks t = slocks s \<and> held t = {LPtable} \<and> slocked (slocks s (SLBuf b)) \<noteq> 0"
  then have "bcache_ok t" using smore_fields [of s t] by (intro bcache_ok_more [OF ok]) auto
  then show "bcache_ok t \<and> held t = {LPtable} \<and> disk t = disk s" using t smore_fields [of s t] by simp
qed

definition got_block :: "u32 \<Rightarrow> 'a bio_state_scheme \<Rightarrow> nat \<times> 'a bio_state_scheme \<Rightarrow> bool" where
  "got_block bno s = (\<lambda>(b, s'). b < NBUF \<and> bcache_ok s' \<and> running s' \<and> disk s' = disk s \<and> disksize s' = disksize s \<and>
     crashn_enable s' = crashn_enable s \<and> bkeep s s' \<and> refcnts s' = (refcnts s)[b := refcnts s ! b + 1] \<and>
     slocked (slocks s' (SLBuf b)) \<noteq> 0 \<and> bdev (bufs s' ! b) = 1 \<and> blockno (bufs s' ! b) = bno \<and>
     (bit (bflags (bufs s' ! b)) 1 \<longrightarrow> bdata (bufs s' ! b) = disk s (unat bno)))"

definition waits :: "'a bio_state_scheme \<Rightarrow> 'a bio_state_scheme \<Rightarrow> bool" where
  "waits s t \<longleftrightarrow> bcache_ok t \<and> held t = {LPtable} \<and> disk t = disk s"

lemma lock_got:
  assumes "bcache_ok (bupd b f s)" "running s" "b < NBUF" "length (bufs s) = Suc NBUF"
    and "bdev (f (bufs s ! b)) = 1" "blockno (f (bufs s ! b)) = bno" "refcnt (f (bufs s ! b)) = refcnt (bufs s ! b) + 1"
  shows "wpt (\<lambda>s'. got_block bno s (b, s')) (waits s) (acquiresleep (SLBuf b) (bupd b f s))"
proof -
  have nb: "bufs (bupd b f s) ! b = f (bufs s ! b)" using assms(3,4) by (simp add: bupd_def)
  show ?thesis
    by (rule wpt_mono [OF lock_buffer [OF assms(1) _ assms(3)]])
      (use assms nb refcnts_bupd [of b f s] in \<open>auto simp: got_block_def waits_def refcnts_def\<close>)
qed

lemma held_empty: "running s \<Longrightarrow> s\<lparr>held := {}\<rparr> = s"
  by (simp add: running_def)

lemma bget_total:
  assumes ok: "bcache_ok s" and run: "running s" and buf: "has_buffer bno s"
  shows "wpt (got_block bno s) (waits s) (bget 1 bno s)"
proof -
  obtain xs where xs: "ring s xs" "set xs = {..<NBUF}" using bcache_okD(1) [OF ok] by blast
  have len: "length (bufs s) = Suc NBUF" by (rule bcache_okD(2) [OF ok])
  have h: "held s = {}" using run by (simp add: running_def)
  let ?s1 = "s\<lparr>held := {LBcache}\<rparr>"
  have r1: "ring ?s1 xs" using xs(1) by (simp add: ring_def nxt_def prv_def)
  have fin: "wpt (got_block bno s) (waits s)
      (bindr (release LBcache (bupd b f ?s1)) (\<lambda>s. bindr (acquiresleep (SLBuf b) s) (\<lambda>s. Inr (b, s))))"
    if "bcache_ok (bupd b f s)" "b < NBUF" "bdev (f (bufs s ! b)) = 1" "blockno (f (bufs s ! b)) = bno"
      "refcnt (f (bufs s ! b)) = refcnt (bufs s ! b) + 1" for b f
  proof -
    have "(bupd b f ?s1)\<lparr>held := {}\<rparr> = bupd b f s" using h by (simp add: bupd_def)
    then show ?thesis
      using lock_got [OF that(1) run that(2) len that(3-5)] by (simp add: wpt_eq)
  qed
  have acq: "acquire LBcache s = Inr ?s1" using h by simp
  have run1: "bget 1 bno s = bindr (bscan (Suc NBUF) bnext (bnext (bget_buf BHEAD ?s1))
      (\<lambda>x. bdev x = 1 \<and> blockno x = bno) ?s1) (\<lambda>r.
     case r of
       Some b \<Rightarrow>
         bindr (release LBcache (bupd b (\<lambda>x. x\<lparr>refcnt := refcnt x + 1\<rparr>) ?s1)) (\<lambda>s.
         bindr (acquiresleep (SLBuf b) s) (\<lambda>s. Inr (b, s)))
     | None \<Rightarrow>
         bindr (bscan (Suc NBUF) bprev (bprev (bget_buf BHEAD ?s1))
                  (\<lambda>x. refcnt x = 0 \<and> bflags x AND B_DIRTY = 0) ?s1) (\<lambda>r.
         case r of
           Some b \<Rightarrow>
             bindr (release LBcache (bupd b (\<lambda>x. x\<lparr>bdev := 1, blockno := bno, bflags := 0, refcnt := 1\<rparr>) ?s1)) (\<lambda>s.
             bindr (acquiresleep (SLBuf b) s) (\<lambda>s. Inr (b, s)))
         | None \<Rightarrow> Inl (Panic ''bget: no buffers'')))"
    by (simp only: bget_def acq bindr_simps)
  show ?thesis
  proof (cases "List.find (\<lambda>b. bdev (bget_buf b ?s1) = 1 \<and> blockno (bget_buf b ?s1) = bno) xs")
    case (Some b)
    then have b: "b < NBUF" "bdev (bufs s ! b) = 1" "blockno (bufs s ! b) = bno"
      using find_Some [OF Some] xs(2) by (auto simp: bget_buf_def)
    have "bcache_ok (bupd b (\<lambda>x. x\<lparr>refcnt := refcnt x + 1\<rparr>) s)"
      by (rule bcache_ok_bupd [OF ok b(1), where f = "\<lambda>x. x\<lparr>refcnt := refcnt x + 1\<rparr>"])
        (use bcache_okD(3-6) [OF ok] b in auto)
    from fin [OF this b(1)] b show ?thesis
      unfolding run1 bscan_ring(1) [OF r1] Some by simp
  next
    case None
    then have none: "\<not> (bdev (bufs s ! c) = 1 \<and> blockno (bufs s ! c) = bno)" if "c < NBUF" for c
      using that xs(2) by (auto simp: find_None bget_buf_def)
    then obtain c where c: "c < NBUF" "refcnt (bufs s ! c) = 0" using buf by (auto simp: has_buffer_def)
    moreover have "\<not> bit (bflags (bufs s ! c)) 2" using bcache_okD(3) [OF ok c(1)] .
    ultimately have "List.find (\<lambda>b. refcnt (bget_buf b ?s1) = 0 \<and> bflags (bget_buf b ?s1) AND B_DIRTY = 0) (rev xs) \<noteq> None"
      using xs(2) by (auto simp: find_None bget_buf_def dirty_bit)
    then obtain b where sb: "List.find (\<lambda>b. refcnt (bget_buf b ?s1) = 0 \<and> bflags (bget_buf b ?s1) AND B_DIRTY = 0) (rev xs) = Some b"
      by blast
    then have b: "b < NBUF" "refcnt (bufs s ! b) = 0" using find_Some [OF sb] xs(2) by (auto simp: bget_buf_def)
    have "bcache_ok (bupd b (\<lambda>x. x\<lparr>bdev := 1, blockno := bno, bflags := 0, refcnt := 1\<rparr>) s)"
      by (rule bcache_ok_bupd [OF ok b(1), where f = "\<lambda>x. x\<lparr>bdev := 1, blockno := bno, bflags := 0, refcnt := 1\<rparr>"])
        (use none in auto)
    from fin [OF this b(1)] b(2) show ?thesis
      by (simp only: run1 bscan_ring [OF r1] None sb bindr_simps option.case) simp
  qed
qed

lemma bread_total:
  assumes ok: "bcache_ok s" and run: "running s" and buf: "has_buffer bno s" and n: "unat bno < disksize s"
  shows "wpt (\<lambda>(b, s'). got_block bno s (b, s') \<and> bit (bflags (bufs s' ! b)) 1) (waits s) (bread 1 bno s)"
proof -
  let ?s = "s\<lparr>num_disk_reads := num_disk_reads s + 1\<rparr>"
  have s: "bcache_ok ?s" "running ?s" "has_buffer bno ?s"
    using ok run buf by (auto simp: has_buffer_def intro!: bcache_ok_more [OF ok])
  have k: "got_block bno ?s = got_block bno s" "waits ?s = waits s" by (simp_all add: got_block_def waits_def fun_eq_iff)
  have "wpt (\<lambda>(b, s'). got_block bno s (b, s') \<and> bit (bflags (bufs s' ! b)) 1) (waits s)
      (if bflags (bget_buf b s') AND B_VALID = 0 then bindr (iderw b s') (\<lambda>s. Inr (b, s)) else Inr (b, s'))"
    if g: "got_block bno s (b, s')" for b s'
  proof (cases "bit (bflags (bufs s' ! b)) 1")
    case True
    then show ?thesis using g by (simp add: bget_buf_def valid_bit)
  next
    case False
    have b: "b < NBUF" "bcache_ok s'" "running s'" "slocked (slocks s' (SLBuf b)) \<noteq> 0" "bdev (bufs s' ! b) = 1"
        "blockno (bufs s' ! b) = bno" "unat bno < disksize s'" "disk s' = disk s"
      using g n by (auto simp: got_block_def)
    let ?f = "\<lambda>x. x\<lparr>bdata := disk s' (unat (blockno x)), bflags := bflags x OR B_VALID\<rparr>"
    have rd: "iderw b s' = Inr (bupd b ?f s')"
      using iderw_read [OF b(3,4) bcache_okD(2) [OF b(2)] b(1) False bcache_okD(3) [OF b(2,1)] b(5)] b(6,7) by simp
    have "bcache_ok (bupd b ?f s')"
      by (rule bcache_ok_bupd [OF b(2,1), where f = ?f])
        (use bcache_okD(3,5) [OF b(2)] b in \<open>auto simp: flag_bits\<close>)
    moreover have "bufs (bupd b ?f s') ! b = ?f (bufs s' ! b)" using b(1) bcache_okD(2) [OF b(2)] by (simp add: bupd_def)
    ultimately have "got_block bno s (b, bupd b ?f s') \<and> bit (bflags (bufs (bupd b ?f s') ! b)) 1"
      using g b refcnts_bupd_same [of ?f s' b] by (simp add: got_block_def flag_bits)
    then show ?thesis using rd False by (simp add: bget_buf_def valid_bit)
  qed
  then show ?thesis
    unfolding bread_def wpt_bindr by (intro wpt_mono [OF bget_total [OF s]]) (auto simp: k)
qed

text \<open>The caller of \<open>bwrite\<close> holds the lock; the machine is not set to crash.\<close>

definition wrote_block :: "nat \<Rightarrow> 'a bio_state_scheme \<Rightarrow> 'a bio_state_scheme \<Rightarrow> bool" where
  "wrote_block b s s' \<longleftrightarrow> bcache_ok s' \<and> running s' \<and> disksize s' = disksize s \<and> slocks s' = slocks s \<and>
     crashn_enable s' = crashn_enable s \<and> bkeep s s' \<and> refcnts s' = refcnts s \<and>
     disk s' = (disk s)(unat (blockno (bufs s ! b)) := bdata (bufs s ! b)) \<and>
     bdata (bufs s' ! b) = bdata (bufs s ! b) \<and> blockno (bufs s' ! b) = blockno (bufs s ! b) \<and>
     bdev (bufs s' ! b) = bdev (bufs s ! b) \<and> bit (bflags (bufs s' ! b)) 1"

lemma bwrite_total:
  assumes ok: "bcache_ok s" and run: "running s" and b: "b < NBUF" "slocked (slocks s (SLBuf b)) \<noteq> 0"
    and dev: "bdev (bufs s ! b) = 1" "unat (blockno (bufs s ! b)) < disksize s" and "crashn_enable s = 0"
  shows "wpt (wrote_block b s) Q (bwrite b s)"
proof -
  have len: "length (bufs s) = Suc NBUF" by (rule bcache_okD(2) [OF ok])
  let ?d = "bupd b (\<lambda>x. x\<lparr>bflags := bflags x OR B_DIRTY\<rparr>) s"
  let ?f = "\<lambda>x. x\<lparr>bflags := ((bflags x OR B_DIRTY) AND NOT B_DIRTY) OR B_VALID\<rparr>"
  let ?s' = "(bupd b ?f s)\<lparr>disk := (disk s)(unat (blockno (bufs s ! b)) := bdata (bufs s ! b))\<rparr>"
  have nd: "bufs ?d ! b = (bufs s ! b)\<lparr>bflags := bflags (bufs s ! b) OR B_DIRTY\<rparr>" using len b(1) by (simp add: bupd_def)
  have "iderw b ?d = Inr ((bupd b (\<lambda>x. x\<lparr>bflags := (bflags x AND NOT B_DIRTY) OR B_VALID\<rparr>) ?d)
      \<lparr>disk := (disk ?d)(unat (blockno (bufs ?d ! b)) := bdata (bufs ?d ! b))\<rparr>)"
    by (rule iderw_write) (use run b dev len nd in \<open>auto simp: flag_bits\<close>)
  also have "\<dots> = Inr ?s'" using len b(1) nd by (simp add: bupd_def)
  finally have "bwrite b s = Inr ?s'"
    using assms(7) b(2) holdingsleep_total [OF run, of "SLBuf b"] by (simp add: bwrite_def)
  moreover have "bcache_ok ?s'"
  proof (rule bcache_ok_bupd [OF ok b(1), where f = ?f])
    fix c assume c: "c < NBUF" "c \<noteq> b" "bit (bflags (bufs s ! c)) 1"
    then have "blockno (bufs s ! c) \<noteq> blockno (bufs s ! b)"
      using bcache_okD(4) [OF ok c(1,3)] bcache_okD(5) [OF ok c(1) b(1)] dev(1) by auto
    then show "disk ?s' (unat (blockno (bufs s ! c))) = disk s (unat (blockno (bufs s ! c)))"
      by (simp add: word_unat_eq_iff)
  qed (use bcache_okD(5) [OF ok] b dev in \<open>auto simp: flag_bits\<close>)
  moreover have "bufs ?s' ! b = ?f (bufs s ! b)" using len b(1) by (simp add: bupd_def)
  ultimately show ?thesis using run refcnts_bupd_same [of ?f s b] by (simp add: wrote_block_def flag_bits)
qed

text \<open>Changes of the links only.\<close>

definition same_buf :: "buf \<Rightarrow> buf \<Rightarrow> bool" where
  "same_buf x y \<longleftrightarrow> bflags y = bflags x \<and> bdev y = bdev x \<and> blockno y = blockno x \<and> bdata y = bdata x"

lemma bcache_ok_links:
  assumes ok: "bcache_ok s" and "ring s' xs" "set xs = {..<NBUF}"
    and "\<And>c. c < NBUF \<Longrightarrow> same_buf (bufs s ! c) (bufs s' ! c)" "slocks s' = slocks s" "disk s' = disk s"
  shows "bcache_ok s'"
proof -
  have same: "bflags (bufs s' ! c) = bflags (bufs s ! c)" "bdev (bufs s' ! c) = bdev (bufs s ! c)"
    "blockno (bufs s' ! c) = blockno (bufs s ! c)" "bdata (bufs s' ! c) = bdata (bufs s ! c)" if "c < NBUF" for c
    using assms(4) [OF that] by (simp_all add: same_buf_def)
  show ?thesis
    using assms(2,3,5,6) bcache_okD(3-6) [OF ok] unfolding bcache_ok_def by (auto simp: same)
qed

lemma blink_same:
  assumes "\<And>x. same_buf x (f x)"
  shows "same_buf (bufs s ! c) (bufs (bupd b f s) ! c)"
  using assms by (cases "b < length (bufs s)") (auto simp: bupd_def nth_list_update_if list_update_beyond same_buf_def)

lemma same_buf_trans: "same_buf x y \<Longrightarrow> same_buf y z \<Longrightarrow> same_buf x z"
  by (simp add: same_buf_def)

lemma move_front_same: "same_buf (bufs s ! c) (bufs (blink b (bunlink b s)) ! c)"
  unfolding blink_def bunlink_def Let_def
  by (rule same_buf_trans [rotated], rule blink_same, simp add: same_buf_def)+ (simp add: same_buf_def)

lemma blink_refcnts: "refcnts (blink b (bunlink b s)) = refcnts s"
  unfolding blink_def bunlink_def Let_def by (simp add: refcnts_bupd_same)

lemma bcache_ok_unlock:
  assumes ok: "bcache_ok s" and f: "bufs t = bufs s" "disk t = disk s"
    and k: "\<And>c. c \<noteq> b \<Longrightarrow> slocks t (SLBuf c) = slocks s (SLBuf c)"
    and clean: "bit (bflags (bufs s ! b)) 1 \<Longrightarrow> bdata (bufs s ! b) = disk s (unat (blockno (bufs s ! b)))"
  shows "bcache_ok t"
proof -
  have r: "ring t = ring s" using f(1) by (simp add: ring_def nxt_def prv_def fun_eq_iff)
  have "bdata (bufs s ! c) = disk s (unat (blockno (bufs s ! c)))"
    if "c < NBUF" "slocked (slocks t (SLBuf c)) = 0 \<and> bit (bflags (bufs s ! c)) 1" for c
    using that clean k bcache_okD(6) [OF ok that(1)] by (cases "c = b") auto
  then show ?thesis using ok unfolding bcache_ok_def f r by blast
qed

lemma brelse_total:
  assumes ok: "bcache_ok s" and run: "running s" and b: "b < NBUF" "slocked (slocks s (SLBuf b)) \<noteq> 0"
    and clean: "bit (bflags (bufs s ! b)) 1 \<Longrightarrow> bdata (bufs s ! b) = disk s (unat (blockno (bufs s ! b)))"
  shows "wpt (\<lambda>s'. bcache_ok s' \<and> running s' \<and> disk s' = disk s \<and> disksize s' = disksize s \<and>
    crashn_enable s' = crashn_enable s \<and> bkeep s s' \<and>
    refcnts s' = (refcnts s)[b := refcnts s ! b - 1] \<and> slocked (slocks s' (SLBuf b)) = 0) Q (brelse b s)"
proof -
  let ?P = "\<lambda>s'. bcache_ok s' \<and> running s' \<and> disk s' = disk s \<and> disksize s' = disksize s \<and>
    crashn_enable s' = crashn_enable s \<and> bkeep s s' \<and> refcnts s' = (refcnts s)[b := refcnts s ! b - 1] \<and> slocked (slocks s' (SLBuf b)) = 0"
  have "wpt ?P Q (bindr (acquire LBcache t) (\<lambda>s.
       let s = bupd b (\<lambda>x. x\<lparr>refcnt := refcnt x - 1\<rparr>) s;
           s = (if refcnt (bget_buf b s) = 0 then blink b (bunlink b s) else s)
       in release LBcache s))"
    if t: "running t" "smore s t" "slocks t = (slocks s)(SLBuf b := slocks t (SLBuf b))" "slocked (slocks t (SLBuf b)) = 0" for t
  proof -
    note f = smore_fields [OF t(2)]
    have k: "slocks t (SLBuf c) = slocks s (SLBuf c)" if "c \<noteq> b" for c
      using t(3) that by (metis fun_upd_other slid.inject(1))
    have okt: "bcache_ok t" by (rule bcache_ok_unlock [OF ok f(1,2) k clean])
    have ht: "held t = {}" using t(1) by (simp add: running_def)
    let ?g = "\<lambda>x. x\<lparr>refcnt := refcnt x - 1\<rparr>"
    let ?u = "bupd b ?g (t\<lparr>held := {LBcache}\<rparr>)"
    have oku: "bcache_ok ?u"
      by (rule bcache_ok_bupd [OF okt b(1), where f = ?g]) (use bcache_okD(3-6) [OF okt] b in \<open>auto simp: bupd_def\<close>)
    obtain xs where xs: "ring ?u xs" "set xs = {..<NBUF}" using bcache_okD(1) [OF oku] by blast
    have "distinct xs" using xs(1) by (simp add: ring_def)
    then have "set (b # remove1 b xs) = {..<NBUF}" using xs(2) b(1) by auto
    then have okv: "bcache_ok (blink b (bunlink b ?u))"
      using xs(2) b(1)
      by (intro bcache_ok_links [OF oku move_front_ring [OF xs(1)] _ move_front_same]) (auto simp: blink_def bunlink_def Let_def)
    have fields: "held v = {LBcache} \<and> disk v = disk s \<and> disksize v = disksize s \<and> crashn_enable v = crashn_enable s \<and>
        slocks v = slocks t \<and> cur v = cur t \<and> ptable v = ptable t \<and> bkeep s v" if "v = ?u \<or> v = blink b (bunlink b ?u)" for v
      using that f smore_bkeep [OF t(2)] by (elim disjE) (simp_all add: blink_def bunlink_def Let_def)
    have "refcnts ?u = (refcnts s)[b := refcnts s ! b - 1]"
      unfolding refcnts_bupd using f(1) b(1) bcache_okD(2) [OF ok] by (simp add: refcnts_def)
    then have ref: "refcnts v = (refcnts s)[b := refcnts s ! b - 1]" if "v = ?u \<or> v = blink b (bunlink b ?u)" for v
      using that by (elim disjE) (simp_all add: blink_refcnts)
    have post: "LBcache \<in> held v \<and> ?P (v\<lparr>held := held v - {LBcache}\<rparr>)" if "v = ?u \<or> v = blink b (bunlink b ?u)" for v
    proof -
      have "bcache_ok v" using that oku okv by blast
      then show ?thesis using fields [OF that] ref [OF that] t(1,4) by (simp add: running_def)
    qed
    have acq: "acquire LBcache t = Inr (t\<lparr>held := {LBcache}\<rparr>)" using ht by simp
    show ?thesis
      unfolding acq bindr_simps Let_def wpt_release by (rule post) auto
  qed
  then show ?thesis
    using b(2) holdingsleep_total [OF run, of "SLBuf b"]
    by (simp add: brelse_def) (simp only: wpt_bindr, rule wpt_mono [OF releasesleep_total [OF run]], auto simp: wpt_bindr)
qed

section \<open>Start-up\<close>

text \<open>Changes of links and locks only.\<close>

definition linked :: "'a bio_state_scheme \<Rightarrow> 'a bio_state_scheme \<Rightarrow> bool" where
  "linked s s' \<longleftrightarrow> (\<forall>c. same_buf (bufs s ! c) (bufs s' ! c) \<and> refcnt (bufs s' ! c) = refcnt (bufs s ! c)) \<and>
     length (bufs s') = length (bufs s) \<and> cur s' = cur s \<and> ptable s' = ptable s \<and> held s' \<subseteq> held s \<and>
     disk s' = disk s \<and> disksize s' = disksize s \<and> crashn_enable s' = crashn_enable s"

lemma linked_refl: "linked s s"
  by (simp add: linked_def same_buf_def)

lemma linked_bupd:
  assumes "linked s t" "\<And>x. same_buf x (f x) \<and> refcnt (f x) = refcnt x"
  shows "linked s (bupd i f t)"
proof -
  have "same_buf (bufs t ! c) (bufs (bupd i f t) ! c) \<and> refcnt (bufs (bupd i f t) ! c) = refcnt (bufs t ! c)" for c
    using assms(2) by (cases "i < length (bufs t)") (auto simp: bupd_def nth_list_update_if list_update_beyond same_buf_def)
  then show ?thesis using assms(1) unfolding linked_def by (simp add: same_buf_def)
qed

lemma linked_init: "linked s t \<Longrightarrow> linked s (initsleeplock l n t)"
  by (auto simp: linked_def initsleeplock_def sl_upd_def)

lemma linked_binit_one: "linked s t \<Longrightarrow> linked s (binit_one b t)"
  unfolding binit_one_def Let_def by (intro linked_bupd linked_init) (simp_all add: same_buf_def)

lemma linked_binit: "linked s (binit s)"
proof -
  have "linked s (s\<lparr>held := held s - {LBcache}\<rparr>)" by (auto simp: linked_def same_buf_def)
  then have "linked s (bupd BHEAD (\<lambda>x. x\<lparr>bprev := BHEAD, bnext := BHEAD\<rparr>) (s\<lparr>held := held s - {LBcache}\<rparr>))"
    by (rule linked_bupd) (simp add: same_buf_def)
  then have "linked s (fold binit_one ks (bupd BHEAD (\<lambda>x. x\<lparr>bprev := BHEAD, bnext := BHEAD\<rparr>) (s\<lparr>held := held s - {LBcache}\<rparr>)))" for ks
    by (induction ks rule: rev_induct) (simp_all add: linked_binit_one)
  then show ?thesis by (simp only: binit_def)
qed

definition fresh_cache :: "'a bio_state_scheme \<Rightarrow> bool" where
  "fresh_cache s \<longleftrightarrow> length (bufs s) = Suc NBUF \<and> (\<forall>b < NBUF. bflags (bufs s ! b) = 0 \<and> bdev (bufs s ! b) = 0 \<and> refcnt (bufs s ! b) = 0)"

lemma binit_ok:
  assumes fr: "fresh_cache s"
  shows "bcache_ok (binit s) \<and> fresh_cache (binit s)"
proof -
  have f: "fresh_cache (binit s)" using fr linked_binit [of s] by (simp add: fresh_cache_def linked_def same_buf_def)
  moreover have "set (rev [0..<NBUF]) = {..<NBUF}" by auto
  ultimately show ?thesis
    using binit_ring [of s] fr unfolding bcache_ok_def fresh_cache_def by auto
qed


definition bio_boot :: bio_state where
  "bio_boot = binit (sl_state.extend sl_boot \<lparr>bufs = replicate 31 \<lparr>bflags = 0, bdev = 0, blockno = 0, refcnt = 0,
     bprev = 0, bnext = 0, qnext = None, bdata = replicate 512 0\<rparr>, num_disk_reads = 0, crashn_enable = 0, crashn = 0,
     disk = (\<lambda>n. replicate 512 (of_nat n)), disksize = 100\<rparr>)"

lemma bio_boot_ok: "bcache_ok bio_boot" "running bio_boot" "has_buffer n bio_boot" "disksize bio_boot = 100" "crashn_enable bio_boot = 0"
proof -
  let ?s = "sl_state.extend sl_boot \<lparr>bufs = replicate 31 \<lparr>bflags = 0, bdev = 0, blockno = 0, refcnt = 0,
     bprev = 0, bnext = 0, qnext = None, bdata = replicate 512 0\<rparr>, num_disk_reads = 0, crashn_enable = 0, crashn = 0,
     disk = (\<lambda>n. replicate 512 (of_nat n)), disksize = 100\<rparr>"
  have "fresh_cache ?s" by (simp add: fresh_cache_def sl_state.defs)
  then have f: "bcache_ok bio_boot" "fresh_cache bio_boot" unfolding bio_boot_def using binit_ok by blast+
  show "bcache_ok bio_boot" by (rule f(1))
  show "has_buffer n bio_boot" unfolding has_buffer_def by (rule exI [of _ 0]) (use f(2) in \<open>simp add: fresh_cache_def\<close>)
  show "running bio_boot" "disksize bio_boot = 100" "crashn_enable bio_boot = 0"
    using linked_binit [of ?s] by (simp_all add: linked_def bio_boot_def running_def sl_state.defs sl_boot_def proc_state.defs two_procs_def)
qed


end
