(* ===== verification/User_Mem.thy ===== *)
theory User_Mem
  imports Paging
begin

text \<open>
  What the kernel does when it follows a pointer of a user program: the address is translated by
  the page table that CR3 names. An access the page table does not allow is a page fault in
  kernel mode, for which \<open>trap\<close> (kernel/trap.c) panics; CR0.WP is set (kernel/entry.S), so writing
  to a read-only page is one. Also the byte order of integers in memory.
\<close>

section \<open>Access through the page table\<close>

definition xlat :: "bool \<Rightarrow> u64 \<Rightarrow> 'a vm_state_scheme \<Rightarrow> 'a vm_state_scheme stop + u64" where
  "xlat write va s =
     (if KBASE \<le> va then Inr va
      else if 2 ^ 47 \<le> va then Inl (Fault ''non-canonical address'')
      else
        let pte = pteof s (P2V (cr3 s)) va in
        if pte AND PTE_P = 0 \<or> write \<and> pte AND PTE_W = 0 then Inl (Panic ''trap'')
        else Inr (P2V (PTE_ADDR pte) + (va AND 0xFFF)))"

fun uload :: "u64 \<Rightarrow> nat \<Rightarrow> 'a vm_state_scheme \<Rightarrow> 'a vm_state_scheme stop + u8 list" where
  "uload va 0 s = Inr []"
| "uload va (Suc n) s =
     bindr (xlat False va s) (\<lambda>p.
     bindr (uload (va + 1) n s) (\<lambda>bs. Inr (pmem s p # bs)))"

fun ustore :: "u64 \<Rightarrow> u8 list \<Rightarrow> 'a vm_state_scheme \<Rightarrow> 'a vm_state_scheme stop + 'a vm_state_scheme" where
  "ustore va [] s = Inr s"
| "ustore va (b # bs) s =
     bindr (xlat True va s) (\<lambda>p. ustore (va + 1) bs (s\<lparr>pmem := (pmem s)(p := b)\<rparr>))"

lemma length_uload: "wp (\<lambda>bs. length bs = n) Q (uload va n s)"
proof (induction n arbitrary: va)
  case (Suc n)
  show ?case by (auto simp: wp_eq xlat_def Let_def intro!: Suc.IH [THEN wp_post])
qed simp

text \<open>Storing changes memory only.\<close>

lemma ustore_frame: "wp (\<lambda>s'. s' = s\<lparr>pmem := pmem s'\<rparr>) Q (ustore va bs s)"
proof (induction bs arbitrary: va s)
  case (Cons b bs)
  show ?case
    by (auto simp: wp_eq xlat_def Let_def intro!: Cons.IH [THEN wp_post])
qed simp

text \<open>What is stored depends on memory and CR3 only.\<close>

lemma ustore_cong:
  fixes s1 :: "'a vm_state_scheme" and s2 :: "'b vm_state_scheme"
  assumes "pmem s2 = pmem s1" "cr3 s2 = cr3 s1" "ustore va bs s1 = Inr t1"
  shows "ustore va bs s2 = Inr (s2\<lparr>pmem := pmem t1\<rparr>)"
  using assms
proof (induction bs arbitrary: va s1 s2)
  case (Cons b bs)
  obtain p where p: "xlat True va s1 = Inr p" "ustore (va + 1) bs (s1\<lparr>pmem := (pmem s1)(p := b)\<rparr>) = Inr t1"
    using Cons.prems(3) by (auto simp: bindr_iff)
  have "xlat True va s2 = Inr p"
    using p(1) Cons.prems(1,2) by (auto simp: xlat_def pteof_def Let_def split: if_splits)
  moreover have "ustore (va + 1) bs (s2\<lparr>pmem := (pmem s2)(p := b)\<rparr>) = Inr (s2\<lparr>pmem := pmem t1\<rparr>)"
    using Cons.IH [OF _ _ p(2), of "s2\<lparr>pmem := (pmem s2)(p := b)\<rparr>"] Cons.prems(1,2) by simp
  ultimately show ?case by simp
qed simp

lemma ustore_append: "ustore va (xs @ ys) s = bindr (ustore va xs s) (ustore (va + of_nat (length xs)) ys)"
  by (induction xs arbitrary: va s) (simp_all add: bindr_assoc add.assoc)

lemma bindr_Inr [simp]: "bindr m Inr = m"
  by (simp add: bindr_def split: sum.split)

lemma uload_append:
  "uload va (m + n) s = bindr (uload va m s) (\<lambda>xs. bindr (uload (va + of_nat m) n s) (\<lambda>ys. Inr (xs @ ys)))"
  by (induction m arbitrary: va) (simp_all add: bindr_assoc add.assoc)

lemma uload_cong:
  fixes s1 :: "'a vm_state_scheme" and s2 :: "'b vm_state_scheme"
  assumes "pmem s2 = pmem s1" "cr3 s2 = cr3 s1" "uload va n s1 = Inr bs"
  shows "uload va n s2 = Inr bs"
  using assms(3)
proof (induction n arbitrary: va bs)
  case (Suc n)
  then obtain p cs where p: "xlat False va s1 = Inr p" "uload (va + 1) n s1 = Inr cs" "bs = pmem s1 p # cs"
    by (auto simp: bindr_iff)
  have "xlat False va s2 = Inr p"
    using p(1) assms(1,2) by (auto simp: xlat_def pteof_def Let_def split: if_splits)
  then show ?case using Suc.IH [OF p(2)] p(3) assms(1) by simp
qed simp

section \<open>Postconditions up to the user's pages\<close>

text \<open>
  \<open>wpm P Q r\<close>: like \<open>wpt\<close>, but the operation may also end because the kernel followed a user
  pointer to a page that is not there.
\<close>

definition wpm :: "('a \<Rightarrow> bool) \<Rightarrow> ('s \<Rightarrow> bool) \<Rightarrow> 's stop + 'a \<Rightarrow> bool" where
  "wpm P Q r = (case r of Inr x \<Rightarrow> P x | Inl (Asleep t) \<Rightarrow> Q t | Inl (Panic m) \<Rightarrow> m = ''trap''
     | Inl (Fault m) \<Rightarrow> m = ''non-canonical address'')"

named_theorems wpm_eq \<open>equations that compute postconditions up to page faults\<close>

lemma wpm_simps [simp, wpm_eq]:
  "wpm P Q (Inr x) = P x" "wpm P Q (Inl (Asleep t)) = Q t"
  "wpm P Q (Inl (Panic m)) = (m = ''trap'')" "wpm P Q (Inl (Fault m)) = (m = ''non-canonical address'')"
  by (simp_all add: wpm_def)

lemma wpm_bindr [wpm_eq]: "wpm P Q (bindr m f) = wpm (\<lambda>x. wpm P Q (f x)) Q m"
  by (simp add: wpm_def split: sum.split stop.split)

lemma wpm_mono:
  assumes "wpm P Q r" "\<And>x. P x \<Longrightarrow> P' x" "\<And>t. Q t \<Longrightarrow> Q' t"
  shows "wpm P' Q' r"
  using assms by (auto simp: wpm_def split: sum.splits stop.splits)

lemma wpm_post: "wpm R Q r \<Longrightarrow> (\<And>x. R x \<Longrightarrow> P x) \<Longrightarrow> wpm P Q r"
  by (rule wpm_mono)

lemma wpt_wpm: "wpt P Q r \<Longrightarrow> wpm P Q r"
  by (auto simp: wpm_def wpt_def split: sum.splits stop.splits)

lemma wpm_deref [wpm_eq]: "wpm P Q (deref m (Some x)) = P x"
  by simp

lemma wpm_locks [wpm_eq]:
  "l \<notin> held s \<Longrightarrow> wpm P Q (acquire l s) = P (s\<lparr>held := insert l (held s)\<rparr>)"
  "l \<in> held s \<Longrightarrow> wpm P Q (release l s) = P (s\<lparr>held := held s - {l}\<rparr>)"
  by simp_all

lemma ustore_wpm: "wpm (\<lambda>s'. ustore va bs s = Inr s' \<and> s' = s\<lparr>pmem := pmem s'\<rparr>) Q (ustore va bs s)"
proof -
  have "wpm (\<lambda>_. True) Q (ustore va bs s)" for s :: "'a vm_state_scheme"
  proof (induction bs arbitrary: va s)
    case (Cons b bs)
    show ?case by (auto simp: wpm_eq xlat_def Let_def Cons.IH)
  qed simp
  from this [of s] show ?thesis
    using ustore_frame [of s Q va bs] by (auto simp: wpm_def wp_def split: sum.splits stop.splits)
qed

lemma uload_wpm: "wpm (\<lambda>bs. uload va n s = Inr bs \<and> length bs = n) Q (uload va n s)"
proof (induction n arbitrary: va)
  case (Suc n)
  have "wpm (\<lambda>bs. uload (va + 1) n s = Inr bs \<and> length bs = n) Q (uload (va + 1) n s)" by (rule Suc.IH)
  then show ?case
    by (auto simp: wpm_eq xlat_def Let_def elim!: wpm_post)
qed simp

section \<open>Byte order\<close>

definition le_bytes :: "nat \<Rightarrow> 'a::len word \<Rightarrow> u8 list" where
  "le_bytes n w = map (\<lambda>i. ucast (drop_bit (8 * i) w)) [0..<n]"

fun le_word :: "u8 list \<Rightarrow> 'a::len word" where
  "le_word [] = 0"
| "le_word (b # bs) = ucast b OR push_bit 8 (le_word bs)"

lemma length_le_bytes [simp]: "length (le_bytes n w) = n"
  by (simp add: le_bytes_def)

lemma le_bytes_Suc: "le_bytes (Suc n) w = ucast w # le_bytes n (drop_bit 8 w)"
  unfolding le_bytes_def by (simp add: upt_conv_Cons map_Suc_upt [symmetric] add.commute del: upt_Suc)

lemma le_word_bytes: "le_word (le_bytes n w) = take_bit (8 * n) w"
proof (induction n arbitrary: w)
  case (Suc n)
  show ?case
    by (rule bit_word_eqI)
      (auto simp: le_bytes_Suc Suc.IH bit_or_iff bit_push_bit_iff bit_take_bit_iff bit_drop_bit_eq bit_ucast_iff)
qed (simp add: le_bytes_def)

lemma le_bytes_word: "8 * length bs \<le> LENGTH('a) \<Longrightarrow> le_bytes (length bs) (le_word bs :: 'a::len word) = bs"
proof (induction bs)
  case (Cons b bs)
  have "ucast (le_word (b # bs) :: 'a word) = b"
    by (rule bit_word_eqI) (use Cons.prems in \<open>auto simp: bit_or_iff bit_push_bit_iff bit_ucast_iff\<close>)
  moreover have "le_bytes (length bs) (drop_bit 8 (le_word (b # bs) :: 'a word)) = le_bytes (length bs) (le_word bs :: 'a word)"
  proof -
    have "ucast (drop_bit (8 * i) (drop_bit 8 (le_word (b # bs) :: 'a word))) = (ucast (drop_bit (8 * i) (le_word bs :: 'a word)) :: u8)"
      if "i < length bs" for i
      by (rule bit_word_eqI)
        (use Cons.prems that in \<open>auto simp: bit_or_iff bit_push_bit_iff bit_ucast_iff bit_drop_bit_eq dest: bit_imp_le_length\<close>)
    then show ?thesis by (simp add: le_bytes_def)
  qed
  ultimately show ?case using Cons by (simp add: le_bytes_Suc)
qed (simp add: le_bytes_def)

lemma le_word_full [simp]:
  "le_word (le_bytes 2 w) = (w :: u16)" "le_word (le_bytes 4 v) = (v :: u32)" "le_word (le_bytes 8 x) = (x :: u64)"
  by (simp_all add: le_word_bytes take_bit_word_eq_self)

end
