(* ===== verification/Ring_Buffer.thy ===== *)
theory Ring_Buffer
  imports Kernel_Prelude
begin

text \<open>
  Ring buffers addressed by free-running 32-bit indices, as kernel/pipe.c and the line editor of
  kernel/console.c use them: byte \<open>i\<close> is at offset \<open>i % N\<close>, and the indices wrap at \<open>2 ^ 32\<close>. The
  locale says for which sizes this works, and gives the bytes between two indices the laws of
  a queue.
\<close>

definition ring_slot :: "nat \<Rightarrow> u32 \<Rightarrow> nat" where
  "ring_slot N i = unat i mod N"

definition ring_contents :: "nat \<Rightarrow> 'a list \<Rightarrow> u32 \<Rightarrow> u32 \<Rightarrow> 'a list" where
  "ring_contents N d r w = map (\<lambda>k. d ! ring_slot N (r + of_nat k)) [0..<unat (w - r)]"

lemma ring_contents_empty [simp]: "ring_contents N d r r = []"
  by (simp add: ring_contents_def)

lemma length_ring_contents [simp]: "length (ring_contents N d r w) = unat (w - r)"
  by (simp add: ring_contents_def)

lemma unat_lt32: "unat (x :: u32) < 2 ^ 32"
  using unsigned_less [of x, where ?'a = nat] by simp

lemma unat_Suc32: "unat (x :: u32) + 1 < 2 ^ 32 \<Longrightarrow> unat (x + 1) = Suc (unat x)"
  by (simp add: unat_word_ariths)

lemma unat_pred32: "(x :: u32) \<noteq> 0 \<Longrightarrow> unat (x - 1) = unat x - 1"
  by (simp add: unat_minus_one)

locale ring_buffer =
  fixes N :: nat
  assumes N_pos: "0 < N" and N_dvd: "N dvd 2 ^ 32" and N_small: "N < 2 ^ 32"
begin

lemma slot_lt [simp]: "ring_slot N i < N"
  using N_pos by (simp add: ring_slot_def)

lemma slot_add: "ring_slot N (r + of_nat k) = (unat r + k) mod N"
proof -
  have "unat (r + of_nat k) = (unat r + k) mod 2 ^ 32"
    by (simp add: unat_word_ariths unat_of_nat mod_add_right_eq)
  then show ?thesis using N_dvd by (simp add: ring_slot_def mod_mod_cancel)
qed

lemma slot_inj:
  assumes "i < N" "j < N" "ring_slot N (r + of_nat i) = ring_slot N (r + of_nat j)"
  shows "i = j"
  using assms
proof (induction i j rule: linorder_wlog)
  case (le i j)
  then have "(unat r + j) mod N = (unat r + i) mod N" by (simp add: slot_add)
  then have "N dvd (unat r + j) - (unat r + i)" using le.hyps by (simp add: mod_eq_dvd_iff_nat)
  then have "N dvd j - i" by simp
  then show ?case using le.prems le.hyps by (auto dest: dvd_imp_le)
next
  case (sym i j)
  then show ?case by metis
qed

text \<open>Adding a byte at the end, taking the first and taking back the last.\<close>

lemma contents_push:
  assumes "length d = N" "unat (w - r) < N"
  shows "ring_contents N (d[ring_slot N w := x]) r (w + 1) = ring_contents N d r w @ [x]"
proof -
  let ?n = "unat (w - r)"
  have w: "w = r + of_nat ?n" by simp
  have "w + 1 - r = (w - r) + 1" by simp
  moreover have "unat (w - r) + 1 < 2 ^ 32" using assms(2) N_small by simp
  ultimately have n: "unat (w + 1 - r) = Suc ?n" by (simp only: unat_Suc32)
  have old: "d[ring_slot N w := x] ! ring_slot N (r + of_nat k) = d ! ring_slot N (r + of_nat k)" if "k < ?n" for k
  proof -
    have "ring_slot N w \<noteq> ring_slot N (r + of_nat k)"
      using slot_inj [of ?n k r] that assms(2) w by auto
    then show ?thesis by simp
  qed
  have "d[ring_slot N w := x] ! ring_slot N (r + of_nat ?n) = x"
    using assms(1) w by (metis nth_list_update_eq slot_lt)
  then show ?thesis unfolding ring_contents_def n using old by simp
qed

lemma contents_pop:
  assumes "r \<noteq> w"
  shows "ring_contents N d r w = d ! ring_slot N r # ring_contents N d (r + 1) w"
proof -
  have "w - r \<noteq> 0" using assms by simp
  then have "unat (w - r) = Suc (unat (w - r - 1))" by (simp add: unat_pred32 unat_gt_0 del: diff_diff_eq2)
  moreover have "w - r - 1 = w - (r + 1)" by simp
  ultimately have n: "unat (w - r) = Suc (unat (w - (r + 1)))" by simp
  have "map (\<lambda>k. d ! ring_slot N (r + of_nat k)) [0..<Suc m] =
      d ! ring_slot N r # map (\<lambda>k. d ! ring_slot N (r + 1 + of_nat k)) [0..<m]" for m
    by (simp add: upt_conv_Cons map_Suc_upt [symmetric] add.commute add.left_commute del: upt_Suc)
  then show ?thesis unfolding ring_contents_def n .
qed

lemma contents_unpush:
  assumes "e \<noteq> r"
  shows "ring_contents N d r e = ring_contents N d r (e - 1) @ [d ! ring_slot N (e - 1)]"
proof -
  have "e - r \<noteq> 0" using assms by simp
  then have "unat (e - r) = Suc (unat (e - r - 1))" by (simp add: unat_pred32 unat_gt_0)
  moreover have "e - r - 1 = e - 1 - r" by simp
  ultimately have n: "unat (e - r) = Suc (unat (e - 1 - r))" by simp
  have "e - 1 = r + of_nat (unat (e - 1 - r))" by simp
  then show ?thesis unfolding ring_contents_def n by simp
qed

text \<open>The bytes up to \<open>e\<close> are those up to \<open>w\<close> and those from there.\<close>

lemma contents_split:
  assumes "unat (w - r) + unat (e - w) = unat (e - r)"
  shows "ring_contents N d r e = ring_contents N d r w @ ring_contents N d w e"
proof -
  have "map (\<lambda>k. d ! ring_slot N (r + of_nat k)) [unat (w - r)..<unat (w - r) + unat (e - w)] =
      map (\<lambda>k. d ! ring_slot N (r + of_nat (unat (w - r) + k))) [0..<unat (e - w)]"
    by (rule nth_equalityI) simp_all
  moreover have "r + of_nat (unat (w - r) + k) = w + of_nat k" for k by simp
  ultimately show ?thesis
    unfolding ring_contents_def assms [symmetric] by (subst upt_add_eq_append) simp_all
qed

end

end
