(* ===== verification/Console.thy ===== *)
theory Console
  imports Bio_Inv User_Mem Ring_Buffer
begin

text \<open>
  Input of the console, the second half of kernel/console.c: the interrupt handler with its line
  editor, reading and writing through the device switch, and \<open>consoleinit\<close>. The input buffer is
  a ring; \<open>r\<close>, \<open>w\<close> and \<open>e\<close> are free-running indices.
\<close>

section \<open>State\<close>

text \<open>The functions the device switch \<open>devsw\<close> (inc/file.h, kernel/file.c) can hold.\<close>

datatype devfn = Consoleread | Consolewrite

record devsw_entry =
  dv_read :: "devfn option"
  dv_write :: "devfn option"

record cons_state = bio_state +
  inbuf :: "u8 list"
  in_r :: u32
  in_w :: u32
  in_e :: u32
  devsw :: "devsw_entry list"

abbreviation (input) INPUT_BUF :: nat where "INPUT_BUF \<equiv> 128"
abbreviation (input) NDEV :: nat where "NDEV \<equiv> 10"
abbreviation (input) CONSOLE :: nat where "CONSOLE \<equiv> 1"
abbreviation (input) CTRL_D :: u32 where "CTRL_D \<equiv> 0x04"
abbreviation (input) CTRL_H :: u32 where "CTRL_H \<equiv> 0x08"
abbreviation (input) CTRL_P :: u32 where "CTRL_P \<equiv> 0x10"
abbreviation (input) CTRL_U :: u32 where "CTRL_U \<equiv> 0x15"

definition consoleinit :: "'a cons_state_scheme \<Rightarrow> 'a cons_state_scheme" where
  "consoleinit s =
     (let s = s\<lparr>held := held s - {LCons}\<rparr>;
          s = s\<lparr>devsw := (devsw s)[CONSOLE := (devsw s ! CONSOLE)\<lparr>dv_write := Some Consolewrite\<rparr>]\<rparr>;
          s = s\<lparr>devsw := (devsw s)[CONSOLE := (devsw s ! CONSOLE)\<lparr>dv_read := Some Consoleread\<rparr>]\<rparr>
      in s\<lparr>cons_locking := True\<rparr>)"

section \<open>The interrupt handler\<close>

text \<open>The loop that kills the line runs at most as often as there are bytes to edit.\<close>

fun kill_line :: "nat \<Rightarrow> 'a cons_state_scheme \<Rightarrow> 'a cons_state_scheme stop + 'a cons_state_scheme" where
  "kill_line 0 s = Inr s"
| "kill_line (Suc n) s =
     (if in_e s \<noteq> in_w s \<and> inbuf s ! ring_slot INPUT_BUF (in_e s - 1) \<noteq> 0x0A then
        bindr (consputc BACKSPACE (s\<lparr>in_e := in_e s - 1\<rparr>)) (kill_line n)
      else Inr s)"

text \<open>One round of the loop of \<open>consoleintr\<close>; the result is whether to list the processes.\<close>

definition cons_char :: "u32 \<Rightarrow> 'a cons_state_scheme \<Rightarrow>
    'a cons_state_scheme stop + bool \<times> 'a cons_state_scheme" where
  "cons_char c s =
     (if c = CTRL_P then Inr (True, s)
      else if c = CTRL_U then bindr (kill_line (unat (in_e s - in_w s)) s) (\<lambda>s. Inr (False, s))
      else if c = CTRL_H \<or> c = 0x7F then
        if in_e s \<noteq> in_w s then
          bindr (consputc BACKSPACE (s\<lparr>in_e := in_e s - 1\<rparr>)) (\<lambda>s. Inr (False, s))
        else Inr (False, s)
      else if c \<noteq> 0 \<and> in_e s - in_r s < of_nat INPUT_BUF then
        let c = (if c = 0x0D then 0x0A else c);
            s = s\<lparr>inbuf := (inbuf s)[ring_slot INPUT_BUF (in_e s) := ucast c], in_e := in_e s + 1\<rparr> in
        bindr (consputc c s) (\<lambda>s.
        if c = 0x0A \<or> c = CTRL_D \<or> in_e s = in_r s + of_nat INPUT_BUF then
          bindr (wakeup ChInput (s\<lparr>in_w := in_e s\<rparr>)) (\<lambda>s. Inr (False, s))
        else Inr (False, s))
      else Inr (False, s))"

fun cons_chars :: "u32 list \<Rightarrow> bool \<Rightarrow> 'a cons_state_scheme \<Rightarrow>
    'a cons_state_scheme stop + bool \<times> 'a cons_state_scheme" where
  "cons_chars [] dump s = Inr (dump, s)"
| "cons_chars (c # cs) dump s = bindr (cons_char c s) (\<lambda>(d, s). cons_chars cs (dump \<or> d) s)"

text \<open>\<open>cs\<close> are the characters \<open>getc\<close> returns before it returns a negative number.\<close>

definition consoleintr :: "u32 list \<Rightarrow> 'a cons_state_scheme \<Rightarrow>
    'a cons_state_scheme stop + 'a cons_state_scheme" where
  "consoleintr cs s =
     bindr (acquire LCons s) (\<lambda>s.
     bindr (cons_chars cs False s) (\<lambda>(dump, s).
     bindr (release LCons s) (\<lambda>s. if dump then procdump s else Inr s)))"

section \<open>Reading and writing\<close>

text \<open>
  The loop of \<open>consoleread\<close> from the moment \<open>n\<close> bytes are still wanted. A reader that finds no
  completed input sleeps; \<open>consoleread_resume\<close> is what it does when it is switched to again, with
  the locals it had.
\<close>

fun consoleread_loop :: "nat \<Rightarrow> nat \<Rightarrow> u64 \<Rightarrow> 'a cons_state_scheme \<Rightarrow>
    'a cons_state_scheme stop + int \<times> 'a cons_state_scheme" where
  "consoleread_loop 0 target dst s = bindr (release LCons s) (\<lambda>s. Inr (int target, s))"
| "consoleread_loop (Suc n) target dst s =
     (if in_r s = in_w s then
        bindr (myproc s) (\<lambda>me.
        if killed (pget me s) \<noteq> 0 then bindr (release LCons s) (\<lambda>s. Inr (-1, s))
        else bindr (sleep ChInput LCons s) (\<lambda>s. Inr (0, s)))
      else
        let c = inbuf s ! ring_slot INPUT_BUF (in_r s);
            s = s\<lparr>in_r := in_r s + 1\<rparr> in
        if c = 0x04 then
          let s = (if Suc n < target then s\<lparr>in_r := in_r s - 1\<rparr> else s) in
          bindr (release LCons s) (\<lambda>s. Inr (int target - int (Suc n), s))
        else
          bindr (ustore dst [c] s) (\<lambda>s.
          if c = 0x0A then bindr (release LCons s) (\<lambda>s. Inr (int target - int n, s))
          else consoleread_loop n target (dst + 1) s))"

definition consoleread :: "u64 \<Rightarrow> int \<Rightarrow> 'a cons_state_scheme \<Rightarrow>
    'a cons_state_scheme stop + int \<times> 'a cons_state_scheme" where
  "consoleread dst n s = bindr (acquire LCons s) (consoleread_loop (nat n) (nat n) dst)"

definition consoleread_resume :: "nat \<Rightarrow> nat \<Rightarrow> u64 \<Rightarrow> 'a cons_state_scheme \<Rightarrow>
    'a cons_state_scheme stop + int \<times> 'a cons_state_scheme" where
  "consoleread_resume n target dst s = bindr (sleep_resume LCons s) (consoleread_loop n target dst)"

definition consolewrite :: "u64 \<Rightarrow> int \<Rightarrow> 'a cons_state_scheme \<Rightarrow>
    'a cons_state_scheme stop + int \<times> 'a cons_state_scheme" where
  "consolewrite buf n s =
     bindr (acquire LCons s) (\<lambda>s.
     bindr (for_range 0 (nat n) (\<lambda>i s.
              bindr (uload (buf + of_nat i) 1 s) (\<lambda>bs. consputc (ucast (hd bs)) s)) s) (\<lambda>s.
     bindr (release LCons s) (\<lambda>s. Inr (n, s))))"

section \<open>The line editor as a queue of completed input and a line being edited\<close>

definition committed :: "'a cons_state_scheme \<Rightarrow> u8 list" where
  "committed s = ring_contents INPUT_BUF (inbuf s) (in_r s) (in_w s)"

definition edited :: "'a cons_state_scheme \<Rightarrow> u8 list" where
  "edited s = ring_contents INPUT_BUF (inbuf s) (in_w s) (in_e s)"

definition input_ok :: "'a cons_state_scheme \<Rightarrow> bool" where
  "input_ok s \<longleftrightarrow> length (inbuf s) = INPUT_BUF \<and>
     unat (in_w s - in_r s) + unat (in_e s - in_w s) = unat (in_e s - in_r s) \<and>
     unat (in_e s - in_r s) \<le> INPUT_BUF \<and> 0x0A \<notin> set (edited s)"

text \<open>What the terminal does with one character.\<close>

fun line_edit :: "u32 \<Rightarrow> u8 list \<times> u8 list \<Rightarrow> u8 list \<times> u8 list" where
  "line_edit c (q, l) =
     (if c = CTRL_P then (q, l)
      else if c = CTRL_U then (q, [])
      else if c = CTRL_H \<or> c = 0x7F then (q, butlast l)
      else if c \<noteq> 0 \<and> length q + length l < INPUT_BUF then
        let c = (if c = 0x0D then 0x0A else c);
            l = l @ [ucast c] in
        if c = 0x0A \<or> c = CTRL_D \<or> length q + length l = INPUT_BUF then (q @ l, []) else (q, l)
      else (q, l))"

text \<open>
  What a reader that wants \<open>n\<close> bytes takes from the completed input: up to and including the
  first newline; an end-of-file character ends the read and is left in the queue when bytes
  were read. None when there is not enough input yet.
\<close>

fun take_input :: "nat \<Rightarrow> bool \<Rightarrow> u8 list \<Rightarrow> (u8 list \<times> u8 list) option" where
  "take_input 0 got q = Some ([], q)"
| "take_input (Suc n) got [] = None"
| "take_input (Suc n) got (c # q) =
     (if c = 0x04 then Some ([], if got then c # q else q)
      else if c = 0x0A then Some ([c], q)
      else map_option (\<lambda>(bs, q). (c # bs, q)) (take_input n True q))"

end
