(* ===== verification/Console_Line.thy ===== *)
theory Console_Line
  imports Console
begin

text \<open>
  The line editor of the console is a queue of completed input and a line being edited:
  \<open>consoleintr\<close> edits the line and completes it, \<open>consoleread\<close> takes a completed line.
\<close>

section \<open>Output does not stop\<close>

definition screen_ok :: "'a scr_state_scheme \<Rightarrow> bool" where
  "screen_ok s \<longleftrightarrow> \<not> panicked s \<and> crt_pos s < 24 * 80"

lemma next_row: "x < 1920 \<Longrightarrow> x + (80 - x mod 80) \<le> (1920 :: nat)"
proof -
  assume "x < 1920"
  then have "x div 80 < 24" by (simp add: less_mult_imp_div_less)
  then have "80 * (x div 80) + 80 \<le> 1920" by simp
  moreover have "80 * (x div 80) + x mod 80 = x" "x mod 80 < 80" by simp_all
  ultimately show ?thesis by linarith
qed

lemma cgaputc_total:
  assumes "screen_ok s"
  shows "wpt screen_ok Q (cgaputc c s)"
proof -
  define t where "t = cga_advance c s"
  have t: "crt_pos t \<le> 24 * 80" "\<not> panicked t"
    using assms next_row [of "crt_pos s"] by (auto simp: t_def cga_advance_def screen_ok_def Let_def)
  show ?thesis
  proof (cases "crt_pos t = 1920")
    case True
    then show ?thesis using t by (simp add: cgaputc_def t_def [symmetric] cga_scroll_def screen_ok_def Let_def)
  next
    case False
    then have "\<not> 24 \<le> crt_pos t div 80" using t by (simp add: less_mult_imp_div_less not_le)
    then show ?thesis using t False by (simp add: cgaputc_def t_def [symmetric] cga_scroll_def screen_ok_def Let_def)
  qed
qed

lemma screen_ok_uart [simp]: "screen_ok (uartputc c s) = screen_ok s"
  by (simp add: screen_ok_def uartputc_def)

lemma consputc_total: "screen_ok s \<Longrightarrow> wpt (\<lambda>s'. screen_ok s' \<and> pfrm s s') Q (consputc c s)"
proof -
  assume "screen_ok s"
  then have "wpt screen_ok Q (consputc c s)"
    by (auto simp: consputc_def intro!: cgaputc_total) (auto simp: screen_ok_def)
  from wpt_wp [OF this consputc_frame [of s Q c]] show ?thesis by simp
qed

lemma consputs_total: "screen_ok s \<Longrightarrow> wpt (\<lambda>s'. screen_ok s' \<and> pfrm s s') Q (consputs cs s)"
proof (induction cs arbitrary: s)
  case (Cons c cs)
  have "wpt (\<lambda>s'. screen_ok s' \<and> pfrm s s') Q (consputs cs t)" if "screen_ok t \<and> pfrm s t" for t
    by (rule wpt_post [OF Cons.IH]) (use that in \<open>auto intro: pfrm_trans\<close>)
  then show ?case by (simp add: wpt_bindr) (rule wpt_post [OF consputc_total [OF Cons.prems]])
qed simp

lemma cprintf_total:
  assumes "screen_ok s" "LCons \<notin> held s" "cformat fmt None args = Some out"
  shows "wpt (\<lambda>s'. screen_ok s' \<and> pfrm s s') Q (cprintf fmt args s)"
proof (cases "cons_locking s")
  case True
  let ?t = "s\<lparr>held := insert LCons (held s)\<rparr>"
  have "screen_ok ?t" using assms(1) by (simp add: screen_ok_def)
  then have "wpt (\<lambda>u. LCons \<in> held u \<and> screen_ok (u\<lparr>held := held u - {LCons}\<rparr>) \<and> pfrm s (u\<lparr>held := held u - {LCons}\<rparr>)) Q
      (consputs (map chr out) ?t)"
    by (rule wpt_post [OF consputs_total]) (use assms(2) in \<open>auto simp: pfrm_def screen_ok_def\<close>)
  then show ?thesis using True assms(2,3) by (simp add: cprintf_def wpt_eq)
next
  case False
  then show ?thesis using assms by (simp add: cprintf_def wpt_eq consputs_total)
qed

lemma proc_chan_ChInput [simp]: "proc_chan p \<noteq> ChInput"
  by (simp add: proc_chan_def split: option.split)

section \<open>The ring\<close>

interpretation inring: ring_buffer INPUT_BUF
  by unfold_locales simp_all

lemma input_okD:
  assumes "input_ok s"
  shows "length (inbuf s) = 128" "length (committed s) + length (edited s) = unat (in_e s - in_r s)"
    "unat (in_e s - in_r s) \<le> 128" "0x0A \<notin> set (edited s)"
    "ring_contents 128 (inbuf s) (in_r s) (in_e s) = committed s @ edited s"
  using assms by (simp_all add: input_ok_def committed_def edited_def inring.contents_split)

text \<open>The last byte is dropped from the line.\<close>

lemma input_back:
  assumes ok: "input_ok s" and ne: "in_e s \<noteq> in_w s"
  shows "input_ok (s\<lparr>in_e := in_e s - 1\<rparr>)" "committed (s\<lparr>in_e := in_e s - 1\<rparr>) = committed s"
    "edited s = edited (s\<lparr>in_e := in_e s - 1\<rparr>) @ [inbuf s ! ring_slot 128 (in_e s - 1)]"
proof -
  let ?s = "s\<lparr>in_e := in_e s - 1\<rparr>"
  show ed: "edited s = edited ?s @ [inbuf s ! ring_slot 128 (in_e s - 1)]"
    using inring.contents_unpush [OF ne, of "inbuf s"] by (simp add: edited_def)
  show "committed ?s = committed s" by (simp add: committed_def)
  have "in_e s - in_w s \<noteq> 0" using ne by simp
  then have pos: "0 < unat (in_e s - in_w s)" by (simp add: unat_gt_0)
  then have "in_e s - in_r s \<noteq> 0" using ok by (auto simp: input_ok_def)
  then have "unat (in_e s - in_r s - 1) = unat (in_e s - in_r s) - 1" "unat (in_e s - in_w s - 1) = unat (in_e s - in_w s) - 1"
    using pos by (simp_all add: unat_pred32 unat_gt_0)
  moreover have "in_e s - in_r s - 1 = in_e s - 1 - in_r s" "in_e s - in_w s - 1 = in_e s - 1 - in_w s" by simp_all
  ultimately have n: "unat (in_e s - 1 - in_r s) = unat (in_e s - in_r s) - 1" "unat (in_e s - 1 - in_w s) = unat (in_e s - in_w s) - 1"
    by simp_all
  moreover have "unat (in_e s - in_r s) - 1 \<le> 128" using input_okD(3) [OF ok] by linarith
  ultimately show "input_ok ?s" using ok pos ed unfolding input_ok_def by (simp add: edited_def)
qed

text \<open>A byte is added to the line.\<close>

lemma input_push:
  fixes s :: "'a cons_state_scheme" and x :: u8
  assumes ok: "input_ok s" and room: "unat (in_e s - in_r s) < 128"
  defines "t \<equiv> s\<lparr>inbuf := (inbuf s)[ring_slot 128 (in_e s) := x], in_e := in_e s + 1\<rparr>"
  shows "committed t = committed s" "edited t = edited s @ [x]" "length (inbuf t) = 128"
    "unat (in_w t - in_r t) + unat (in_e t - in_w t) = unat (in_e t - in_r t)"
    "unat (in_e t - in_r t) = Suc (unat (in_e s - in_r s))"
proof -
  have len: "length (inbuf s) = 128" by (rule input_okD(1) [OF ok])
  have sum: "unat (in_w s - in_r s) + unat (in_e s - in_w s) = unat (in_e s - in_r s)" using ok by (simp add: input_ok_def)
  then have "unat (in_e s - in_r s + 1) = Suc (unat (in_e s - in_r s))" "unat (in_e s - in_w s + 1) = Suc (unat (in_e s - in_w s))"
    using room by (simp_all add: unat_Suc32)
  moreover have "in_e s - in_r s + 1 = in_e s + 1 - in_r s" "in_e s - in_w s + 1 = in_e s + 1 - in_w s" by simp_all
  ultimately have n: "unat (in_e s + 1 - in_r s) = Suc (unat (in_e s - in_r s))" "unat (in_e s + 1 - in_w s) = Suc (unat (in_e s - in_w s))"
    by simp_all
  show t: "unat (in_w t - in_r t) + unat (in_e t - in_w t) = unat (in_e t - in_r t)"
    "unat (in_e t - in_r t) = Suc (unat (in_e s - in_r s))"
    using sum by (simp_all add: t_def n)
  show "length (inbuf t) = 128" using len by (simp add: t_def)
  have "committed t @ edited t = ring_contents 128 (inbuf t) (in_r t) (in_e t)"
    by (simp only: committed_def edited_def inring.contents_split [OF t(1)])
  also have "\<dots> = (committed s @ edited s) @ [x]"
    using inring.contents_push [OF len room, of x] input_okD(5) [OF ok] by (simp add: t_def)
  finally show "committed t = committed s" "edited t = edited s @ [x]"
    by (auto simp: append_eq_append_conv committed_def t_def)
qed

text \<open>The indices and the buffer determine both halves.\<close>

lemma input_fields:
  fixes s s' :: "'a cons_state_scheme"
  assumes "pmore s s'"
  shows "committed s' = committed s" "edited s' = edited s" "input_ok s' = input_ok s" "in_e s' = in_e s" "in_w s' = in_w s"
    "in_r s' = in_r s" "inbuf s' = inbuf s"
  using assms by (cases s; cases s'; simp add: pmore_def committed_def edited_def input_ok_def)+

section \<open>The interrupt handler refines the line editor\<close>

text \<open>In the handler, and what it keeps.\<close>

definition in_handler :: "u8 list \<times> u8 list \<Rightarrow> 'a cons_state_scheme \<Rightarrow> bool" where
  "in_handler v s \<longleftrightarrow> input_ok s \<and> screen_ok s \<and> held s = {LCons} \<and> (committed s, edited s) = v"

lemma in_handler_pfrm:
  fixes s s' :: "'a cons_state_scheme"
  assumes "in_handler v s" "screen_ok s'" "pfrm s s'"
  shows "in_handler v s'"
  using assms input_fields [OF pfrm_pmore [OF assms(3)]] pfrm_fields(4) [OF assms(3)] by (simp add: in_handler_def)

lemma consputc_handler: "in_handler v s \<Longrightarrow> wpt (in_handler v) Q (consputc c s)"
  by (rule wpt_post [OF consputc_total]) (simp add: in_handler_def, blast intro: in_handler_pfrm)

lemma handler_back:
  assumes "in_handler (q, l) s" "in_e s \<noteq> in_w s"
  shows "in_handler (q, butlast l) (s\<lparr>in_e := in_e s - 1\<rparr>)" "l = butlast l @ [inbuf s ! ring_slot 128 (in_e s - 1)]"
proof -
  have ok: "input_ok s" "edited s = l" using assms(1) by (simp_all add: in_handler_def)
  note bk = input_back [OF ok(1) assms(2)]
  have "butlast l = edited (s\<lparr>in_e := in_e s - 1\<rparr>)" using bk(3) ok(2) by simp
  then show "in_handler (q, butlast l) (s\<lparr>in_e := in_e s - 1\<rparr>)" "l = butlast l @ [inbuf s ! ring_slot 128 (in_e s - 1)]"
    using assms(1) bk by (simp_all add: in_handler_def screen_ok_def)
qed

lemma edited_empty: "edited s = [] \<longleftrightarrow> in_e s = in_w s"
proof -
  have "edited s = [] \<longleftrightarrow> length (edited s) = 0" by simp
  also have "\<dots> \<longleftrightarrow> unat (in_e s - in_w s) = 0" by (simp only: edited_def length_ring_contents)
  finally show ?thesis by (simp add: unat_eq_0)
qed

lemma kill_line_total: "in_handler (q, l) s \<Longrightarrow> wpt (in_handler (q, [])) Q (kill_line (length l) s)"
proof (induction "length l" arbitrary: l s)
  case 0
  then show ?case by simp
next
  case (Suc n)
  have ok: "input_ok s" "edited s = l" using Suc.prems by (simp_all add: in_handler_def)
  have ne: "in_e s \<noteq> in_w s" using Suc.hyps(2) ok(2) edited_empty [of s] by auto
  have "0x0A \<notin> set l" using input_okD(4) [OF ok(1)] ok(2) by simp
  then have "inbuf s ! ring_slot 128 (in_e s - 1) \<noteq> 0x0A"
    by (subst (asm) handler_back(2) [OF Suc.prems ne]) auto
  then have "kill_line (length l) s = bindr (consputc BACKSPACE (s\<lparr>in_e := in_e s - 1\<rparr>)) (kill_line n)"
    using ne by (simp flip: Suc.hyps(2))
  moreover have "wpt (in_handler (q, [])) Q (kill_line n t)" if "in_handler (q, butlast l) t" for t
    using Suc.hyps(1) [of "butlast l" t] that Suc.hyps(2) by (cases l rule: rev_cases) simp_all
  ultimately show ?case
    by (simp add: wpt_bindr) (rule wpt_post [OF consputc_handler [OF handler_back(1) [OF Suc.prems ne]]])
qed

lemma full_iff: "in_e s = in_r s + 128 \<longleftrightarrow> unat (in_e s - in_r s) = 128"
proof -
  have "in_e s = in_r s + 128 \<longleftrightarrow> in_e s - in_r s = 128" by (metis add_diff_cancel_left' diff_add_cancel add.commute)
  then show ?thesis by (simp add: word_unat_eq_iff)
qed

text \<open>After a byte was added: the line is completed or goes on.\<close>

definition pushed :: "u8 list \<Rightarrow> u8 list \<Rightarrow> u8 \<Rightarrow> 'a cons_state_scheme \<Rightarrow> bool" where
  "pushed q l x s \<longleftrightarrow> committed s = q \<and> edited s = l @ [x] \<and> length (inbuf s) = 128 \<and> 0x0A \<notin> set l \<and>
     unat (in_w s - in_r s) + unat (in_e s - in_w s) = unat (in_e s - in_r s) \<and> unat (in_e s - in_r s) \<le> 128 \<and>
     screen_ok s \<and> held s = {LCons}"

lemma pushed_pfrm:
  fixes s s' :: "'a cons_state_scheme"
  assumes "pushed q l x s" "screen_ok s'" "pfrm s s'"
  shows "pushed q l x s'"
  using assms input_fields [OF pfrm_pmore [OF assms(3)]] pfrm_fields(4) [OF assms(3)] by (simp add: pushed_def)

lemma pushed_length: "pushed q l x s \<Longrightarrow> unat (in_e s - in_r s) = length q + Suc (length l)"
proof -
  assume p: "pushed q l x s"
  then have "unat (in_w s - in_r s) + unat (in_e s - in_w s) = unat (in_e s - in_r s)" by (simp add: pushed_def)
  then have "length (committed s) + length (edited s) = unat (in_e s - in_r s)"
    by (simp only: committed_def edited_def length_ring_contents)
  then show ?thesis using p by (simp add: pushed_def)
qed

lemma pushed_go: "pushed q l x s \<Longrightarrow> x \<noteq> 0x0A \<Longrightarrow> in_handler (q, l @ [x]) s"
  by (simp add: pushed_def in_handler_def input_ok_def)

lemma pushed_commit:
  fixes s :: "'a cons_state_scheme"
  assumes "pushed q l x s"
  shows "in_handler (q @ l @ [x], []) (wakeup1 ChInput (s\<lparr>in_w := in_e s\<rparr>))"
proof -
  let ?t = "s\<lparr>in_w := in_e s\<rparr>"
  have p: "pmore ?t (wakeup1 ChInput ?t)" by simp
  have "unat (in_w s - in_r s) + unat (in_e s - in_w s) = unat (in_e s - in_r s)" using assms by (simp add: pushed_def)
  from inring.contents_split [OF this, of "inbuf s"] have "committed ?t = committed s @ edited s"
    by (simp add: committed_def edited_def)
  then show ?thesis
    using assms by (simp add: in_handler_def input_fields [OF p])
      (simp add: pushed_def input_ok_def edited_def screen_ok_def wakeup1_def)
qed

lemma handler_push:
  assumes h: "in_handler (q, l) s" and room: "length q + length l < 128"
  shows "pushed q l x (s\<lparr>inbuf := (inbuf s)[ring_slot 128 (in_e s) := x], in_e := in_e s + 1\<rparr>)"
proof -
  have ok: "input_ok s" "committed s = q" "edited s = l" using h by (simp_all add: in_handler_def)
  have r: "unat (in_e s - in_r s) < 128" using input_okD(2) [OF ok(1)] ok(2,3) room by simp
  show ?thesis
    using input_push [OF ok(1) r, of x] input_okD(4) [OF ok(1)] h r ok
    by (simp add: pushed_def in_handler_def screen_ok_def)
qed

lemma ucast_nl: "unat (c :: u32) < 256 \<Longrightarrow> (ucast c :: u8) = 0x0A \<longleftrightarrow> c = 0x0A"
  by (simp add: word_unat_eq_iff unsigned_ucast_eq take_bit_nat_eq_self)

text \<open>One character.\<close>

lemma push_char:
  assumes h: "in_handler (q, l) s" and room: "length q + length l < 128" and c: "unat (c :: u32) < 256"
  shows "wpt (\<lambda>(d, s'). in_handler (if c = 0x0A \<or> c = CTRL_D \<or> length q + Suc (length l) = 128
        then (q @ l @ [ucast c], []) else (q, l @ [ucast c])) s' \<and> \<not> d) Q
      (bindr (consputc c (s\<lparr>inbuf := (inbuf s)[ring_slot 128 (in_e s) := ucast c], in_e := in_e s + 1\<rparr>)) (\<lambda>s.
        if c = 0x0A \<or> c = CTRL_D \<or> in_e s = in_r s + 128 then
          bindr (wakeup ChInput (s\<lparr>in_w := in_e s\<rparr>)) (\<lambda>s. Inr (False, s))
        else Inr (False, s)))" (is "wpt ?P Q (bindr (consputc c ?t) ?k)")
proof -
  note p = handler_push [OF h room, of "ucast c"]
  have "wpt ?P Q (?k u)" if u: "pushed q l (ucast c) u" for u
  proof -
    have full: "in_e u = in_r u + 128 \<longleftrightarrow> length q + Suc (length l) = 128"
      using pushed_length [OF u] by (simp add: full_iff)
    have "LPtable \<notin> held (u\<lparr>in_w := in_e u\<rparr>)" using u by (simp add: pushed_def)
    then have "wakeup ChInput (u\<lparr>in_w := in_e u\<rparr>) = Inr (wakeup1 ChInput (u\<lparr>in_w := in_e u\<rparr>))"
      by (intro wakeup_plain) simp_all
    then show ?thesis
      using pushed_commit [OF u] pushed_go [OF u] ucast_nl [OF c]
      by (cases "c = 0x0A \<or> c = CTRL_D \<or> length q + Suc (length l) = 128") (simp_all only: full if_True if_False bindr_simps wpt_simps split, simp_all)
  qed
  moreover have "wpt (pushed q l (ucast c)) Q (consputc c ?t)"
    by (rule wpt_post [OF consputc_total]) (use p in \<open>simp add: pushed_def\<close>, blast intro: pushed_pfrm [OF p])
  ultimately show ?thesis unfolding wpt_bindr by (rule wpt_post [rotated])
qed

lemma cons_char_total:
  assumes h: "in_handler (q, l) s" and c: "unat c < 256"
  shows "wpt (\<lambda>(d, s'). in_handler (line_edit c (q, l)) s' \<and> (d \<longleftrightarrow> c = CTRL_P)) Q (cons_char c s)"
proof -
  have ok: "input_ok s" "committed s = q" "edited s = l" using h by (simp_all add: in_handler_def)
  have room: "in_e s - in_r s < 128 \<longleftrightarrow> length q + length l < 128"
    using input_okD(2) [OF ok(1)] ok(2,3) by (simp add: word_less_nat_alt)
  have len: "unat (in_e s - in_w s) = length l" using ok(3) by (auto simp: edited_def)
  have e: "in_e s \<noteq> in_w s \<longleftrightarrow> l \<noteq> []" using edited_empty [of s] ok(3) by auto
  consider "c = CTRL_P" | "c = CTRL_U" | "c = CTRL_H \<or> c = 0x7F"
    | "c \<notin> {CTRL_P, CTRL_U, CTRL_H, 0x7F, 0} \<and> length q + length l < 128"
    | "c \<notin> {CTRL_P, CTRL_U, CTRL_H, 0x7F} \<and> \<not> (c \<noteq> 0 \<and> length q + length l < 128)" by auto
  then show ?thesis
  proof cases
    case 2
    then show ?thesis using kill_line_total [OF h] by (simp add: cons_char_def len wpt_bindr)
  next
    case 3
    then show ?thesis
      using h e consputc_handler [OF handler_back(1) [OF h]] by (auto simp: cons_char_def wpt_bindr)
  next
    case 4
    let ?c = "if c = 0x0D then 0x0A else c"
    have "unat ?c < 256" using c by simp
    from push_char [OF h _ this] 4 show ?thesis
      by (auto simp: cons_char_def room Let_def)
  qed (use h room in \<open>auto simp: cons_char_def\<close>)
qed

lemma cons_chars_total:
  assumes "\<forall>c \<in> set cs. unat c < 256" "in_handler (q, l) s"
  shows "wpt (\<lambda>(d, s'). in_handler (fold line_edit cs (q, l)) s' \<and> (d \<longleftrightarrow> dump \<or> CTRL_P \<in> set cs)) Q (cons_chars cs dump s)"
  using assms
proof (induction cs arbitrary: q l s dump)
  case (Cons c cs)
  have "wpt (\<lambda>(d, s'). in_handler (fold line_edit cs (line_edit c (q, l))) s' \<and> (d \<longleftrightarrow> dump \<or> CTRL_P \<in> set (c # cs))) Q
      (cons_chars cs (dump \<or> d) t)"
    if "in_handler (line_edit c (q, l)) t" "d \<longleftrightarrow> c = CTRL_P" for d t
    by (rule wpt_post [OF Cons.IH [of "fst (line_edit c (q, l))" "snd (line_edit c (q, l))"]])
      (use Cons.prems that in \<open>auto simp del: line_edit.simps\<close>)
  then have "wpt (\<lambda>(d, t). wpt (\<lambda>(d, s'). in_handler (fold line_edit (c # cs) (q, l)) s' \<and> (d \<longleftrightarrow> dump \<or> CTRL_P \<in> set (c # cs))) Q
      (cons_chars cs (dump \<or> d) t)) Q (cons_char c s)"
    using Cons.prems by (intro wpt_post [OF cons_char_total [of q l]]) (auto simp del: line_edit.simps)
  then show ?case by (simp add: wpt_bindr case_prod_unfold del: line_edit.simps)
qed simp

section \<open>Listing the processes\<close>

text \<open>What output from outside the handler keeps.\<close>

definition idle :: "u8 list \<times> u8 list \<Rightarrow> 'a cons_state_scheme \<Rightarrow> bool" where
  "idle v s \<longleftrightarrow> input_ok s \<and> screen_ok s \<and> held s = {} \<and> (committed s, edited s) = v"

lemma idle_pfrm:
  fixes s s' :: "'a cons_state_scheme"
  assumes "idle v s" "screen_ok s'" "pfrm s s'"
  shows "idle v s'"
  using assms input_fields [OF pfrm_pmore [OF assms(3)]] pfrm_fields(4) [OF assms(3)] by (simp add: idle_def)

lemma cprintf_idle:
  assumes "idle v s" "cformat fmt None args = Some out"
  shows "wpt (idle v) Q (cprintf fmt args s)"
proof -
  have "screen_ok s" "LCons \<notin> held s" using assms(1) by (simp_all add: idle_def)
  from cprintf_total [OF this assms(2), of Q] show ?thesis
    by (rule wpt_post) (use assms(1) in \<open>blast intro: idle_pfrm\<close>)
qed

lemma print_pcs_idle: "idle v s \<Longrightarrow> wpt (idle v) Q (print_pcs pcs s)"
proof (induction pcs arbitrary: s)
  case (Cons pc pcs)
  then show ?case by (auto simp: wpt_bindr intro!: cprintf_idle [THEN wpt_post] Cons.IH)
qed simp

lemma procdump_idle: "idle v s \<Longrightarrow> wpt (idle v) Q (procdump_loop ps s)"
proof (induction ps arbitrary: s)
  case (Cons p ps)
  then show ?case
    by (auto simp: wpt_bindr intro!: cprintf_idle [THEN wpt_post] print_pcs_idle [THEN wpt_post] Cons.IH)
qed simp

section \<open>Reading takes completed input\<close>

lemma input_take:
  fixes s :: "'a cons_state_scheme"
  assumes ok: "input_ok s" and ne: "in_r s \<noteq> in_w s"
  defines "t \<equiv> s\<lparr>in_r := in_r s + 1\<rparr>"
  shows "committed s = inbuf s ! ring_slot 128 (in_r s) # committed t" "edited t = edited s" "input_ok t"
proof -
  show c: "committed s = inbuf s ! ring_slot 128 (in_r s) # committed t"
    using inring.contents_pop [OF ne, of "inbuf s"] by (simp add: committed_def t_def)
  show e: "edited t = edited s" by (simp add: edited_def t_def)
  have "in_w s - in_r s \<noteq> 0" using ne by simp
  then have pos: "0 < unat (in_w s - in_r s)" by (simp add: unat_gt_0)
  have "in_e s - in_r s \<noteq> 0" using pos ok by (auto simp: input_ok_def)
  then have "unat (in_e s - in_r s - 1) = unat (in_e s - in_r s) - 1" "unat (in_w s - in_r s - 1) = unat (in_w s - in_r s) - 1"
    using pos by (simp_all add: unat_pred32 unat_gt_0)
  moreover have "in_e s - in_r s - 1 = in_e s - (in_r s + 1)" "in_w s - in_r s - 1 = in_w s - (in_r s + 1)" by simp_all
  ultimately have "unat (in_e s - (in_r s + 1)) = unat (in_e s - in_r s) - 1" "unat (in_w s - (in_r s + 1)) = unat (in_w s - in_r s) - 1"
    by simp_all
  moreover have "unat (in_e s - in_r s) - 1 \<le> 128" using input_okD(3) [OF ok] by linarith
  ultimately show "input_ok t" using ok pos e by (simp add: input_ok_def t_def)
qed

lemma committed_empty: "committed s = [] \<longleftrightarrow> in_r s = in_w s"
proof -
  have "committed s = [] \<longleftrightarrow> length (committed s) = 0" by simp
  also have "\<dots> \<longleftrightarrow> unat (in_w s - in_r s) = 0" by (simp only: committed_def length_ring_contents)
  finally show ?thesis by (auto simp: unat_eq_0)
qed

text \<open>
  A reader in its loop that wants \<open>n\<close> more of \<open>target\<close> bytes, and what it does: it took bytes \<open>bs\<close>
  and stored them at \<open>dst\<close>, and returned or fell asleep.
\<close>

definition read_done :: "nat \<Rightarrow> nat \<Rightarrow> u64 \<Rightarrow> 'a cons_state_scheme \<Rightarrow> int \<times> 'a cons_state_scheme \<Rightarrow> bool" where
  "read_done n target dst s = (\<lambda>(rc, s').
     (\<exists>bs. take_input n (n < target) (committed s) = Some (bs, committed s') \<and>
        rc = int target - int n + int (length bs) \<and> ustore dst bs s = Inr (s\<lparr>pmem := pmem s'\<rparr>)) \<and>
     input_ok s' \<and> edited s' = edited s \<and> held s' = {})"

definition read_waits :: "nat \<Rightarrow> nat \<Rightarrow> u64 \<Rightarrow> 'a cons_state_scheme \<Rightarrow> 'a cons_state_scheme \<Rightarrow> bool" where
  "read_waits n target dst s t \<longleftrightarrow> take_input n (n < target) (committed s) = None \<and> committed t = [] \<and>
     ustore dst (committed s) s = Inr (s\<lparr>pmem := pmem t\<rparr>) \<and> input_ok t \<and> edited t = edited s \<and> held t = {LPtable}"

lemma input_upd [simp]:
  "committed (s\<lparr>held := h\<rparr>) = committed s" "edited (s\<lparr>held := h\<rparr>) = edited s" "input_ok (s\<lparr>held := h\<rparr>) = input_ok s"
  "committed (s\<lparr>pmem := m\<rparr>) = committed s" "edited (s\<lparr>pmem := m\<rparr>) = edited s" "input_ok (s\<lparr>pmem := m\<rparr>) = input_ok s"
  by (simp_all add: committed_def edited_def input_ok_def)

text \<open>The reader took one byte and stored it.\<close>

lemma ustore_took:
  fixes s :: "'a cons_state_scheme"
  assumes "ustore dst [c] (s\<lparr>in_r := x\<rparr>) = Inr u" "u = s\<lparr>in_r := x, pmem := pmem u\<rparr>"
    and "ustore (dst + 1) bs u = Inr (u\<lparr>pmem := pmem v\<rparr>)"
  shows "ustore dst (c # bs) s = Inr (s\<lparr>pmem := pmem v\<rparr>)"
proof -
  have "ustore dst [c] s = Inr (s\<lparr>pmem := pmem u\<rparr>)" by (rule ustore_cong [OF _ _ assms(1)]) simp_all
  moreover have "cr3 u = cr3 s" by (subst assms(2)) simp
  then have "ustore (dst + 1) bs (s\<lparr>pmem := pmem u\<rparr>) = Inr (s\<lparr>pmem := pmem v\<rparr>)"
    using ustore_cong [OF _ _ assms(3), of "s\<lparr>pmem := pmem u\<rparr>"] by simp
  ultimately show ?thesis using ustore_append [of dst "[c]" bs s] by simp
qed

lemma read_took:
  fixes s :: "'a cons_state_scheme"
  assumes u: "ustore dst [c] (s\<lparr>in_r := x\<rparr>) = Inr u" "u = s\<lparr>in_r := x, pmem := pmem u\<rparr>"
    and q: "committed s = c # committed u" "edited u = edited s" and n: "Suc n \<le> target" and c: "c \<noteq> 0x04" "c \<noteq> 0x0A"
  shows "read_done n target (dst + 1) u r \<Longrightarrow> read_done (Suc n) target dst s r"
    "read_waits n target (dst + 1) u t \<Longrightarrow> read_waits (Suc n) target dst s t"
  using q n c ustore_took [OF u] by (auto simp: read_done_def read_waits_def)

lemma read_loop_total:
  assumes "input_ok s" "held s = {LCons}" "cur s = Some me" "me < length (ptable s)" "killed (pget me s) = 0" "n \<le> target"
  shows "wpm (read_done n target dst s) (read_waits n target dst s) (consoleread_loop n target dst s)"
  using assms
proof (induction n arbitrary: dst s)
  case 0
  then show ?case
    by (simp add: wpm_eq read_done_def committed_def edited_def input_ok_def)
next
  case (Suc n)
  show ?case
  proof (cases "in_r s = in_w s")
    case True
    then have e: "committed s = []" by (simp add: committed_empty)
    let ?t = "pupd me (\<lambda>p. p\<lparr>pchan := ChInput, pstate := SLEEPING\<rparr>) (s\<lparr>held := {LPtable}\<rparr>)"
    have "pmore s ?t" by simp
    from input_fields [OF this] have "read_waits (Suc n) target dst s ?t"
      using Suc.prems(1) e by (simp add: read_waits_def) (simp add: pupd_def)
    then show ?thesis
      using True Suc.prems sleep_total [OF Suc.prems(3,2) _ Suc.prems(4), of ChInput] by (simp add: myproc_def)
  next
    case False
    note tk = input_take [OF Suc.prems(1) False]
    let ?c = "inbuf s ! ring_slot 128 (in_r s)"
    let ?t = "s\<lparr>in_r := in_r s + 1\<rparr>"
    show ?thesis
    proof (cases "?c = 0x04")
      case True
      then show ?thesis
        using False Suc.prems tk by (simp add: Let_def wpm_eq read_done_def)
    next
      case c: False
      have "wpm (\<lambda>u. wpm (read_done (Suc n) target dst s) (read_waits (Suc n) target dst s)
          (if ?c = 0x0A then bindr (release LCons u) (\<lambda>s. Inr (int target - int n, s)) else consoleread_loop n target (dst + 1) u))
        (read_waits (Suc n) target dst s) (ustore dst [?c] ?t)"
      proof (rule wpm_post [OF ustore_wpm])
        fix u assume u: "ustore dst [?c] ?t = Inr u \<and> u = ?t\<lparr>pmem := pmem u\<rparr>"
        then have u1: "ustore dst [?c] ?t = Inr u" "u = s\<lparr>in_r := in_r s + 1, pmem := pmem u\<rparr>" by auto
        have f: "held u = {LCons}" "cur u = Some me" "me < length (ptable u)" "killed (pget me u) = 0"
          "input_ok u" "committed s = ?c # committed u" "edited u = edited s"
          by (subst u1(2); use Suc.prems tk in \<open>simp add: pget_def\<close>)+
        have store: "ustore dst [?c] s = Inr (s\<lparr>pmem := pmem u\<rparr>)"
          by (rule ustore_cong [OF _ _ u1(1)]) simp_all
        have "wpm (read_done n target (dst + 1) u) (read_waits n target (dst + 1) u) (consoleread_loop n target (dst + 1) u)"
          using f Suc.prems(6) by (intro Suc.IH) simp_all
        then have "wpm (read_done (Suc n) target dst s) (read_waits (Suc n) target dst s) (consoleread_loop n target (dst + 1) u)"
          if "?c \<noteq> 0x0A"
          by (rule wpm_mono) (use read_took [OF u1 f(6,7) Suc.prems(6) c that] in blast)+
        moreover have "read_done (Suc n) target dst s (int target - int n, u\<lparr>held := {}\<rparr>)" if "?c = 0x0A"
          using f store that c by (simp add: read_done_def del: ustore.simps)
        ultimately show "wpm (read_done (Suc n) target dst s) (read_waits (Suc n) target dst s)
          (if ?c = 0x0A then bindr (release LCons u) (\<lambda>s. Inr (int target - int n, s)) else consoleread_loop n target (dst + 1) u)"
          using f(1) by (simp add: wpm_eq)
      qed
      then show ?thesis using False c by (simp add: Let_def wpm_bindr)
    qed
  qed
qed

lemma consoleintr_total:
  assumes i: "idle v s" and cs: "\<forall>c \<in> set cs. unat c < 256"
  shows "wpt (idle (fold line_edit cs v)) (\<lambda>_. False) (consoleintr cs s)"
proof -
  let ?t = "s\<lparr>held := {LCons}\<rparr>"
  obtain q l where v: "v = (q, l)" by (cases v)
  let ?v = "fold line_edit cs (q, l)"
  have h: "in_handler (q, l) ?t" using i v by (simp add: in_handler_def idle_def screen_ok_def)
  have "wpt (idle ?v) (\<lambda>_. False) (bindr (release LCons u) (\<lambda>s. if d then procdump s else Inr s))" if u: "in_handler ?v u" for d u
  proof -
    have i: "idle ?v (u\<lparr>held := {}\<rparr>)" using u by (simp add: idle_def in_handler_def screen_ok_def)
    from procdump_idle [OF i] i
    have "wpt (idle ?v) (\<lambda>_. False) (if d then procdump (u\<lparr>held := {}\<rparr>) else Inr (u\<lparr>held := {}\<rparr>))"
      by (simp add: procdump_def)
    then show ?thesis using u by (simp add: in_handler_def)
  qed
  then have "wpt (\<lambda>(d, u). wpt (idle ?v) (\<lambda>_. False) (bindr (release LCons u) (\<lambda>s. if d then procdump s else Inr s)))
      (\<lambda>_. False) (cons_chars cs False ?t)"
    by (intro wpt_post [OF cons_chars_total [OF cs h]]) blast
  then show ?thesis using i by (simp add: v idle_def consoleintr_def wpt_bindr case_prod_unfold)
qed

lemma consoleread_total:
  assumes "input_ok s" "held s = {}" "cur s = Some me" "me < length (ptable s)" "killed (pget me s) = 0"
  shows "wpm (read_done (nat n) (nat n) dst s) (read_waits (nat n) (nat n) dst s) (consoleread dst n s)"
proof -
  let ?t = "s\<lparr>held := {LCons}\<rparr>"
  have st: "ustore dst bs ?t = Inr (?t\<lparr>pmem := m\<rparr>) \<Longrightarrow> ustore dst bs s = Inr (s\<lparr>pmem := m\<rparr>)" for bs m
    using ustore_cong [of s ?t dst bs "?t\<lparr>pmem := m\<rparr>"] by simp
  have "wpm (read_done (nat n) (nat n) dst ?t) (read_waits (nat n) (nat n) dst ?t) (consoleread_loop (nat n) (nat n) dst ?t)"
    by (rule read_loop_total) (use assms in \<open>auto simp: pget_def\<close>)
  then have "wpm (read_done (nat n) (nat n) dst s) (read_waits (nat n) (nat n) dst s) (consoleread_loop (nat n) (nat n) dst ?t)"
    by (rule wpm_mono) (auto simp: read_done_def read_waits_def intro: st)
  then show ?thesis using assms(2) by (simp add: consoleread_def wpm_eq)
qed

text \<open>
  C7. The console is a line editor. From a free console, \<open>consoleintr\<close> with any characters from the
  keyboard returns and has the effect of the editor \<open>line_edit\<close> on the queue of completed input
  and the line being edited: erasing, killing the line, completing it at a newline, at
  end-of-file and when the buffer is full. \<open>consoleread\<close> of \<open>n\<close> bytes takes what \<open>take_input\<close> takes
  from the completed input, stores it at \<open>dst\<close> and returns its length; when there is not enough
  it has taken and stored all of it and sleeps. It stops otherwise only where \<open>dst\<close> is not
  writable.
\<close>

theorem console_line_discipline:
  assumes "input_ok s" "screen_ok s" "held s = {}" "\<forall>c \<in> set cs. unat c < 256"
    and "cur s = Some me" "me < length (ptable s)" "killed (pget me s) = 0"
  shows "wpt (\<lambda>s'. input_ok s' \<and> screen_ok s' \<and> held s' = {} \<and>
      (committed s', edited s') = fold line_edit cs (committed s, edited s)) (\<lambda>_. False) (consoleintr cs s) \<and>
    wpm (\<lambda>(rc, s'). \<exists>bs. take_input (nat n) False (committed s) = Some (bs, committed s') \<and> rc = int (length bs) \<and>
        ustore dst bs s = Inr (s\<lparr>pmem := pmem s'\<rparr>) \<and> edited s' = edited s \<and> input_ok s' \<and> held s' = {})
      (\<lambda>t. take_input (nat n) False (committed s) = None \<and> committed t = [] \<and> edited t = edited s \<and>
        ustore dst (committed s) s = Inr (s\<lparr>pmem := pmem t\<rparr>) \<and> input_ok t \<and> held t = {LPtable}) (consoleread dst n s)"
proof (intro conjI)
  have "idle (committed s, edited s) s" using assms(1-3) by (simp add: idle_def)
  from consoleintr_total [OF this assms(4)]
  show "wpt (\<lambda>s'. input_ok s' \<and> screen_ok s' \<and> held s' = {} \<and>
      (committed s', edited s') = fold line_edit cs (committed s, edited s)) (\<lambda>_. False) (consoleintr cs s)"
    by (rule wpt_post) (simp only: idle_def)
next
  show "wpm (\<lambda>(rc, s'). \<exists>bs. take_input (nat n) False (committed s) = Some (bs, committed s') \<and> rc = int (length bs) \<and>
        ustore dst bs s = Inr (s\<lparr>pmem := pmem s'\<rparr>) \<and> edited s' = edited s \<and> input_ok s' \<and> held s' = {})
      (\<lambda>t. take_input (nat n) False (committed s) = None \<and> committed t = [] \<and> edited t = edited s \<and>
        ustore dst (committed s) s = Inr (s\<lparr>pmem := pmem t\<rparr>) \<and> input_ok t \<and> held t = {LPtable}) (consoleread dst n s)"
    by (rule wpm_mono [OF consoleread_total [OF assms(1,3,5-7)]]) (auto simp: read_done_def read_waits_def)
qed

definition typing :: cons_state where
  "typing = sl_state.extend sl_boot \<lparr>bufs = [], num_disk_reads = 0, crashn_enable = 0, crashn = 0,
     disk = (\<lambda>_. []), disksize = 0, inbuf = replicate 128 0, in_r = 0xFFFFFFFE, in_w = 0xFFFFFFFE, in_e = 0xFFFFFFFE,
     devsw = replicate 10 \<lparr>dv_read = None, dv_write = None\<rparr>\<rparr>"

lemma typing_ok:
  "input_ok typing" "screen_ok typing" "held typing = {}" "cur typing = Some 0" "0 < length (ptable typing)"
  "killed (pget 0 typing) = 0" "committed typing = []" "edited typing = []"
  by (simp_all add: typing_def sl_state.defs input_ok_def edited_def committed_def screen_ok_def pget_def
      sl_boot_def proc_state.defs two_procs_def boot_state_def scr_state.defs blank_screen_def vs_state.defs boot_proc_def)

theorem console_line_discipline_witness:
  "wpt (\<lambda>s'. input_ok s' \<and> screen_ok s' \<and> held s' = {} \<and>
      (committed s', edited s') = ([0x62, 0x0A], [0x63])) (\<lambda>_. False) (consoleintr [0x61, 0x08, 0x62, 0x0D, 0x63] typing)"
  using console_line_discipline [OF typing_ok(1-3) _ typing_ok(4-6), of "[0x61, 0x08, 0x62, 0x0D, 0x63]"]
  by (simp add: typing_ok)

end
