(* ===== verification/Ide.thy ===== *)
theory Ide
  imports Bio_Inv
begin

text \<open>
  The disk driver kernel/ide.c. The disk is a parameter: the status byte it shows on each read of
  port 0x1f7, how many reads it takes at most until it is ready, and the bytes it hands out on
  port 0x1f0. The ports the driver writes are latches: \<open>regs p\<close> is the last byte written to
  port \<open>p\<close>, and \<open>pio\<close> the last block written with \<open>outsl\<close>.
\<close>

section \<open>State\<close>

record ide_state = bio_state +
  idequeue :: "nat option"
  havedisk1 :: bool
  regs :: "nat \<Rightarrow> u8"
  pio :: "u8 list"
  polls :: nat

record ide_hw =
  status :: "nat \<Rightarrow> u8"
  delay :: nat

abbreviation (input) IDE_BSY :: u8 where "IDE_BSY \<equiv> 0x80"
abbreviation (input) IDE_DRDY :: u8 where "IDE_DRDY \<equiv> 0x40"
abbreviation (input) IDE_DF :: u8 where "IDE_DF \<equiv> 0x20"
abbreviation (input) IDE_ERR :: u8 where "IDE_ERR \<equiv> 0x01"
abbreviation (input) IDE_CMD_READ :: u8 where "IDE_CMD_READ \<equiv> 0x20"
abbreviation (input) IDE_CMD_WRITE :: u8 where "IDE_CMD_WRITE \<equiv> 0x30"
abbreviation (input) FSSIZE :: nat where "FSSIZE \<equiv> 100000"

definition outb :: "nat \<Rightarrow> u8 \<Rightarrow> 'a ide_state_scheme \<Rightarrow> 'a ide_state_scheme" where
  "outb p v s = s\<lparr>regs := (regs s)(p := v)\<rparr>"

section \<open>The code\<close>

fun idewait_loop :: "nat \<Rightarrow> ide_hw \<Rightarrow> bool \<Rightarrow> 'a ide_state_scheme \<Rightarrow>
    'a ide_state_scheme stop + int \<times> 'a ide_state_scheme" where
  "idewait_loop 0 hw checkerr s = Inl (Fault ''the disk is not ready'')"
| "idewait_loop (Suc n) hw checkerr s =
     (let r = status hw (polls s); s = s\<lparr>polls := polls s + 1\<rparr> in
      if r AND (IDE_BSY OR IDE_DRDY) \<noteq> IDE_DRDY then idewait_loop n hw checkerr s
      else if checkerr \<and> r AND (IDE_DF OR IDE_ERR) \<noteq> 0 then Inr (-1, s)
      else Inr (0, s))"

definition idewait :: "ide_hw \<Rightarrow> bool \<Rightarrow> 'a ide_state_scheme \<Rightarrow>
    'a ide_state_scheme stop + int \<times> 'a ide_state_scheme" where
  "idewait hw checkerr s = idewait_loop (Suc (delay hw)) hw checkerr s"

text \<open>Looking for disk 1.\<close>

fun probe :: "nat \<Rightarrow> ide_hw \<Rightarrow> 'a ide_state_scheme \<Rightarrow> 'a ide_state_scheme" where
  "probe 0 hw s = s"
| "probe (Suc n) hw s =
     (let r = status hw (polls s); s = s\<lparr>polls := polls s + 1\<rparr> in
      if r \<noteq> 0 then s\<lparr>havedisk1 := True\<rparr> else probe n hw s)"

definition ide_init :: "ide_hw \<Rightarrow> 'a ide_state_scheme \<Rightarrow> 'a ide_state_scheme stop + 'a ide_state_scheme" where
  "ide_init hw s =
     bindr (idewait hw False (s\<lparr>held := held s - {LIde}\<rparr>)) (\<lambda>(r, s).
     Inr (outb 0x1f6 (0xe0 OR (0 * 16)) (probe 1000 hw (outb 0x1f6 (0xe0 OR (1 * 16)) s))))"

text \<open>
  A block is one sector, so the commands are those for single sectors. The bytes of the sector
  number, and the byte that selects the drive.
\<close>

definition sector_byte :: "nat \<Rightarrow> u32 \<Rightarrow> u8" where
  "sector_byte k sector = ucast (drop_bit k sector AND 0xff)"

definition drive_byte :: "u32 \<Rightarrow> u32 \<Rightarrow> u8" where
  "drive_byte dev sector = 0xe0 OR ucast (push_bit 4 (dev AND 1)) OR ucast (drop_bit 24 sector AND 0x0f)"

definition idestart :: "ide_hw \<Rightarrow> nat option \<Rightarrow> 'a ide_state_scheme \<Rightarrow>
    'a ide_state_scheme stop + 'a ide_state_scheme" where
  "idestart hw p s =
     (case p of None \<Rightarrow> Inl (Panic ''idestart'')
      | Some b \<Rightarrow>
          if unat (blockno (bget_buf b s)) \<ge> FSSIZE then Inl (Panic ''incorrect blockno'')
          else
            let sector = blockno (bget_buf b s) in
            bindr (idewait hw False s) (\<lambda>(r, s).
            let s = outb 0x3f6 0 s;
                s = outb 0x1f2 1 s;
                s = outb 0x1f3 (sector_byte 0 sector) s;
                s = outb 0x1f4 (sector_byte 8 sector) s;
                s = outb 0x1f5 (sector_byte 16 sector) s;
                s = outb 0x1f6 (drive_byte (bdev (bget_buf b s)) sector) s
            in Inr (if bflags (bget_buf b s) AND B_DIRTY \<noteq> 0
                    then (outb 0x1f7 IDE_CMD_WRITE s)\<lparr>pio := bdata (bget_buf b s)\<rparr>
                    else outb 0x1f7 IDE_CMD_READ s)))"

text \<open>\<open>din\<close> are the bytes the disk hands out.\<close>

definition ideintr :: "ide_hw \<Rightarrow> u8 list \<Rightarrow> 'a ide_state_scheme \<Rightarrow>
    'a ide_state_scheme stop + 'a ide_state_scheme" where
  "ideintr hw din s =
     bindr (acquire LIde s) (\<lambda>s.
     case idequeue s of None \<Rightarrow> release LIde s
     | Some b \<Rightarrow>
         let s = s\<lparr>idequeue := qnext (bget_buf b s)\<rparr> in
         bindr (if bflags (bget_buf b s) AND B_DIRTY = 0 then
                  bindr (idewait hw True s) (\<lambda>(r, s).
                  Inr (if r \<ge> 0 then bupd b (\<lambda>x. x\<lparr>bdata := din\<rparr>) s else s))
                else Inr s) (\<lambda>s.
         let s = bupd b (\<lambda>x. x\<lparr>bflags := bflags x OR B_VALID\<rparr>) s;
             s = bupd b (\<lambda>x. x\<lparr>bflags := bflags x AND NOT B_DIRTY\<rparr>) s in
         bindr (wakeup (ChBuf b) s) (\<lambda>s.
         bindr (if idequeue s \<noteq> None then idestart hw (idequeue s) s else Inr s) (release LIde))))"

text \<open>The end of the queue: the last buffer, found by following \<open>qnext\<close>.\<close>

fun queue_last :: "nat \<Rightarrow> nat \<Rightarrow> 'a ide_state_scheme \<Rightarrow> 'a ide_state_scheme stop + nat" where
  "queue_last 0 b s = Inl (Fault ''the disk queue does not end'')"
| "queue_last (Suc n) b s =
     (case qnext (bget_buf b s) of None \<Rightarrow> Inr b | Some c \<Rightarrow> queue_last n c s)"

definition enqueue :: "nat \<Rightarrow> 'a ide_state_scheme \<Rightarrow> 'a ide_state_scheme stop + 'a ide_state_scheme" where
  "enqueue b s =
     (let s = bupd b (\<lambda>x. x\<lparr>qnext := None\<rparr>) s in
      case idequeue s of None \<Rightarrow> Inr (s\<lparr>idequeue := Some b\<rparr>)
      | Some c \<Rightarrow> bindr (queue_last (Suc NBUF) c s) (\<lambda>l. Inr (bupd l (\<lambda>x. x\<lparr>qnext := Some b\<rparr>) s)))"

definition ide_rw_wait :: "nat \<Rightarrow> 'a ide_state_scheme \<Rightarrow> 'a ide_state_scheme stop + 'a ide_state_scheme" where
  "ide_rw_wait b s =
     (if bflags (bget_buf b s) AND (B_VALID OR B_DIRTY) \<noteq> B_VALID then sleep (ChBuf b) LIde s
      else release LIde s)"

definition ide_rw :: "ide_hw \<Rightarrow> nat \<Rightarrow> 'a ide_state_scheme \<Rightarrow> 'a ide_state_scheme stop + 'a ide_state_scheme" where
  "ide_rw hw b s =
     bindr (holdingsleep (SLBuf b) s) (\<lambda>(r, s).
     if r = 0 then Inl (Panic ''iderw: buf not locked'')
     else if bflags (bget_buf b s) AND (B_VALID OR B_DIRTY) = B_VALID then Inl (Panic ''iderw: nothing to do'')
     else if bdev (bget_buf b s) \<noteq> 0 \<and> \<not> havedisk1 s then Inl (Panic ''iderw: ide disk 1 not present'')
     else
       bindr (acquire LIde s) (\<lambda>s.
       bindr (enqueue b s) (\<lambda>s.
       bindr (if idequeue s = Some b then idestart hw (Some b) s else Inr s) (ide_rw_wait b))))"

definition ide_rw_resume :: "nat \<Rightarrow> 'a ide_state_scheme \<Rightarrow> 'a ide_state_scheme stop + 'a ide_state_scheme" where
  "ide_rw_resume b s = bindr (sleep_resume LIde s) (ide_rw_wait b)"

section \<open>The queue and the command the disk is working on\<close>

text \<open>The buffers in the queue, first request first.\<close>

fun qchain :: "buf list \<Rightarrow> nat option \<Rightarrow> nat list \<Rightarrow> bool" where
  "qchain B p [] \<longleftrightarrow> p = None"
| "qchain B p (b # bs) \<longleftrightarrow> p = Some b \<and> qchain B (qnext (B ! b)) bs"

text \<open>The address the latches hold: drive and sector.\<close>

definition lba :: "(nat \<Rightarrow> u8) \<Rightarrow> nat" where
  "lba r = unat (r 0x1f3) + 2 ^ 8 * unat (r 0x1f4) + 2 ^ 16 * unat (r 0x1f5) + 2 ^ 24 * (unat (r 0x1f6) mod 16)"

definition drive :: "(nat \<Rightarrow> u8) \<Rightarrow> bool" where
  "drive r = bit (r 0x1f6) 4"

text \<open>The disk was told to do what \<open>x\<close> asks for.\<close>

definition programmed :: "buf \<Rightarrow> 'a ide_state_scheme \<Rightarrow> bool" where
  "programmed x s \<longleftrightarrow> lba (regs s) = unat (blockno x) \<and> drive (regs s) = odd (unat (bdev x)) \<and> regs s 0x1f2 = 1 \<and>
     (if bflags x AND B_DIRTY \<noteq> 0 then regs s 0x1f7 = IDE_CMD_WRITE \<and> pio s = bdata x
      else regs s 0x1f7 = IDE_CMD_READ)"

definition ide_ok :: "nat list \<Rightarrow> 'a ide_state_scheme \<Rightarrow> bool" where
  "ide_ok bs s \<longleftrightarrow> qchain (bufs s) (idequeue s) bs \<and> distinct bs \<and> set bs \<subseteq> {..<NBUF} \<and> length (bufs s) = Suc NBUF \<and>
     (\<forall>b \<in> set bs. unat (blockno (bufs s ! b)) < FSSIZE) \<and>
     (bs \<noteq> [] \<longrightarrow> programmed (bufs s ! hd bs) s)"

section \<open>Waiting for the disk\<close>

text \<open>The disk becomes ready within \<open>delay\<close> reads, and it reports no error.\<close>

definition hw_ready :: "ide_hw \<Rightarrow> bool" where
  "hw_ready hw \<longleftrightarrow> (\<forall>k. \<exists>j \<le> delay hw. status hw (k + j) AND 0xC0 = 0x40) \<and>
     (\<forall>k. status hw k AND 0xC0 = 0x40 \<longrightarrow> status hw k AND 0x21 = 0)"

lemma idewait_loop_total:
  assumes "\<exists>j < n. status hw (polls s + j) AND 0xC0 = 0x40" "\<forall>k. status hw k AND 0xC0 = 0x40 \<longrightarrow> status hw k AND 0x21 = 0"
  shows "\<exists>k. idewait_loop n hw c s = Inr (0, s\<lparr>polls := k\<rparr>)"
  using assms(1)
proof (induction n arbitrary: s)
  case (Suc n)
  show ?case
  proof (cases "status hw (polls s) AND 0xC0 = 0x40")
    case True
    then show ?thesis using assms(2) by (auto simp: Let_def)
  next
    case False
    obtain j where j: "j < Suc n" "status hw (polls s + j) AND 0xC0 = 0x40" using Suc.prems by blast
    with False obtain i where "j = Suc i" by (cases j) auto
    with j have "\<exists>i < n. status hw (polls (s\<lparr>polls := polls s + 1\<rparr>) + i) AND 0xC0 = 0x40" by auto
    from Suc.IH [OF this] False show ?thesis by (simp add: Let_def)
  qed
qed simp

lemma idewait_total: "hw_ready hw \<Longrightarrow> \<exists>k. idewait hw c s = Inr (0, s\<lparr>polls := k\<rparr>)"
proof -
  assume r: "hw_ready hw"
  then obtain j where "j \<le> delay hw" "status hw (polls s + j) AND 0xC0 = 0x40" by (auto simp: hw_ready_def)
  then have "\<exists>j < Suc (delay hw). status hw (polls s + j) AND 0xC0 = 0x40" using less_Suc_eq_le by blast
  then show ?thesis using r unfolding idewait_def by (intro idewait_loop_total) (auto simp: hw_ready_def)
qed

section \<open>The command\<close>

lemma mask_255: "(x :: u32) AND 0xff = take_bit 8 x" and mask_15: "(x :: u32) AND 0x0f = take_bit 4 x"
  and mask_1: "(x :: u32) AND 1 = take_bit 1 x"
  by (simp_all add: take_bit_eq_mask mask_eq_exp_minus_1)

lemmas nat_bits = take_bit_eq_mod [where 'a = nat] drop_bit_eq_div [where 'a = nat]

lemma sector_byte: "unat (sector_byte k x) = unat x div 2 ^ k mod 256"
  by (simp add: sector_byte_def mask_255 unsigned_ucast_eq unat_drop_bit_eq unsigned_take_bit_eq nat_bits)

lemma drive_byte: "unat (drive_byte d x) mod 16 = unat x div 2 ^ 24 mod 16" "bit (drive_byte d x) 4 = odd (unat d)"
proof -
  let ?v = "drive_byte d x"
  have e0: "(0xe0 :: u8) = push_bit 5 7" by simp
  have "take_bit 4 ?v = ucast (drop_bit 24 x AND 0x0f)"
    unfolding drive_byte_def mask_15 mask_1 e0
    by (rule bit_word_eqI) (auto simp: bit_take_bit_iff bit_or_iff bit_ucast_iff bit_push_bit_iff)
  then have "unat (take_bit 4 ?v) = unat (ucast (drop_bit 24 x AND 0x0f) :: u8)" by simp
  then show "unat ?v mod 16 = unat x div 2 ^ 24 mod 16"
    by (simp add: mask_15 unsigned_take_bit_eq unsigned_ucast_eq unat_drop_bit_eq nat_bits mod_mod_cancel)
  have "bit ?v 4 = bit d 0"
    unfolding drive_byte_def mask_15 mask_1 e0
    by (simp only: bit_take_bit_iff bit_or_iff bit_ucast_iff bit_push_bit_iff possible_bit_word) simp
  also have "\<dots> = bit (unat d) 0" by (simp only: bit_unsigned_iff possible_bit_nat) simp
  finally show "bit ?v 4 = odd (unat d)" by (simp add: bit_0)
qed

lemma lba_split: "n mod 256 + 2 ^ 8 * (n div 2 ^ 8 mod 256) + 2 ^ 16 * (n div 2 ^ 16 mod 256) +
    2 ^ 24 * (n div 2 ^ 24 mod 16) = n mod 2 ^ 28" for n :: nat
proof -
  have "n mod (256 * 256) = 256 * (n div 256 mod 256) + n mod 256" by (rule mod_mult2_eq)
  moreover have "n mod (65536 * 256) = 65536 * (n div 65536 mod 256) + n mod 65536" by (rule mod_mult2_eq)
  moreover have "n mod (16777216 * 16) = 16777216 * (n div 16777216 mod 16) + n mod 16777216" by (rule mod_mult2_eq)
  ultimately show ?thesis by simp
qed

text \<open>Only the latches and the number of reads differ.\<close>

definition io_only :: "'a ide_state_scheme \<Rightarrow> 'a ide_state_scheme \<Rightarrow> bool" where
  "io_only s s' \<longleftrightarrow> s' = s\<lparr>polls := polls s', regs := regs s', pio := pio s'\<rparr>"

lemma outb_simps [simp]:
  "bget_buf b (outb p v s) = bget_buf b s" "bget_buf b (s\<lparr>polls := k\<rparr>) = bget_buf b s" "pio (outb p v s) = pio s"
  "regs (outb p v s) = (regs s)(p := v)"
  by (simp_all add: bget_buf_def outb_def)

lemma io_only_intros [intro!]:
  "io_only s s" "io_only s t \<Longrightarrow> io_only s (outb p v t)" "io_only s t \<Longrightarrow> io_only s (t\<lparr>pio := d\<rparr>)"
  "io_only s t \<Longrightarrow> io_only s (t\<lparr>polls := k\<rparr>)"
  by (cases s; cases t; simp add: io_only_def outb_def)+

lemma idestart_total:
  assumes "hw_ready hw" "unat (blockno (bufs s ! b)) < FSSIZE"
  shows "\<exists>s'. idestart hw (Some b) s = Inr s' \<and> io_only s s' \<and> programmed (bufs s ! b) s'"
proof -
  obtain k where k: "idewait hw False s = Inr (0, s\<lparr>polls := k\<rparr>)" using idewait_total [OF assms(1)] by blast
  let ?x = "bufs s ! b"
  define t where "t = outb 0x1f6 (drive_byte (bdev ?x) (blockno ?x)) (outb 0x1f5 (sector_byte 16 (blockno ?x))
    (outb 0x1f4 (sector_byte 8 (blockno ?x)) (outb 0x1f3 (sector_byte 0 (blockno ?x)) (outb 0x1f2 1 (outb 0x3f6 0 (s\<lparr>polls := k\<rparr>))))))"
  have bt: "bget_buf b t = ?x" by (simp add: t_def bget_buf_def [of _ s])
  let ?s = "if bflags ?x AND B_DIRTY \<noteq> 0 then (outb 0x1f7 IDE_CMD_WRITE t)\<lparr>pio := bdata ?x\<rparr> else outb 0x1f7 IDE_CMD_READ t"
  have "idestart hw (Some b) s = Inr ?s"
    using assms(2) bt by (simp add: idestart_def k Let_def t_def bget_buf_def [of _ s])
  moreover have "io_only s ?s" by (auto simp: t_def)
  moreover have "lba ((regs t)(0x1f7 := c)) = unat (blockno ?x)" for c
    unfolding lba_def using assms(2) lba_split [of "unat (blockno ?x)"]
    by (simp add: t_def sector_byte drive_byte(1))
  moreover have "drive ((regs t)(0x1f7 := c)) = odd (unat (bdev ?x))" "regs t 0x1f2 = 1" for c
    by (simp_all add: t_def drive_def drive_byte(2))
  ultimately show ?thesis by (auto simp: programmed_def)
qed

section \<open>Serving requests\<close>

lemma io_only_fields:
  assumes "io_only s s'"
  shows "bufs s' = bufs s" "idequeue s' = idequeue s" "held s' = held s" "slocks s' = slocks s" "cur s' = cur s" "ptable s' = ptable s"
    "havedisk1 s' = havedisk1 s"
  by (subst assms [unfolded io_only_def], simp)+

lemma qchain_cong: "(\<And>b. b \<in> set bs \<Longrightarrow> qnext (B' ! b) = qnext (B ! b)) \<Longrightarrow> qchain B' p bs = qchain B p bs"
  by (induction bs arbitrary: p) auto

lemma qchain_last:
  assumes "qchain B (Some c) bs" "length bs \<le> n" "B = bufs s"
  shows "queue_last n c s = Inr (last bs)"
  using assms
proof (induction bs arbitrary: c n)
  case (Cons b bs)
  then obtain m where n: "n = Suc m" by (cases n) auto
  show ?case
  proof (cases bs)
    case Nil
    then show ?thesis using Cons.prems n by (simp add: bget_buf_def)
  next
    case (Cons d ds)
    then have "queue_last m d s = Inr (last bs)" using Cons.prems n Cons.IH [of d m] by simp
    then show ?thesis using Cons Cons.prems n by (simp add: bget_buf_def)
  qed
qed simp

lemma qchain_snoc:
  assumes "qchain B (Some c) bs" "distinct (bs @ [b])" "bs \<noteq> []" "\<forall>x \<in> set (bs @ [b]). x < length B" "qnext (B ! b) = None"
  shows "qchain (B[last bs := (B ! last bs)\<lparr>qnext := Some b\<rparr>]) (Some c) (bs @ [b])"
  using assms
proof (induction bs arbitrary: c)
  case (Cons d ds)
  show ?case
  proof (cases "ds = []")
    case True
    then show ?thesis using Cons.prems by simp
  next
    case False
    then have "last ds \<noteq> d" using Cons.prems(2) by auto
    moreover obtain e where "qnext (B ! d) = Some e" "qchain B (Some e) ds"
      using Cons.prems(1) False by (cases ds) auto
    ultimately show ?thesis using Cons.IH [of e] Cons.prems False by simp
  qed
qed simp

text \<open>Only links of the queue differ.\<close>

definition relinked :: "buf list \<Rightarrow> buf list \<Rightarrow> bool" where
  "relinked B B' \<longleftrightarrow> length B' = length B \<and> (\<forall>c < length B. \<exists>q. B' ! c = (B ! c)\<lparr>qnext := q\<rparr>)"

lemma relinked_refl: "relinked B B"
proof -
  have "B ! c = (B ! c)\<lparr>qnext := qnext (B ! c)\<rparr>" for c by simp
  then show ?thesis unfolding relinked_def by blast
qed

lemma relinked_upd: "relinked B B' \<Longrightarrow> relinked B (B'[i := (B' ! i)\<lparr>qnext := q\<rparr>])"
proof -
  assume r: "relinked B B'"
  have "\<exists>q'. (B'[i := (B' ! i)\<lparr>qnext := q\<rparr>]) ! c = (B ! c)\<lparr>qnext := q'\<rparr>" if c: "c < length B" for c
  proof -
    obtain q' where q': "B' ! c = (B ! c)\<lparr>qnext := q'\<rparr>" using r c by (auto simp: relinked_def)
    show ?thesis using c r q' by (cases "c = i") (auto simp: relinked_def)
  qed
  then show ?thesis using r by (simp add: relinked_def)
qed

lemma relinked_nth:
  assumes "relinked B B'" "c < length B"
  shows "bflags (B' ! c) = bflags (B ! c)" "bdev (B' ! c) = bdev (B ! c)" "blockno (B' ! c) = blockno (B ! c)"
    "bdata (B' ! c) = bdata (B ! c)" "bnext (B' ! c) = bnext (B ! c)" "bprev (B' ! c) = bprev (B ! c)"
proof -
  obtain q where "B' ! c = (B ! c)\<lparr>qnext := q\<rparr>" using assms by (auto simp: relinked_def)
  then show "bflags (B' ! c) = bflags (B ! c)" "bdev (B' ! c) = bdev (B ! c)" "blockno (B' ! c) = blockno (B ! c)"
    "bdata (B' ! c) = bdata (B ! c)" "bnext (B' ! c) = bnext (B ! c)" "bprev (B' ! c) = bprev (B ! c)" by simp_all
qed

lemma programmed_cong:
  "bflags y = bflags x \<Longrightarrow> bdev y = bdev x \<Longrightarrow> blockno y = blockno x \<Longrightarrow> bdata y = bdata x \<Longrightarrow> programmed y s = programmed x s"
  by (simp add: programmed_def)

lemma enqueue_total:
  assumes ok: "ide_ok bs s" and b: "b < NBUF" "b \<notin> set bs"
  shows "\<exists>s'. enqueue b s = Inr s' \<and> s' = s\<lparr>bufs := bufs s', idequeue := Some (hd (bs @ [b]))\<rparr> \<and>
    qchain (bufs s') (Some (hd (bs @ [b]))) (bs @ [b]) \<and> relinked (bufs s) (bufs s')"
proof -
  have q: "qchain (bufs s) (idequeue s) bs" "distinct bs" "set bs \<subseteq> {..<NBUF}" "length (bufs s) = Suc NBUF"
    using ok by (simp_all add: ide_ok_def)
  let ?B = "(bufs s)[b := (bufs s ! b)\<lparr>qnext := None\<rparr>]"
  have q': "qchain ?B (idequeue s) bs" 
    using q(1) b(2) qchain_cong [of bs ?B "bufs s"] by (metis nth_list_update_neq)
  have rl: "relinked (bufs s) ?B" by (rule relinked_upd [OF relinked_refl])
  show ?thesis
  proof (cases bs)
    case Nil
    then have "idequeue s = None" using q(1) by simp
    then show ?thesis using Nil b(1) q(4) rl by (simp add: enqueue_def bupd_def)
  next
    case (Cons c cs)
    then have c: "idequeue s = Some c" using q(1) by simp
    have "card (set bs) \<le> card {..<NBUF}" using q(3) by (intro card_mono) simp_all
    then have "length bs \<le> NBUF" using distinct_card [OF q(2)] by simp
    then have "queue_last (Suc NBUF) c (s\<lparr>bufs := ?B\<rparr>) = Inr (last bs)"
      using q' c by (intro qchain_last) (auto simp del: queue_last.simps)
    moreover have "qchain (?B[last bs := (?B ! last bs)\<lparr>qnext := Some b\<rparr>]) (Some c) (bs @ [b])"
      using q' c Cons q(2-4) b by (intro qchain_snoc) auto
    moreover have "relinked (bufs s) (?B[last bs := (?B ! last bs)\<lparr>qnext := Some b\<rparr>])" by (rule relinked_upd [OF rl])
    ultimately show ?thesis using c Cons by (simp add: enqueue_def bupd_def del: queue_last.simps)
  qed
qed

lemma proc_chan_ChBuf [simp]: "proc_chan p \<noteq> ChBuf b"
  by (simp add: proc_chan_def split: option.split)

text \<open>The program for the head of the queue when a request was added at its end.\<close>

lemma ide_ok_add:
  assumes ok: "ide_ok bs s" and b: "b < NBUF" "b \<notin> set bs" "unat (blockno (bufs s ! b)) < FSSIZE"
    and q: "qchain B (Some (hd (bs @ [b]))) (bs @ [b])" "relinked (bufs s) B" "bufs t = B" "idequeue t = Some (hd (bs @ [b]))"
    and p: "bs \<noteq> [] \<Longrightarrow> regs t = regs s \<and> pio t = pio s" "bs = [] \<Longrightarrow> programmed (bufs s ! b) t"
  shows "ide_ok (bs @ [b]) t"
proof -
  have i: "distinct bs" "set bs \<subseteq> {..<NBUF}" "length (bufs s) = Suc NBUF" "\<forall>c \<in> set bs. unat (blockno (bufs s ! c)) < FSSIZE"
      "bs \<noteq> [] \<Longrightarrow> programmed (bufs s ! hd bs) s"
    using ok by (simp_all add: ide_ok_def)
  have lt: "c < length (bufs s)" if "c \<in> set (bs @ [b])" for c using that i(2,3) b(1) by auto
  note same = relinked_nth [OF q(2) lt]
  have "programmed (bufs s ! hd (bs @ [b])) t" using p i(5) by (cases bs) (auto simp: programmed_def)
  then have "programmed (bufs t ! hd (bs @ [b])) t"
    using same [of "hd (bs @ [b])"] q(3) by (subst programmed_cong) (auto simp: hd_append)
  moreover have "unat (blockno (bufs t ! c)) < FSSIZE" if "c \<in> set (bs @ [b])" for c
    using that same(3) [OF that] i(4) b(3) q(3) by auto
  moreover have "length (bufs t) = Suc NBUF" using q(2,3) i(3) by (simp add: relinked_def)
  ultimately show ?thesis using i(1,2) b(1,2) q(1,3,4) by (auto simp: ide_ok_def)
qed

lemma ide_rw_queues:
  assumes hw: "hw_ready hw" and ok: "ide_ok bs s" and run: "running s"
    and b: "b < NBUF" "b \<notin> set bs" "unat (blockno (bufs s ! b)) < FSSIZE" "slocked (slocks s (SLBuf b)) \<noteq> 0"
    and req: "bflags (bufs s ! b) AND 6 \<noteq> 2" "bdev (bufs s ! b) = 0 \<or> havedisk1 s"
  shows "wpt (\<lambda>_. False) (\<lambda>t. ide_ok (bs @ [b]) t \<and> relinked (bufs s) (bufs t) \<and> held t = {LPtable} \<and>
      (\<exists>me. cur s = Some me \<and> cur t = cur s \<and> pstate (pget me t) = SLEEPING \<and> pchan (pget me t) = ChBuf b)) (ide_rw hw b s)"
proof -
  obtain me where me: "cur s = Some me" "me < length (ptable s)" "held s = {}" using run by (auto simp: running_def)
  let ?s = "s\<lparr>held := {LIde}\<rparr>"
  have ok': "ide_ok bs ?s" using ok by (simp add: ide_ok_def programmed_def)
  obtain u where u: "enqueue b ?s = Inr u" "u = ?s\<lparr>bufs := bufs u, idequeue := Some (hd (bs @ [b]))\<rparr>"
      "qchain (bufs u) (Some (hd (bs @ [b]))) (bs @ [b])" "relinked (bufs s) (bufs u)"
    using enqueue_total [OF ok' b(1,2)] by auto
  have uf: "held u = {LIde}" "cur u = Some me" "ptable u = ptable s" "regs u = regs s" "pio u = pio s" "idequeue u = Some (hd (bs @ [b]))"
    by (subst u(2); simp add: me)+
  have lb: "b < length (bufs s)" using ok b(1) by (simp add: ide_ok_def)
  have head: "idequeue u = Some b \<longleftrightarrow> bs = []" using uf(6) b(2) by (cases bs) auto
  have blk: "unat (blockno (bufs u ! b)) < FSSIZE" using relinked_nth(3) [OF u(4) lb] b(3) by simp
  obtain v where v: "(if idequeue u = Some b then idestart hw (Some b) u else Inr u) = Inr v" "io_only u v"
      "bs \<noteq> [] \<Longrightarrow> v = u" "bs = [] \<Longrightarrow> programmed (bufs u ! b) v"
    using idestart_total [OF hw blk] head by (cases "bs = []") auto
  note vf = io_only_fields [OF v(2)]
  have "programmed (bufs s ! b) v" if "bs = []"
    using v(4) [OF that] programmed_cong [OF relinked_nth(1-4) [OF u(4) lb], of v] by simp
  then have okv: "ide_ok (bs @ [b]) v"
    using v(3) uf vf by (intro ide_ok_add [OF ok b(1-3) u(3,4)]) auto
  let ?t = "pupd me (\<lambda>p. p\<lparr>pchan := ChBuf b, pstate := SLEEPING\<rparr>) (v\<lparr>held := {LPtable}\<rparr>)"
  have "sleep (ChBuf b) LIde v = Inl (Asleep ?t)"
    by (rule sleep_total) (use vf uf me in auto)
  moreover have "bflags (bget_buf b v) AND 6 \<noteq> 2"
    using req(1) relinked_nth(1) [OF u(4) lb] vf(1) by (simp add: bget_buf_def)
  ultimately have "ide_rw hw b s = Inl (Asleep ?t)"
    using b(4) req me u(1) v(1) by (simp add: ide_rw_def ide_rw_wait_def holdingsleep_total [OF run] bget_buf_def)
  moreover have "ide_ok (bs @ [b]) ?t" using okv by (simp add: ide_ok_def programmed_def pupd_def)
  moreover have "bufs ?t = bufs u" "cur ?t = cur s" "pget me ?t = (pget me v)\<lparr>pchan := ChBuf b, pstate := SLEEPING\<rparr>" "held ?t = {LPtable}"
    using vf uf me by (simp_all add: pupd_def pget_def)
  ultimately show ?thesis using u(4) me by auto
qed

text \<open>A buffer after its request was served.\<close>

definition synced :: "u8 list \<Rightarrow> buf \<Rightarrow> buf" where
  "synced din x = x\<lparr>bdata := if bflags x AND B_DIRTY = 0 then din else bdata x, bflags := (bflags x OR B_VALID) AND NOT B_DIRTY\<rparr>"

lemma ide_ok_next:
  assumes ok: "ide_ok (b # bs) s" and t: "bufs t = (bufs s)[b := synced din (bufs s ! b)]" "idequeue t = qnext (bufs s ! b)"
    and p: "bs \<noteq> [] \<Longrightarrow> programmed (bufs s ! hd bs) t"
  shows "ide_ok bs t"
proof -
  have i: "qchain (bufs s) (qnext (bufs s ! b)) bs" "b \<notin> set bs" "distinct bs" "set bs \<subseteq> {..<NBUF}" "length (bufs s) = Suc NBUF"
      "\<forall>c \<in> set bs. unat (blockno (bufs s ! c)) < FSSIZE"
    using ok by (auto simp: ide_ok_def)
  have same: "bufs t ! c = bufs s ! c" if "c \<in> set bs" for c using that i(2) t(1) by (metis nth_list_update_neq)
  have "qchain (bufs t) (qnext (bufs s ! b)) bs" using i(1) same by (subst qchain_cong) auto
  then show ?thesis using i p same t by (cases bs) (auto simp: ide_ok_def)
qed

lemma ideintr_serves:
  assumes hw: "hw_ready hw" and ok: "ide_ok (b # bs) s" and h: "held s = {}"
  shows "wpt (\<lambda>s'. ide_ok bs s' \<and> bufs s' = (bufs s)[b := synced din (bufs s ! b)] \<and> held s' = {} \<and>
      ptable s' = map (wake (\<lambda>p. pchan p = ChBuf b)) (ptable s)) Q (ideintr hw din s)"
proof -
  let ?x = "bufs s ! b"
  let ?s = "s\<lparr>held := {LIde}, idequeue := qnext ?x\<rparr>"
  have b: "idequeue s = Some b" "b < length (bufs s)" "qchain (bufs s) (qnext ?x) bs" "b \<notin> set bs"
      "\<forall>c \<in> set bs. unat (blockno (bufs s ! c)) < FSSIZE"
    using ok by (auto simp: ide_ok_def)
  obtain k where k: "(if bflags (bget_buf b ?s) AND B_DIRTY = 0 then
        bindr (idewait hw True ?s) (\<lambda>(r, s). Inr (if r \<ge> 0 then bupd b (\<lambda>x. x\<lparr>bdata := din\<rparr>) s else s)) else Inr ?s) =
      Inr (bupd b (\<lambda>x. x\<lparr>bdata := if bflags ?x AND B_DIRTY = 0 then din else bdata x\<rparr>) (?s\<lparr>polls := k\<rparr>))"
  proof (cases "bflags ?x AND B_DIRTY = 0")
    case True
    obtain k where "idewait hw True ?s = Inr (0, ?s\<lparr>polls := k\<rparr>)" using idewait_total [OF hw] by blast
    then show ?thesis using that [of k] True by (simp add: bget_buf_def)
  next
    case False
    then show ?thesis using that [of "polls s"] by (simp add: bget_buf_def bupd_def)
  qed
  define u where "u = bupd b (\<lambda>x. x\<lparr>bflags := bflags x AND NOT B_DIRTY\<rparr>) (bupd b (\<lambda>x. x\<lparr>bflags := bflags x OR B_VALID\<rparr>)
    (bupd b (\<lambda>x. x\<lparr>bdata := if bflags ?x AND B_DIRTY = 0 then din else bdata x\<rparr>) (?s\<lparr>polls := k\<rparr>)))"
  have uf: "bufs u = (bufs s)[b := synced din ?x]" "held u = {LIde}" "idequeue u = qnext ?x" "ptable u = ptable s" "regs u = regs s" "pio u = pio s"
    using b(2) by (simp_all add: u_def bupd_def synced_def)
  let ?w = "wakeup1 (ChBuf b) u"
  have wf: "bufs ?w = bufs u" "held ?w = {LIde}" "idequeue ?w = qnext ?x" "ptable ?w = map (wake (\<lambda>p. pchan p = ChBuf b)) (ptable s)"
    using uf by (simp_all add: wakeup1_def)
  have "\<exists>v. (if idequeue ?w \<noteq> None then idestart hw (idequeue ?w) ?w else Inr ?w) = Inr v \<and> io_only ?w v \<and>
      (bs \<noteq> [] \<longrightarrow> programmed (bufs s ! hd bs) v)"
  proof (cases bs)
    case Nil
    then show ?thesis using b(3) wf(3) by auto
  next
    case (Cons c cs)
    then have q: "qnext ?x = Some c" "c \<noteq> b" using b(3,4) by auto
    then have c: "bufs ?w ! c = bufs s ! c" using wf(1) uf(1) by (metis nth_list_update_neq)
    then have "unat (blockno (bufs ?w ! c)) < FSSIZE" using b(5) Cons by simp
    from idestart_total [OF hw this] c show ?thesis using Cons q wf(3) by simp
  qed
  then obtain v where v: "(if idequeue ?w \<noteq> None then idestart hw (idequeue ?w) ?w else Inr ?w) = Inr v" "io_only ?w v"
      "bs \<noteq> [] \<longrightarrow> programmed (bufs s ! hd bs) v"
    by blast
  note vf = io_only_fields [OF v(2)]
  have "ide_ok bs v" using vf wf uf v(3) by (intro ide_ok_next [OF ok]) auto
  then have "ide_ok bs (v\<lparr>held := {}\<rparr>)" by (simp add: ide_ok_def programmed_def)
  moreover have "ideintr hw din s = Inr (v\<lparr>held := {}\<rparr>)"
  proof -
    have acq: "acquire LIde s = Inr (s\<lparr>held := {LIde}\<rparr>)" "idequeue (s\<lparr>held := {LIde}\<rparr>) = Some b" using h b(1) by simp_all
    have pop: "(s\<lparr>held := {LIde}\<rparr>)\<lparr>idequeue := qnext (bget_buf b (s\<lparr>held := {LIde}\<rparr>))\<rparr> = ?s" by (simp add: bget_buf_def)
    have wk: "wakeup (ChBuf b) u = Inr ?w" by (rule wakeup_plain) (simp_all add: uf)
    have "ideintr hw din s = release LIde v"
      by (simp only: ideintr_def acq bindr_simps option.case Let_def pop k u_def [symmetric] wk v(1))
    then show ?thesis using vf(3) wf(2) by simp
  qed
  ultimately show ?thesis using vf wf uf by simp
qed

text \<open>The memory disk does the same to the buffer.\<close>

lemma clear_set: "(f AND NOT 4) OR 2 = (f OR 2) AND NOT (4 :: u32)"
proof (rule bit_word_eqI)
  fix n
  show "bit ((f AND NOT 4) OR 2) n = bit ((f OR 2) AND NOT (4 :: u32)) n"
    by (simp only: bit_or_iff bit_and_iff bit_not_iff bit_2 bit_4) auto
qed

lemma clear_clean: "f AND 4 = 0 \<Longrightarrow> (f OR 2) AND NOT 4 = f OR (2 :: u32)"
proof (rule bit_word_eqI)
  fix n assume "f AND 4 = 0" "n < LENGTH(32)"
  then show "bit ((f OR 2) AND NOT 4) n = bit (f OR (2 :: u32)) n"
    by (simp only: bit_or_iff bit_and_iff bit_not_iff bit_2 bit_4 dirty_bit) auto
qed

lemma iderw_synced:
  assumes "iderw b s = Inr m" "b < length (bufs s)" "running s"
  shows "bufs m = (bufs s)[b := synced (disk s (unat (blockno (bufs s ! b)))) (bufs s ! b)] \<and>
    (bflags (bufs s ! b) AND B_DIRTY \<noteq> 0 \<longrightarrow> disk m = (disk s)(unat (blockno (bufs s ! b)) := bdata (bufs s ! b)))"
  using assms(1,2) clear_set [of "bflags (bufs s ! b)"] clear_clean [of "bflags (bufs s ! b)"]
  unfolding iderw_def holdingsleep_total [OF assms(3)]
  by (auto simp: bget_buf_def bupd_def synced_def Let_def split: if_splits)


definition ide_boot :: ide_state where
  "ide_boot = sl_state.extend (sl_boot\<lparr>slocks := (\<lambda>_. \<lparr>slocked = 1, slname = [], slpid = 1\<rparr>)\<rparr>)
     \<lparr>bufs = replicate 31 \<lparr>bflags = 0, bdev = 1, blockno = 7, refcnt = 1, bprev = 0, bnext = 0, qnext = None, bdata = []\<rparr>,
     num_disk_reads = 0, crashn_enable = 0, crashn = 0, disk = (\<lambda>n. [of_nat n]), disksize = 100,
     idequeue = None, havedisk1 = True, regs = (\<lambda>_. 0), pio = [], polls = 0\<rparr>"


end
