(* ===== verification/Fs.thy ===== *)
theory Fs
  imports Console
begin

text \<open>
  The file system, kernel/fs.c with inc/fs.h, inc/extent.h, inc/file.h and inc/stat.h: the super
  block, inodes and their cache, reading and writing files, directories, path names, the disks
  of the containers and the block bitmap.

  Objects of the C code that live on the kernel stack are values here. Reading an object that
  was not completely initialised is a \<open>Fault\<close>; where uninitialised bytes are copied to the disk they
  are the argument \<open>junk\<close>.
\<close>

section \<open>Types\<close>

record extent =
  startblkno :: u32
  nblocks :: u32

record superblock =
  sb_size :: u32
  sb_nblocks :: u32
  cids :: "u32 list"
  udiskstart :: u32
  bmapstart :: u32
  inodestart :: u32
  freeblock :: u32

record dinode =
  d_type :: u16
  d_devid :: u16
  d_size :: u32
  d_data :: extent

record inode =
  i_dev :: u32
  i_inum :: u32
  i_ref :: int
  i_type :: u16
  i_devid :: u16
  i_size :: u32
  i_data :: extent

record dirent =
  de_inum :: u16
  de_name :: "u8 list"

record stat =
  st_type :: u16
  st_dev :: u32
  st_ino :: u32
  st_size :: u32

text \<open>Pointers to inodes: an entry of the cache, or the inode of the inode file.\<close>

datatype iref = ICache nat | IFile

record fs_state = cons_state +
  sb :: superblock
  icache :: "inode list"
  inodefile :: inode

abbreviation (input) T_DIR :: u16 where "T_DIR \<equiv> 1"
abbreviation (input) T_FILE :: u16 where "T_FILE \<equiv> 2"
abbreviation (input) T_DEV :: u16 where "T_DEV \<equiv> 3"
abbreviation (input) ROOTDEV :: u32 where "ROOTDEV \<equiv> 1"
abbreviation (input) ROOTINO :: u32 where "ROOTINO \<equiv> 1"
abbreviation (input) INODEFILEINO :: u32 where "INODEFILEINO \<equiv> 0"
abbreviation (input) NINODE :: nat where "NINODE \<equiv> 50"
abbreviation (input) NDISK :: nat where "NDISK \<equiv> 9"
abbreviation (input) UDISKSIZE :: u32 where "UDISKSIZE \<equiv> 1000"
abbreviation (input) DIRSIZ :: nat where "DIRSIZ \<equiv> 14"
abbreviation (input) BPB :: u32 where "BPB \<equiv> 4096"
abbreviation (input) SIZEOF_DINODE :: u32 where "SIZEOF_DINODE \<equiv> 64"
abbreviation (input) SIZEOF_DIRENT :: u32 where "SIZEOF_DIRENT \<equiv> 16"

definition inode_at :: "iref \<Rightarrow> 'a fs_state_scheme \<Rightarrow> inode" where
  "inode_at p s = (case p of ICache k \<Rightarrow> icache s ! k | IFile \<Rightarrow> inodefile s)"

definition iupd :: "iref \<Rightarrow> (inode \<Rightarrow> inode) \<Rightarrow> 'a fs_state_scheme \<Rightarrow> 'a fs_state_scheme" where
  "iupd p f s = (case p of ICache k \<Rightarrow> s\<lparr>icache := (icache s)[k := f (icache s ! k)]\<rparr>
     | IFile \<Rightarrow> s\<lparr>inodefile := f (inodefile s)\<rparr>)"

definition ilock :: "iref \<Rightarrow> slid" where
  "ilock p = (case p of ICache k \<Rightarrow> SLInode k | IFile \<Rightarrow> SLInodefile)"

section \<open>The layout on the disk\<close>

definition field :: "nat \<Rightarrow> nat \<Rightarrow> u8 list \<Rightarrow> 'a::len word" where
  "field off n bs = le_word (take n (drop off bs))"

definition dec_superblock :: "u8 list \<Rightarrow> superblock" where
  "dec_superblock bs = \<lparr>sb_size = field 0 4 bs, sb_nblocks = field 4 4 bs,
     cids = map (\<lambda>i. field (8 + 4 * i) 4 bs) [0..<NDISK], udiskstart = field 44 4 bs, bmapstart = field 48 4 bs,
     inodestart = field 52 4 bs, freeblock = field 56 4 bs\<rparr>"

definition dec_dinode :: "u8 list \<Rightarrow> dinode" where
  "dec_dinode bs = \<lparr>d_type = field 0 2 bs, d_devid = field 2 2 bs, d_size = field 4 4 bs,
     d_data = \<lparr>startblkno = field 8 4 bs, nblocks = field 12 4 bs\<rparr>\<rparr>"

text \<open>\<open>updateInodeFile\<close> does not set \<open>devid\<close> and the padding.\<close>

definition enc_dinode :: "u8 list \<Rightarrow> inode \<Rightarrow> u8 list" where
  "enc_dinode junk ip = le_bytes 2 (i_type ip) @ take 2 junk @ le_bytes 4 (i_size ip) @
     le_bytes 4 (startblkno (i_data ip)) @ le_bytes 4 (nblocks (i_data ip)) @ take 48 (drop 2 junk)"

definition dec_dirent :: "u8 list \<Rightarrow> dirent" where
  "dec_dirent bs = \<lparr>de_inum = field 0 2 bs, de_name = take DIRSIZ (drop 2 bs)\<rparr>"

definition enc_dirent :: "dirent \<Rightarrow> u8 list" where
  "enc_dirent de = le_bytes 2 (de_inum de) @ take DIRSIZ (de_name de)"

definition INODEOFF :: "u32 \<Rightarrow> u32" where
  "INODEOFF inum = inum * SIZEOF_DINODE"

definition BBLOCK :: "u32 \<Rightarrow> superblock \<Rightarrow> u32" where
  "BBLOCK b k = b div BPB + bmapstart k"

section \<open>Reading and writing files\<close>

text \<open>Where the bytes go to or come from: an object on the kernel stack, or memory.\<close>

datatype dest = Struct | Mem u64
datatype source = Bytes "u8 list" | From u64

definition put :: "dest \<Rightarrow> nat \<Rightarrow> u8 list \<Rightarrow> 'a vm_state_scheme \<Rightarrow> 'a vm_state_scheme stop + 'a vm_state_scheme" where
  "put d off bs s = (case d of Struct \<Rightarrow> Inr s | Mem a \<Rightarrow> ustore (a + of_nat off) bs s)"

definition get :: "source \<Rightarrow> nat \<Rightarrow> nat \<Rightarrow> 'a vm_state_scheme \<Rightarrow> 'a vm_state_scheme stop + u8 list" where
  "get d off n s = (case d of Bytes bs \<Rightarrow> Inr (take n (drop off bs)) | From a \<Rightarrow> uload (a + of_nat off) n s)"

text \<open>The block of the current container's disk that holds byte \<open>off\<close>.\<close>

definition fblock :: "inode \<Rightarrow> u32 \<Rightarrow> u32 \<Rightarrow> u32" where
  "fblock ip c off = startblkno (i_data ip) + (c + 1) * UDISKSIZE + off div of_nat BSIZE"

text \<open>The loop of \<open>readi\<close>: \<open>left\<close> is \<open>n - tot\<close>.\<close>

function readi_loop :: "inode \<Rightarrow> dest \<Rightarrow> nat \<Rightarrow> u32 \<Rightarrow> nat \<Rightarrow> u8 list \<Rightarrow> 'a fs_state_scheme \<Rightarrow>
    'a fs_state_scheme stop + u8 list \<times> 'a fs_state_scheme" where
  "readi_loop ip dst tot off left acc s =
     (if left = 0 then Inr (acc, s)
      else
        bindr (myproc s) (\<lambda>me.
        bindr (bread (i_dev ip) (fblock ip (word_of_int (cid (pget me s))) off) s) (\<lambda>(b, s).
        let o' = unat off mod BSIZE;
            m = min left (BSIZE - o');
            bs = take m (drop o' (bdata (bget_buf b s))) in
        bindr (put dst tot bs s) (\<lambda>s.
        bindr (brelse b s) (readi_loop ip dst (tot + m) (off + of_nat m) (left - m) (acc @ bs))))))"
  by pat_completeness auto

termination readi_loop
  by (relation "measure (\<lambda>(ip, dst, tot, off, left, acc, s). left)") auto

declare readi_loop.simps [simp del]

text \<open>The device number selects an entry of \<open>devsw\<close>, or there is no such device.\<close>

definition dev_entry :: "inode \<Rightarrow> 'a cons_state_scheme \<Rightarrow> devsw_entry option" where
  "dev_entry ip s =
     (if sint (i_devid ip) < 0 \<or> sint (i_devid ip) \<ge> int NDEV then None
      else Some (devsw s ! unat (i_devid ip)))"

text \<open>The result is what \<open>readi\<close> returns and the bytes it read.\<close>

definition readi :: "iref \<Rightarrow> dest \<Rightarrow> u32 \<Rightarrow> u32 \<Rightarrow> 'a fs_state_scheme \<Rightarrow>
    'a fs_state_scheme stop + (int \<times> u8 list) \<times> 'a fs_state_scheme" where
  "readi p dst off n s =
     (let ip = inode_at p s in
      if i_type ip = T_DEV then
        case dev_entry ip s of None \<Rightarrow> Inr ((-1, []), s)
        | Some e \<Rightarrow>
            case dv_read e of None \<Rightarrow> Inr ((-1, []), s)
            | Some f \<Rightarrow>
                case dst of Struct \<Rightarrow> Inl (Fault ''device read into a kernel object'')
                | Mem a \<Rightarrow> bindr (consoleread a (sint n) s) (\<lambda>(r, s). Inr ((r, []), s))
      else if off > i_size ip \<or> off + n < off then Inr ((-1, []), s)
      else
        let n = (if off + n > i_size ip then i_size ip - off else n) in
        bindr (readi_loop ip dst 0 off (unat n) [] s) (\<lambda>(bs, s). Inr ((sint n, bs), s)))"

text \<open>The loop of \<open>writei\<close>: \<open>c\<close> is the container, \<open>left\<close> the bytes still to write.\<close>

function writei_loop :: "inode \<Rightarrow> u32 \<Rightarrow> source \<Rightarrow> nat \<Rightarrow> u32 \<Rightarrow> nat \<Rightarrow> 'a fs_state_scheme \<Rightarrow>
    'a fs_state_scheme stop + 'a fs_state_scheme" where
  "writei_loop ip c src wr off left s =
     (if left = 0 then Inr s
      else
        let boff = unat off mod BSIZE;
            bn = (if left < BSIZE - boff then left else BSIZE - boff) in
        bindr (bread ROOTDEV (fblock ip c off) s) (\<lambda>(b, s).
        bindr (get src wr bn s) (\<lambda>bs.
        let s = bupd b (\<lambda>x. x\<lparr>bdata := take boff (bdata x) @ bs @ drop (boff + bn) (bdata x)\<rparr>) s in
        bindr (bwrite b s) (\<lambda>s.
        bindr (brelse b s) (writei_loop ip c src (wr + bn) (off + of_nat bn) (left - bn))))))"
  by pat_completeness auto

termination writei_loop
  by (relation "measure (\<lambda>(ip, c, src, wr, off, left, s). left)") auto

declare writei_loop.simps [simp del]

text \<open>
  \<open>writei\<close> and \<open>updateInodeFile\<close> call each other: a file that grew is recorded in the inode file,
  which may grow in turn and is then recorded in its own first entry. The first argument
  bounds the depth; 3 is enough.
\<close>

fun writei_at :: "nat \<Rightarrow> u8 list \<Rightarrow> iref \<Rightarrow> source \<Rightarrow> u32 \<Rightarrow> u32 \<Rightarrow> 'a fs_state_scheme \<Rightarrow>
    'a fs_state_scheme stop + int \<times> 'a fs_state_scheme" where
  "writei_at 0 junk p src off n s = Inl (Fault ''writei does not end'')"
| "writei_at (Suc k) junk p src off n s =
     (let ip = inode_at p s in
      if i_type ip = T_DEV then
        case dev_entry ip s of None \<Rightarrow> Inr (-1, s)
        | Some e \<Rightarrow>
            case dv_write e of None \<Rightarrow> Inr (-1, s)
            | Some f \<Rightarrow>
                case src of Bytes bs \<Rightarrow> Inl (Fault ''device write from a kernel object'')
                | From a \<Rightarrow> consolewrite a (sint n) s
      else
        bindr (myproc s) (\<lambda>me.
        bindr (writei_loop ip (word_of_int (cid (pget me s))) src 0 off (unat n) s) (\<lambda>s.
        if off + n > i_size (inode_at p s) then
          let s = iupd p (\<lambda>i. i\<lparr>i_size := off + n\<rparr>) s;
              ip = inode_at p s in
          bindr (if i_inum ip \<noteq> 0 \<or> off \<noteq> 0 then
                   bindr (writei_at k junk IFile (Bytes (enc_dinode junk ip)) (INODEOFF (i_inum ip)) SIZEOF_DINODE s)
                     (\<lambda>(r, s). Inr s)
                 else Inr s) (\<lambda>s. Inr (sint n, s))
        else Inr (sint n, s))))"

definition writei :: "u8 list \<Rightarrow> iref \<Rightarrow> source \<Rightarrow> u32 \<Rightarrow> u32 \<Rightarrow> 'a fs_state_scheme \<Rightarrow>
    'a fs_state_scheme stop + int \<times> 'a fs_state_scheme" where
  "writei junk p src off n s = writei_at 3 junk p src off n s"

definition updateInodeFile :: "u8 list \<Rightarrow> inode \<Rightarrow> 'a fs_state_scheme \<Rightarrow>
    'a fs_state_scheme stop + 'a fs_state_scheme" where
  "updateInodeFile junk ip s =
     bindr (writei junk IFile (Bytes (enc_dinode junk ip)) (INODEOFF (i_inum ip)) SIZEOF_DINODE s) (\<lambda>(r, s). Inr s)"

section \<open>Start-up\<close>

definition readsb :: "u32 \<Rightarrow> 'a fs_state_scheme \<Rightarrow> 'a fs_state_scheme stop + 'a fs_state_scheme" where
  "readsb dev s =
     bindr (bread dev 1 s) (\<lambda>(b, s).
     brelse b (s\<lparr>sb := dec_superblock (bdata (bget_buf b s))\<rparr>))"

definition init_inodefile :: "u32 \<Rightarrow> 'a fs_state_scheme \<Rightarrow> 'a fs_state_scheme stop + 'a fs_state_scheme" where
  "init_inodefile dev s =
     bindr (bread dev (inodestart (sb s)) s) (\<lambda>(b, s).
     let di = dec_dinode (bdata (bget_buf b s)) in
     brelse b (s\<lparr>inodefile := (inodefile s)\<lparr>i_inum := INODEFILEINO, i_dev := dev, i_type := d_type di,
                 i_devid := d_devid di, i_size := d_size di, i_data := d_data di\<rparr>\<rparr>))"

text \<open>Copying one block, and the disk of a container.\<close>

definition copy_block :: "u32 \<Rightarrow> u32 \<Rightarrow> 'a bio_state_scheme \<Rightarrow> 'a bio_state_scheme stop + 'a bio_state_scheme" where
  "copy_block src dst s =
     bindr (bread ROOTDEV src s) (\<lambda>(a, s).
     bindr (bread ROOTDEV dst s) (\<lambda>(b, s).
     let s = bupd b (\<lambda>x. x\<lparr>bdata := bdata (bget_buf a s)\<rparr>) s in
     bindr (bwrite b s) (\<lambda>s.
     bindr (brelse a s) (brelse b))))"

definition udiskinit :: "int \<Rightarrow> 'a bio_state_scheme \<Rightarrow> 'a bio_state_scheme stop + 'a bio_state_scheme" where
  "udiskinit c s =
     for_range 0 (unat UDISKSIZE) (\<lambda>i. copy_block (of_nat i) (word_of_int ((c + 1) * 1000 + int i))) s"

definition udiskcopy :: "int \<Rightarrow> int \<Rightarrow> 'a bio_state_scheme \<Rightarrow> 'a bio_state_scheme stop + 'a bio_state_scheme" where
  "udiskcopy cid_src cid_dest s =
     for_range 0 (unat UDISKSIZE) (\<lambda>i. copy_block (word_of_int ((cid_src + 1) * 1000 + int i))
       (word_of_int ((cid_dest + 1) * 1000 + int i))) s"

definition iinit :: "u32 \<Rightarrow> 'a fs_state_scheme \<Rightarrow> 'a fs_state_scheme stop + 'a fs_state_scheme" where
  "iinit dev s =
     (let s = s\<lparr>held := held s - {LIcache}\<rparr>;
          s = fold (\<lambda>i. initsleeplock (SLInode i) ''inode'') [0..<NINODE] s;
          s = initsleeplock SLInodefile ''inodefile'' s in
      bindr (readsb dev s) (\<lambda>s.
      bindr (udiskinit 0 s) (\<lambda>s.
      bindr (cprintf ''sb: size %d nblocks %d udiskstart %d bmap start %d inodestart %d freeblock %d\<newline>''
               (map (\<lambda>x. VWord (ucast x)) [sb_size (sb s), sb_nblocks (sb s), udiskstart (sb s), bmapstart (sb s),
                  inodestart (sb s), freeblock (sb s)]) s) (\<lambda>s.
      bindr (for_range 0 NDISK (\<lambda>i s. cprintf ''cids[%d] = %d\<newline>''
               [VWord (of_nat i), VWord (ucast (cids (sb s) ! i))] s) s)
        (init_inodefile dev)))))"

section \<open>The inode cache\<close>

text \<open>A read that does not cover the 16 bytes used leaves them uninitialised.\<close>

definition read_dinode :: "u32 \<Rightarrow> 'a fs_state_scheme \<Rightarrow> 'a fs_state_scheme stop + dinode \<times> 'a fs_state_scheme" where
  "read_dinode inum s =
     bindr (readi IFile Struct (INODEOFF inum) SIZEOF_DINODE s) (\<lambda>((r, bs), s).
     if length bs < 16 then Inl (Fault ''uninitialised dinode'')
     else Inr (dec_dinode bs, s))"

definition iget :: "u32 \<Rightarrow> u32 \<Rightarrow> 'a fs_state_scheme \<Rightarrow> 'a fs_state_scheme stop + iref \<times> 'a fs_state_scheme" where
  "iget dev inum s =
     bindr (acquire LIcache s) (\<lambda>s.
     case first_idx (\<lambda>ip. i_ref ip > 0 \<and> i_dev ip = dev \<and> i_inum ip = inum) (icache s) of
       Some k \<Rightarrow>
         bindr (release LIcache (iupd (ICache k) (\<lambda>ip. ip\<lparr>i_ref := i_ref ip + 1\<rparr>) s)) (\<lambda>s. Inr (ICache k, s))
     | None \<Rightarrow>
         case first_idx (\<lambda>ip. i_ref ip = 0) (icache s) of
           None \<Rightarrow> Inl (Panic ''iget: no inodes'')
         | Some k \<Rightarrow>
             let s = iupd (ICache k) (\<lambda>ip. ip\<lparr>i_ref := 1, i_dev := dev, i_inum := inum\<rparr>) s in
             bindr (release LIcache s) (\<lambda>s.
             bindr (read_dinode inum s) (\<lambda>(di, s).
             let s = iupd (ICache k) (\<lambda>ip. ip\<lparr>i_type := d_type di, i_devid := d_devid di, i_size := d_size di,
                       i_data := d_data di\<rparr>) s in
             if i_type (inode_at (ICache k) s) = 0 then Inl (Panic ''iget: no type'')
             else Inr (ICache k, s))))"

definition idup :: "iref \<Rightarrow> 'a fs_state_scheme \<Rightarrow> 'a fs_state_scheme stop + 'a fs_state_scheme" where
  "idup p s = bindr (acquire LIcache s) (\<lambda>s. release LIcache (iupd p (\<lambda>ip. ip\<lparr>i_ref := i_ref ip + 1\<rparr>) s))"

definition irelease :: "iref \<Rightarrow> 'a fs_state_scheme \<Rightarrow> 'a fs_state_scheme stop + 'a fs_state_scheme" where
  "irelease p s =
     bindr (acquire LIcache s) (\<lambda>s.
     let s = (if i_ref (inode_at p s) = 1 then iupd p (\<lambda>ip. ip\<lparr>i_type := 0\<rparr>) s else s) in
     release LIcache (iupd p (\<lambda>ip. ip\<lparr>i_ref := i_ref ip - 1\<rparr>) s))"

definition stati :: "iref \<Rightarrow> 'a fs_state_scheme \<Rightarrow> stat" where
  "stati p s =
     (let ip = inode_at p s in \<lparr>st_type = i_type ip, st_dev = i_dev ip, st_ino = i_inum ip, st_size = i_size ip\<rparr>)"

section \<open>Directories and paths\<close>

text \<open>
  The two names as C strings in a memory of their own: the path element at address 0, the name
  of the directory entry at address 16.
\<close>

definition two_strings :: "u8 list \<Rightarrow> u8 list \<Rightarrow> u64 \<Rightarrow> u8" where
  "two_strings a b p =
     (let (xs, i) = (if p < 16 then (a, unat p) else (b, unat p - 16)) in if i < length xs then xs ! i else 0)"

definition namecmp :: "u8 list \<Rightarrow> u8 list \<Rightarrow> int" where
  "namecmp a b = strncmp (two_strings a b) 0 16 DIRSIZ"

text \<open>The loop of \<open>dirlookup\<close>; the first argument is at least the number of entries.\<close>

fun dirlookup_loop :: "nat \<Rightarrow> iref \<Rightarrow> u8 list \<Rightarrow> u32 \<Rightarrow> 'a fs_state_scheme \<Rightarrow>
    'a fs_state_scheme stop + (iref \<times> u32) option \<times> 'a fs_state_scheme" where
  "dirlookup_loop 0 dp name off s = Inl (Fault ''dirlookup does not end'')"
| "dirlookup_loop (Suc k) dp name off s =
     (if off < i_size (inode_at dp s) then
        bindr (readi dp Struct off SIZEOF_DIRENT s) (\<lambda>((r, bs), s).
        if r \<noteq> 16 then Inl (Panic ''dirlink read'')
        else
          let de = dec_dirent bs in
          if de_inum de = 0 then dirlookup_loop k dp name (off + SIZEOF_DIRENT) s
          else if namecmp name (de_name de) = 0 then
            bindr (iget (i_dev (inode_at dp s)) (ucast (de_inum de)) s) (\<lambda>(p, s). Inr (Some (p, off), s))
          else dirlookup_loop k dp name (off + SIZEOF_DIRENT) s)
      else Inr (None, s))"

definition dirlookup :: "iref \<Rightarrow> u8 list \<Rightarrow> 'a fs_state_scheme \<Rightarrow>
    'a fs_state_scheme stop + (iref \<times> u32) option \<times> 'a fs_state_scheme" where
  "dirlookup dp name s =
     (if i_type (inode_at dp s) \<noteq> T_DIR then Inl (Panic ''dirlookup not DIR'')
      else dirlookup_loop (unat (i_size (inode_at dp s)) div 16 + 2) dp name 0 s)"

abbreviation (input) SLASH :: u8 where "SLASH \<equiv> 0x2F"

text \<open>The next element of a path and the rest. Names are cut off after \<open>DIRSIZ\<close> bytes.\<close>

definition skipelem :: "u8 list \<Rightarrow> (u8 list \<times> u8 list) option" where
  "skipelem path =
     (let path = dropWhile (\<lambda>c. c = SLASH) path in
      if path = [] then None
      else
        let el = takeWhile (\<lambda>c. c \<noteq> SLASH) path;
            path = dropWhile (\<lambda>c. c \<noteq> SLASH) path;
            name = (if length el \<ge> DIRSIZ then take DIRSIZ el else el)
        in Some (name, dropWhile (\<lambda>c. c = SLASH) path))"

lemma skipelem_shorter: "skipelem path = Some (name, rest) \<Longrightarrow> length rest < length path"
proof -
  assume s: "skipelem path = Some (name, rest)"
  let ?p = "dropWhile (\<lambda>c. c = SLASH) path"
  have ne: "?p \<noteq> []" using s by (auto simp: skipelem_def Let_def split: if_splits)
  then have "\<not> hd ?p = SLASH" by (rule hd_dropWhile)
  then have "length (dropWhile (\<lambda>c. c \<noteq> SLASH) ?p) < length ?p"
    using ne by (cases ?p) (simp_all add: le_imp_less_Suc length_dropWhile_le)
  moreover have "rest = dropWhile (\<lambda>c. c = SLASH) (dropWhile (\<lambda>c. c \<noteq> SLASH) ?p)"
    using s unfolding skipelem_def Let_def by (simp only: ne if_False option.inject prod.inject)
  then have "length rest \<le> length (dropWhile (\<lambda>c. c \<noteq> SLASH) ?p)" by (simp add: length_dropWhile_le)
  ultimately show ?thesis using length_dropWhile_le [of "\<lambda>c. c = SLASH" path] by linarith
qed

text \<open>The loop of \<open>namex\<close>; the result is the inode and the name of the last element.\<close>

function namex_loop :: "iref \<Rightarrow> u8 list \<Rightarrow> bool \<Rightarrow> u8 list \<Rightarrow> 'a fs_state_scheme \<Rightarrow>
    'a fs_state_scheme stop + (iref \<times> u8 list) option \<times> 'a fs_state_scheme" where
  "namex_loop ip path wantparent name s =
     (case skipelem path of
        None \<Rightarrow> if wantparent then bindr (irelease ip s) (\<lambda>s. Inr (None, s)) else Inr (Some (ip, name), s)
      | Some (name, rest) \<Rightarrow>
          if i_type (inode_at ip s) \<noteq> T_DIR then bindr (irelease ip s) (\<lambda>s. Inr (None, s))
          else if wantparent \<and> rest = [] then Inr (Some (ip, name), s)
          else
            bindr (dirlookup ip name s) (\<lambda>(r, s).
            case r of None \<Rightarrow> bindr (irelease ip s) (\<lambda>s. Inr (None, s))
            | Some (next', off) \<Rightarrow> bindr (irelease ip s) (namex_loop next' rest wantparent name)))"
  by pat_completeness auto

termination namex_loop
  by (relation "measure (\<lambda>(ip, path, w, name, s). length path)") (auto simp: skipelem_shorter)

declare namex_loop.simps [simp del]

text \<open>A path that does not begin with a slash also starts at the root, looked up with \<open>namei("/")\<close>.\<close>

definition namex :: "u8 list \<Rightarrow> bool \<Rightarrow> 'a fs_state_scheme \<Rightarrow>
    'a fs_state_scheme stop + (iref \<times> u8 list) option \<times> 'a fs_state_scheme" where
  "namex path wantparent s =
     (if path \<noteq> [] \<and> hd path = SLASH then
        bindr (iget ROOTDEV ROOTINO s) (\<lambda>(ip, s). namex_loop ip path wantparent [] s)
      else
        bindr (iget ROOTDEV ROOTINO s) (\<lambda>(ip, s).
        bindr (namex_loop ip [SLASH] False [] s) (\<lambda>(r, s).
        bindr (deref ''null pointer'' r) (\<lambda>(ip, _).
        bindr (idup ip s) (namex_loop ip path wantparent [])))))"

definition namei :: "u8 list \<Rightarrow> 'a fs_state_scheme \<Rightarrow> 'a fs_state_scheme stop + iref option \<times> 'a fs_state_scheme" where
  "namei path s = bindr (namex path False s) (\<lambda>(r, s). Inr (map_option fst r, s))"

definition nameiparent :: "u8 list \<Rightarrow> 'a fs_state_scheme \<Rightarrow>
    'a fs_state_scheme stop + (iref \<times> u8 list) option \<times> 'a fs_state_scheme" where
  "nameiparent path s = namex path True s"

definition rootlookup :: "u8 list \<Rightarrow> 'a fs_state_scheme \<Rightarrow> 'a fs_state_scheme stop + iref option \<times> 'a fs_state_scheme" where
  "rootlookup name s =
     bindr (namei [SLASH] s) (\<lambda>(r, s).
     bindr (deref ''null pointer'' r) (\<lambda>ip.
     bindr (dirlookup ip name s) (\<lambda>(r, s). Inr (map_option fst r, s))))"

section \<open>Allocating blocks and inodes\<close>

text \<open>
  The loops of \<open>findBlocks\<close> over the bits of a bitmap block. \<open>bit_byte\<close> is the byte that holds the
  bit for block \<open>x\<close>, shifted so that the bit is its highest; the shift drops the bits of the
  blocks before \<open>x\<close>. A loop that meets a byte different from 0 ends with the block to go on
  with.
\<close>

definition bit_byte :: "u8 list \<Rightarrow> u32 \<Rightarrow> u8" where
  "bit_byte d x = push_bit (unat ((x mod BPB) mod 8)) (d ! unat ((x mod BPB) div 8))"

definition set_bit_byte :: "u8 list \<Rightarrow> u32 \<Rightarrow> u8 list" where
  "set_bit_byte d x =
     (let i = unat ((x mod BPB) div 8) in d[i := d ! i OR push_bit (7 - unat ((x mod BPB) mod 8)) 1])"

fun take_bits :: "nat \<Rightarrow> u32 \<Rightarrow> u32 \<Rightarrow> u8 list \<Rightarrow> u32 option \<times> u8 list" where
  "take_bits 0 b j d = (None, d)"
| "take_bits (Suc k) b j d =
     (if bit_byte d (b + j) \<noteq> 0 then (Some (b + j + 1), d)
      else take_bits k b (j + 1) (set_bit_byte d (b + j)))"

text \<open>The second loop of case 2 tests \<open>cur1\<close> and sets the bits in \<open>cur\<close>.\<close>

fun take_bits2 :: "nat \<Rightarrow> u32 \<Rightarrow> u32 \<Rightarrow> u32 \<Rightarrow> u8 list \<Rightarrow> u8 list \<Rightarrow> u32 option \<times> u8 list" where
  "take_bits2 0 b r j d1 d = (None, d)"
| "take_bits2 (Suc k) b r j d1 d =
     (if bit_byte d1 (b + j) \<noteq> 0 then (Some (b + r + j), d)
      else take_bits2 k b r (j + 1) d1 (set_bit_byte d (b + j)))"

definition bset :: "nat \<Rightarrow> u8 list \<Rightarrow> 'a bio_state_scheme \<Rightarrow> 'a bio_state_scheme" where
  "bset b d s = bupd b (\<lambda>x. x\<lparr>bdata := d\<rparr>) s"

fun findBlocks_loop :: "nat \<Rightarrow> u32 \<Rightarrow> u32 \<Rightarrow> 'a fs_state_scheme \<Rightarrow>
    'a fs_state_scheme stop + u32 \<times> 'a fs_state_scheme" where
  "findBlocks_loop 0 b n s = Inl (Fault ''findBlocks does not end'')"
| "findBlocks_loop (Suc k) b n s =
     (let i = BBLOCK b (sb s) in
      bindr (bread ROOTDEV i s) (\<lambda>(cur, s).
      if b mod BPB + n < BPB then
        let (r, d) = take_bits (unat n) b 0 (bdata (bget_buf cur s)); s = bset cur d s in
        case r of
          None \<Rightarrow> bindr (bwrite cur s) (\<lambda>s. bindr (brelse cur s) (\<lambda>s. Inr (b, s)))
        | Some b' \<Rightarrow> bindr (brelse cur s) (findBlocks_loop k b' n)
      else
        let bits = BPB - b mod BPB;
            (r, d) = take_bits (unat bits) b 0 (bdata (bget_buf cur s)); s = bset cur d s in
        case r of
          Some b' \<Rightarrow> bindr (brelse cur s) (findBlocks_loop k b' n)
        | None \<Rightarrow>
            let bits = b mod BPB + n - BPB in
            bindr (bread ROOTDEV (i + 1) s) (\<lambda>(cur1, s).
            let (r, d) = take_bits2 (unat bits) b (n - bits) 0 (bdata (bget_buf cur1 s)) (bdata (bget_buf cur s));
                s = bset cur d s in
            case r of
              None \<Rightarrow> bindr (bwrite cur s) (\<lambda>s. bindr (bwrite cur1 s) (\<lambda>s.
                bindr (brelse cur s) (\<lambda>s. bindr (brelse cur1 s) (\<lambda>s. Inr (b, s)))))
            | Some b' \<Rightarrow> bindr (brelse cur s) (\<lambda>s. bindr (brelse cur1 s) (findBlocks_loop k b' n)))))"

text \<open>Each round starts at a later block, so that \<open>2 ^ 32\<close> rounds are enough.\<close>

definition findBlocks :: "u32 \<Rightarrow> u32 \<Rightarrow> 'a fs_state_scheme \<Rightarrow> 'a fs_state_scheme stop + u32 \<times> 'a fs_state_scheme" where
  "findBlocks b n s = findBlocks_loop (2 ^ 32) b n s"

definition updateRootdir :: "u8 list \<Rightarrow> dirent \<Rightarrow> 'a fs_state_scheme \<Rightarrow>
    'a fs_state_scheme stop + 'a fs_state_scheme" where
  "updateRootdir junk de s =
     bindr (iget ROOTDEV ROOTINO s) (\<lambda>(rootdir, s).
     bindr (writei junk rootdir (Bytes (enc_dirent de)) (i_size (inode_at rootdir s)) SIZEOF_DIRENT s) (\<lambda>(r, s).
     irelease rootdir s))"

text \<open>\<open>name\<close> is the address of the path the user passed to \<open>open\<close>.\<close>

definition createInode :: "u8 list \<Rightarrow> u64 \<Rightarrow> 'a fs_state_scheme \<Rightarrow> 'a fs_state_scheme stop + 'a fs_state_scheme" where
  "createInode junk name s =
     bindr (acquiresleep SLInodefile s) (\<lambda>s.
     let inum = i_size (inodefile s) div SIZEOF_DINODE in
     bindr (findBlocks (inodestart (sb s)) 20 s) (\<lambda>(start, s).
     let ip = \<lparr>i_dev = ROOTDEV, i_inum = inum, i_ref = 0, i_type = T_FILE, i_devid = 0, i_size = 0,
               i_data = \<lparr>startblkno = start, nblocks = 20\<rparr>\<rparr> in
     bindr (updateInodeFile junk ip s) (\<lambda>s.
     bindr (uload name DIRSIZ s) (\<lambda>nm.
     bindr (updateRootdir junk \<lparr>de_inum = ucast inum, de_name = nm\<rparr> s) (\<lambda>s.
     releasesleep SLInodefile s)))))"

end
