(* ===== verification/Fs_Data.thy ===== *)
theory Fs_Data
  imports Fs
begin

text \<open>
  Reading and writing the contents of files: \<open>readi\<close> returns the bytes the disk has for the file,
  \<open>writei\<close> replaces exactly the bytes of the range it is given, and a file that grew is
  recorded in the inode file.
\<close>

section \<open>One block through the cache\<close>

text \<open>
  A process is running, the cache is consistent and has a buffer that nobody uses, and blocks
  have 512 bytes.
\<close>

definition fs_ok :: "'a bio_state_scheme \<Rightarrow> bool" where
  "fs_ok s \<longleftrightarrow> bcache_ok s \<and> running s \<and> crashn_enable s = 0 \<and> 0 \<in> set (take NBUF (refcnts s)) \<and>
     (\<forall>k < disksize s. length (disk s k) = BSIZE)"

lemma fs_ok_buffer: "fs_ok s \<Longrightarrow> has_buffer bno s"
proof -
  assume "fs_ok s"
  then obtain b where "b < NBUF" "refcnts s ! b = 0" "b < length (refcnts s)" by (auto simp: fs_ok_def in_set_conv_nth)
  then show ?thesis by (auto simp: has_buffer_def refcnts_def)
qed

text \<open>What stays the same between two calls, except for the bytes on the disk.\<close>

definition fs_step :: "'a bio_state_scheme \<Rightarrow> 'a bio_state_scheme \<Rightarrow> bool" where
  "fs_step s s' \<longleftrightarrow> fs_ok s' \<and> bkeep s s' \<and> disksize s' = disksize s"

lemma fs_step_refl: "fs_ok s \<Longrightarrow> fs_step s s" by (simp add: fs_step_def)

lemma fs_step_trans: "fs_step s t \<Longrightarrow> fs_step t u \<Longrightarrow> fs_step s u" by (auto simp: fs_step_def intro: bkeep_trans)

definition block_held :: "u32 \<Rightarrow> 'a bio_state_scheme \<Rightarrow> nat \<Rightarrow> 'a bio_state_scheme \<Rightarrow> bool" where
  "block_held bno s b t \<longleftrightarrow> b < NBUF \<and> bcache_ok t \<and> running t \<and> disksize t = disksize s \<and> crashn_enable t = 0 \<and>
     refcnts t = (refcnts s)[b := refcnts s ! b + 1] \<and> slocked (slocks t (SLBuf b)) \<noteq> 0 \<and> bdev (bufs t ! b) = 1 \<and>
     blockno (bufs t ! b) = bno \<and> bit (bflags (bufs t ! b)) 1"

lemma bread_block:
  assumes "fs_ok s" "unat bno < disksize s"
  shows "wpt (\<lambda>(b, t). block_held bno s b t \<and> bdata (bufs t ! b) = disk s (unat bno) \<and> disk t = disk s \<and> bkeep s t)
    (waits s) (bread 1 bno s)"
  using bread_total [of s bno] fs_ok_buffer [OF assms(1), of bno] assms
  by (auto simp: fs_ok_def block_held_def got_block_def elim!: wpt_post)

lemma running_pmem [simp]: "running (s\<lparr>pmem := m\<rparr>) = running s"
  by (simp add: running_def)

lemma pmem_upds [simp]:
  fixes s :: "'a bio_state_scheme"
  shows "bcache_ok (s\<lparr>pmem := m\<rparr>) = bcache_ok s" "refcnts (s\<lparr>pmem := m\<rparr>) = refcnts s"
    "block_held bno s0 b (s\<lparr>pmem := m\<rparr>) = block_held bno s0 b s" "fs_ok (s\<lparr>pmem := m\<rparr>) = fs_ok s"
  by (simp_all add: bcache_ok_def ring_def nxt_def prv_def refcnts_def block_held_def fs_ok_def)

lemma brelse_block:
  assumes h: "block_held bno s b t" and ok: "fs_ok s"
    and clean: "bdata (bufs t ! b) = disk t (unat bno)" and len: "\<forall>k < disksize t. length (disk t k) = BSIZE"
  shows "wpt (\<lambda>s'. fs_step t s' \<and> disk s' = disk t) Q (brelse b t)"
proof -
  have b: "b < length (refcnts s)" using h ok bcache_okD(2) [of s] by (simp add: fs_ok_def block_held_def refcnts_def)
  have "wpt (\<lambda>s'. bcache_ok s' \<and> running s' \<and> disk s' = disk t \<and> disksize s' = disksize t \<and>
    crashn_enable s' = crashn_enable t \<and> bkeep t s' \<and> refcnts s' = (refcnts t)[b := refcnts t ! b - 1] \<and>
    slocked (slocks s' (SLBuf b)) = 0) Q (brelse b t)"
    by (rule brelse_total) (use h clean in \<open>auto simp: block_held_def\<close>)
  then show ?thesis
    by (rule wpt_post) (use h ok len b in \<open>auto simp: fs_step_def fs_ok_def block_held_def\<close>)
qed

lemma bwrite_block:
  assumes h: "block_held bno s b t" and d: "length d = BSIZE" and n: "unat bno < disksize s" and ok: "fs_ok s"
    and len: "\<forall>k < disksize t. length (disk t k) = BSIZE"
  shows "wpt (\<lambda>u. block_held bno s b u \<and> bdata (bufs u ! b) = d \<and> disk u = (disk t)(unat bno := d) \<and> bkeep t u \<and>
      (\<forall>k < disksize u. length (disk u k) = BSIZE)) Q
    (bwrite b (bupd b (\<lambda>x. x\<lparr>bdata := d\<rparr>) t))"
proof -
  let ?f = "\<lambda>x. x\<lparr>bdata := d\<rparr>"
  have b: "b < NBUF" "bcache_ok t" "running t" "slocked (slocks t (SLBuf b)) \<noteq> 0" "bdev (bufs t ! b) = 1"
      "blockno (bufs t ! b) = bno" "crashn_enable t = 0" "disksize t = disksize s"
    using h by (auto simp: block_held_def)
  have nb: "bufs (bupd b ?f t) ! b = ?f (bufs t ! b)" using b(1) bcache_okD(2) [OF b(2)] by (simp add: bupd_def)
  have "bcache_ok (bupd b ?f t)"
    by (rule bcache_ok_bupd [OF b(2,1), where f = ?f]) (use bcache_okD(3-5) [OF b(2)] b in auto)
  then have "wpt (wrote_block b (bupd b ?f t)) Q (bwrite b (bupd b ?f t))"
    by (rule bwrite_total) (use b nb n in auto)
  then show ?thesis
    by (rule wpt_post) (use h nb n b d len in \<open>auto simp: wrote_block_def block_held_def refcnts_bupd_same\<close>)
qed

section \<open>Where the bytes of a file are\<close>

definition fpos :: "inode \<Rightarrow> u32 \<Rightarrow> u32 \<Rightarrow> nat \<times> nat" where
  "fpos ip c off = (unat (fblock ip c off), unat off mod BSIZE)"

definition dbyte :: "(nat \<Rightarrow> u8 list) \<Rightarrow> nat \<times> nat \<Rightarrow> u8" where
  "dbyte D q = D (fst q) ! snd q"

definition file_bytes :: "inode \<Rightarrow> u32 \<Rightarrow> u32 \<Rightarrow> nat \<Rightarrow> (nat \<Rightarrow> u8 list) \<Rightarrow> u8 list" where
  "file_bytes ip c off n D = map (\<lambda>i. dbyte D (fpos ip c (off + of_nat i))) [0..<n]"

lemma length_file_bytes [simp]: "length (file_bytes ip c off n D) = n"
  by (simp add: file_bytes_def)

lemma unat_div512: "unat (x div 512 :: u32) = unat x div 512"
  by (simp add: unat_div_distrib)

lemma fpos_inj: "fpos ip c x = fpos ip c y \<Longrightarrow> x = y"
proof -
  assume e: "fpos ip c x = fpos ip c y"
  then have "x div 512 = y div 512" by (simp add: fpos_def fblock_def word_unat_eq_iff [symmetric])
  then have "unat x div 512 = unat y div 512" by (metis unat_div512)
  moreover have "unat x mod 512 = unat y mod 512" using e by (simp add: fpos_def)
  ultimately have "unat x = unat y" by (metis div_mult_mod_eq)
  then show ?thesis by (simp add: word_unat_eq_iff)
qed

lemma unat_off: "unat (off :: u32) + i < 2 ^ 32 \<Longrightarrow> unat (off + of_nat i) = unat off + i"
  by (simp add: unat_word_ariths unat_of_nat)

lemma fpos_block:
  assumes "unat off mod 512 + i < 512" "unat off + i < 2 ^ 32"
  shows "fpos ip c (off + of_nat i) = (unat (fblock ip c off), unat off mod 512 + i)"
proof -
  have "unat off + i = 512 * (unat off div 512) + (unat off mod 512 + i)" by simp
  then have "(unat off + i) div 512 = unat off div 512" "(unat off + i) mod 512 = unat off mod 512 + i"
    using assms(1) by (metis div_mult_self4 div_less add_0_right zero_neq_numeral, metis mod_mult_self4 mod_less)
  moreover have "unat ((off + of_nat i) div 512) = (unat off + i) div 512" using assms(2) by (simp only: unat_div512 unat_off)
  ultimately have "(off + of_nat i) div 512 = off div 512" "unat (off + of_nat i) mod 512 = unat off mod 512 + i"
    using assms(2) by (simp_all add: word_unat_eq_iff unat_div512 unat_off)
  then show ?thesis by (simp add: fpos_def fblock_def)
qed

lemma file_bytes_block:
  assumes "unat off mod 512 + m \<le> 512" "unat off + m \<le> 2 ^ 32" "length (D (unat (fblock ip c off))) = 512"
  shows "file_bytes ip c off m D = take m (drop (unat off mod 512) (D (unat (fblock ip c off))))"
proof (rule nth_equalityI)
  fix i assume "i < length (file_bytes ip c off m D)"
  then have i: "i < m" by simp
  then have "fpos ip c (off + of_nat i) = (unat (fblock ip c off), unat off mod 512 + i)"
    using assms(1,2) by (intro fpos_block) auto
  then show "file_bytes ip c off m D ! i = take m (drop (unat off mod 512) (D (unat (fblock ip c off)))) ! i"
    using i assms(1,3) by (simp add: file_bytes_def dbyte_def)
qed (use assms in simp)

lemma file_bytes_add: "file_bytes ip c off (m + n) D = file_bytes ip c off m D @ file_bytes ip c (off + of_nat m) n D"
  unfolding file_bytes_def by (rule nth_equalityI) (auto simp: nth_append add.assoc)

section \<open>Reading\<close>

text \<open>Everything but memory is as \<open>fs_step\<close> says.\<close>

definition fs_mstep :: "'a bio_state_scheme \<Rightarrow> 'a bio_state_scheme \<Rightarrow> bool" where
  "fs_mstep s s' \<longleftrightarrow> fs_step (s\<lparr>pmem := pmem s'\<rparr>) s'"

definition stored :: "dest \<Rightarrow> nat \<Rightarrow> u8 list \<Rightarrow> 'a vm_state_scheme \<Rightarrow> 'a vm_state_scheme \<Rightarrow> bool" where
  "stored dst tot bs s s' \<longleftrightarrow> (case dst of Struct \<Rightarrow> pmem s' = pmem s
     | Mem a \<Rightarrow> ustore (a + of_nat tot) bs s = Inr (s\<lparr>pmem := pmem s'\<rparr>))"

lemma stored_append:
  assumes "stored dst tot xs s t" "cr3 t = cr3 s" "stored dst (tot + length xs) ys t u"
  shows "stored dst tot (xs @ ys) s u"
proof (cases dst)
  case (Mem a)
  have "ustore (a + of_nat tot + of_nat (length xs)) ys (s\<lparr>pmem := pmem t\<rparr>) = Inr (s\<lparr>pmem := pmem u\<rparr>)"
    using ustore_cong [of "s\<lparr>pmem := pmem t\<rparr>" t "a + of_nat tot + of_nat (length xs)" ys "t\<lparr>pmem := pmem u\<rparr>"] assms(2,3) Mem
    by (simp add: stored_def add.assoc)
  then show ?thesis using assms(1) Mem by (simp add: stored_def ustore_append)
qed (use assms in \<open>simp add: stored_def\<close>)

lemma put_wpm: "wpm (\<lambda>s'. s' = s\<lparr>pmem := pmem s'\<rparr> \<and> stored dst tot bs s s') Q (put dst tot bs s)"
proof (cases dst)
  case (Mem a)
  have "stored (Mem a) tot bs s s'" if "ustore (a + of_nat tot) bs s = Inr s'" "s' = s\<lparr>pmem := pmem s'\<rparr>" for s'
    using that by (simp add: stored_def)
  then show ?thesis using Mem by (auto simp: put_def intro!: ustore_wpm [THEN wpm_post])
qed (simp add: put_def stored_def)

text \<open>The container of the current process.\<close>

definition mycid :: "'a proc_state_scheme \<Rightarrow> u32" where
  "mycid s = word_of_int (map cid (ptable s) ! the (cur s))"

lemma mycid_eq: "running s \<Longrightarrow> cur s = Some me \<Longrightarrow> word_of_int (cid (pget me s)) = mycid s"
  by (auto simp: running_def mycid_def pget_def)

lemma bio_more_fields:
  fixes s s' :: "'a fs_state_scheme"
  assumes "bio_state.more s' = bio_state.more s"
  shows "devsw s' = devsw s \<and> fs_state.more s' = fs_state.more s \<and> sb s' = sb s \<and> icache s' = icache s \<and> inodefile s' = inodefile s"
  using assms by (cases s; cases s'; simp)

lemma bkeep_fields:
  fixes s s' :: "'a fs_state_scheme"
  assumes "bkeep s s'"
  shows "mycid s' = mycid s" "cr3 s' = cr3 s" "pmem s' = pmem s" "cur s' = cur s" "inode_at p s' = inode_at p s" "devsw s' = devsw s"
    "fs_state.more s' = fs_state.more s" "sb s' = sb s" "icache s' = icache s" "inodefile s' = inodefile s"
proof -
  have k: "bio_state.more s' = bio_state.more s" "pmem s' = pmem s" "cr3 s' = cr3 s" "cur s' = cur s"
      "map cid (ptable s') = map cid (ptable s)"
    using assms by (simp_all add: bkeep_def)
  note f = bio_more_fields [OF k(1)]
  show "mycid s' = mycid s" "cr3 s' = cr3 s" "pmem s' = pmem s" "cur s' = cur s" "inode_at p s' = inode_at p s" "devsw s' = devsw s"
    "fs_state.more s' = fs_state.more s" "sb s' = sb s" "icache s' = icache s" "inodefile s' = inodefile s"
    using f k by (simp_all add: mycid_def inode_at_def split: iref.split)
qed

lemma fs_mstep_fields:
  fixes s s' :: "'a fs_state_scheme"
  assumes "fs_mstep s s'"
  shows "fs_ok s'" "disksize s' = disksize s" "mycid s' = mycid s" "cr3 s' = cr3 s" "cur s' = cur s" "inode_at p s' = inode_at p s"
    "icache s' = icache s" "inodefile s' = inodefile s"
proof -
  have k: "bkeep (s\<lparr>pmem := pmem s'\<rparr>) s'" "fs_ok s'" "disksize s' = disksize s"
    using assms by (simp_all add: fs_mstep_def fs_step_def)
  show "fs_ok s'" "disksize s' = disksize s" by (rule k)+
  show "mycid s' = mycid s" "cr3 s' = cr3 s" "cur s' = cur s" "inode_at p s' = inode_at p s"
    "icache s' = icache s" "inodefile s' = inodefile s"
    using bkeep_fields(1-4,9,10) [OF k(1)] by (simp_all add: mycid_def inode_at_def split: iref.split)
qed

lemma fs_mstep_trans: "fs_mstep s t \<Longrightarrow> fs_mstep t u \<Longrightarrow> fs_mstep s u"
  by (auto simp: fs_mstep_def fs_step_def bkeep_def)

text \<open>One round.\<close>

definition in_disk :: "inode \<Rightarrow> u32 \<Rightarrow> u32 \<Rightarrow> nat \<Rightarrow> 'a bio_state_scheme \<Rightarrow> bool" where
  "in_disk ip c off n s \<longleftrightarrow> unat off + n \<le> 2 ^ 32 \<and> (\<forall>i < n. unat (fblock ip c (off + of_nat i)) < disksize s)"

lemma in_disk_drop: "in_disk ip c off n s \<Longrightarrow> m < n \<Longrightarrow> disksize s' = disksize s \<Longrightarrow> in_disk ip c (off + of_nat m) (n - m) s'"
proof -
  assume a: "in_disk ip c off n s" "m < n" "disksize s' = disksize s"
  have "unat (fblock ip c (off + of_nat m + of_nat i)) < disksize s'" if "i < n - m" for i
  proof -
    have "off + of_nat m + of_nat i = off + of_nat (m + i)" by (simp add: add.assoc)
    then show ?thesis using a that by (simp only: in_disk_def)
  qed
  then show ?thesis using a by (auto simp: in_disk_def unat_off)
qed

text \<open>A held block stays held when memory changes.\<close>

lemma held_pmem:
  fixes s1 :: "'a fs_state_scheme"
  assumes "block_held bno s b s1" "bdata (bufs s1 ! b) = disk s (unat bno)" "disk s1 = disk s" "bkeep s s1" "fs_ok s"
  shows "wpt (\<lambda>s3. fs_mstep s s3 \<and> disk s3 = disk s \<and> pmem s3 = m) Q (brelse b (s1\<lparr>pmem := m\<rparr>))"
proof -
  have "wpt (\<lambda>s'. fs_step (s1\<lparr>pmem := m\<rparr>) s' \<and> disk s' = disk (s1\<lparr>pmem := m\<rparr>)) Q (brelse b (s1\<lparr>pmem := m\<rparr>))"
    by (rule brelse_block [of bno s]) (use assms in \<open>auto simp: fs_ok_def block_held_def\<close>)
  then show ?thesis
    by (rule wpt_post) (use assms in \<open>auto simp: fs_mstep_def fs_step_def bkeep_def block_held_def\<close>)
qed

lemma readi_round:
  fixes s :: "'a fs_state_scheme"
  assumes ok: "fs_ok s" and bno: "unat bno < disksize s"
  shows "wpm (\<lambda>(b, s1). bdata (bget_buf b s1) = disk s (unat bno) \<and> (\<forall>bs.
      wpm (\<lambda>s2. wpm (\<lambda>s3. fs_mstep s s3 \<and> disk s3 = disk s \<and> stored dst tot bs s s3) (waits s) (brelse b s2))
        (waits s) (put dst tot bs s1))) (waits s) (bread 1 bno s)"
proof (rule wpm_post [OF wpt_wpm [OF bread_block [OF ok bno]]], clarify, intro conjI allI)
  fix b s1 bs assume h: "block_held bno s b s1" "bdata (bufs s1 ! b) = disk s (unat bno)" "disk s1 = disk s" "bkeep s s1"
  show "bdata (bget_buf b s1) = disk s (unat bno)" using h(2) by (simp add: bget_buf_def)
  show "wpm (\<lambda>s2. wpm (\<lambda>s3. fs_mstep s s3 \<and> disk s3 = disk s \<and> stored dst tot bs s s3) (waits s) (brelse b s2)) (waits s) (put dst tot bs s1)"
  proof (rule wpm_post [OF put_wpm])
    fix s2 assume s2: "s2 = s1\<lparr>pmem := pmem s2\<rparr> \<and> stored dst tot bs s1 s2"
    have "stored dst tot bs s s3" if "pmem s3 = pmem s2" for s3
      using s2 that stored_append [of dst tot "[]" s s1 bs s3] h(4) by (cases dst) (simp_all add: stored_def bkeep_def)
    moreover have "wpt (\<lambda>s3. fs_mstep s s3 \<and> disk s3 = disk s \<and> pmem s3 = pmem s2) (waits s) (brelse b s2)"
      using held_pmem [OF h ok, of "pmem s2"] conjunct1 [OF s2] by (metis (lifting))
    ultimately show "wpm (\<lambda>s3. fs_mstep s s3 \<and> disk s3 = disk s \<and> stored dst tot bs s s3) (waits s) (brelse b s2)"
      by (blast intro: wpt_wpm [THEN wpm_post])
  qed
qed

definition read_post :: "inode \<Rightarrow> dest \<Rightarrow> nat \<Rightarrow> u32 \<Rightarrow> nat \<Rightarrow> u8 list \<Rightarrow> 'a fs_state_scheme \<Rightarrow>
    u8 list \<times> 'a fs_state_scheme \<Rightarrow> bool" where
  "read_post ip dst tot off n acc s = (\<lambda>(bs, s'). bs = acc @ file_bytes ip (mycid s) off n (disk s) \<and> fs_mstep s s' \<and>
     disk s' = disk s \<and> stored dst tot (file_bytes ip (mycid s) off n (disk s)) s s')"

lemma read_post_cons:
  assumes s3: "fs_mstep s s3" "disk s3 = disk s" "stored dst tot xs s s3" and xs: "xs = file_bytes ip (mycid s) off m (disk s)"
    and m: "m \<le> n" and r: "read_post ip dst (tot + m) (off + of_nat m) (n - m) (acc @ xs) s3 r"
  shows "read_post ip dst tot off n acc s r"
proof -
  obtain bs s' where r': "r = (bs, s')" by (cases r)
  note f = fs_mstep_fields [OF s3(1)]
  let ?ys = "file_bytes ip (mycid s) (off + of_nat m) (n - m) (disk s)"
  have split: "file_bytes ip (mycid s) off n (disk s) = xs @ ?ys"
    using file_bytes_add [of ip "mycid s" off m "n - m" "disk s"] m xs by simp
  have p: "bs = (acc @ xs) @ ?ys" "fs_mstep s3 s'" "disk s' = disk s" "stored dst (tot + m) ?ys s3 s'"
    using r s3(2) f(3) by (simp_all add: read_post_def r')
  have "stored dst tot (xs @ ?ys) s s'" by (rule stored_append [OF s3(3) f(4)]) (use p(4) xs in simp)
  then show ?thesis using p split fs_mstep_trans [OF s3(1) p(2)] by (simp add: read_post_def r')
qed

lemma readi_loop_total:
  fixes s :: "'a fs_state_scheme"
  assumes "fs_ok s" "i_dev ip = 1" "in_disk ip (mycid s) off left s"
  shows "wpm (read_post ip dst tot off left acc s) (waits s) (readi_loop ip dst tot off left acc s)"
  using assms
proof (induction left arbitrary: tot off acc s rule: less_induct)
  case (less left)
  show ?case
  proof (cases "left = 0")
    case True
    then show ?thesis
      using less.prems(1)
      by (simp add: readi_loop.simps read_post_def file_bytes_def fs_mstep_def fs_step_def stored_def split: dest.split)
  next
    case False
    let ?c = "mycid s" and ?o = "unat off mod 512"
    let ?m = "min left (512 - ?o)"
    let ?bs = "take ?m (drop ?o (disk s (unat (fblock ip ?c off))))"
    obtain me where me: "cur s = Some me" using less.prems(1) by (auto simp: fs_ok_def running_def)
    have cid: "word_of_int (cid (pget me s)) = ?c" using mycid_eq [OF _ me] less.prems(1) by (simp add: fs_ok_def)
    have bno: "unat (fblock ip ?c off) < disksize s" and ov: "unat off + left \<le> 2 ^ 32"
      using less.prems(3) False by (auto simp: in_disk_def dest!: spec [of _ 0])
    have m: "0 < ?m" "?m \<le> left" "?o + ?m \<le> 512" using False by (auto simp: min_def)
    have bs: "?bs = file_bytes ip ?c off ?m (disk s)"
      using m ov bno less.prems(1) by (intro file_bytes_block [symmetric]) (auto simp: fs_ok_def)
    have rest: "wpm (read_post ip dst tot off left acc s) (waits s)
        (readi_loop ip dst (tot + ?m) (off + of_nat ?m) (left - ?m) (acc @ ?bs) s3)"
      if s3: "fs_mstep s s3 \<and> disk s3 = disk s \<and> stored dst tot ?bs s s3" for s3
    proof -
      have s3': "fs_mstep s s3" "disk s3 = disk s" "stored dst tot ?bs s s3" using s3 by simp_all
      note f = fs_mstep_fields [OF s3'(1)]
      have "in_disk ip (mycid s3) (off + of_nat ?m) (left - ?m) s3"
      proof (cases "?m = left")
        case True
        then show ?thesis using unat_lt32 [of "off + of_nat left"] by (simp add: in_disk_def)
      next
        case False
        then show ?thesis using in_disk_drop [OF less.prems(3), of ?m s3] m f by simp
      qed
      then have "wpm (read_post ip dst (tot + ?m) (off + of_nat ?m) (left - ?m) (acc @ ?bs) s3) (waits s3)
          (readi_loop ip dst (tot + ?m) (off + of_nat ?m) (left - ?m) (acc @ ?bs) s3)"
        using m f(1) less.prems(2) by (intro less.IH) simp_all
      then show ?thesis
      proof (rule wpm_mono)
        show "waits s t" if "waits s3 t" for t using that s3'(2) by (simp add: waits_def)
      qed (rule read_post_cons [OF s3' bs m(2)])
    qed
    have "wpm (\<lambda>(b, s1). wpm (\<lambda>s2. wpm (\<lambda>s3. wpm (read_post ip dst tot off left acc s) (waits s)
        (readi_loop ip dst (tot + ?m) (off + of_nat ?m) (left - ?m) (acc @ take ?m (drop ?o (bdata (bget_buf b s1)))) s3))
        (waits s) (brelse b s2)) (waits s) (put dst tot (take ?m (drop ?o (bdata (bget_buf b s1)))) s1)) (waits s) (bread 1 (fblock ip ?c off) s)"
    proof (rule wpm_post [OF readi_round [OF less.prems(1) bno, of dst tot]], clarify)
      fix b s1 assume b: "bdata (bget_buf b s1) = disk s (unat (fblock ip ?c off))" and
        all: "\<forall>bs. wpm (\<lambda>s2. wpm (\<lambda>s3. fs_mstep s s3 \<and> disk s3 = disk s \<and> stored dst tot bs s s3) (waits s) (brelse b s2)) (waits s) (put dst tot bs s1)"
      show "wpm (\<lambda>s2. wpm (\<lambda>s3. wpm (read_post ip dst tot off left acc s) (waits s)
        (readi_loop ip dst (tot + ?m) (off + of_nat ?m) (left - ?m) (acc @ take ?m (drop ?o (bdata (bget_buf b s1)))) s3))
        (waits s) (brelse b s2)) (waits s) (put dst tot (take ?m (drop ?o (bdata (bget_buf b s1)))) s1)"
        unfolding b by (rule wpm_post [OF spec [OF all, of ?bs]], rule wpm_post, assumption, rule rest)
    qed
    then show ?thesis
      by (subst readi_loop.simps)
        (simp only: False me cid less.prems(2) myproc_def deref_simps bindr_simps wpm_bindr Let_def case_prod_unfold if_False)
  qed
qed

text \<open>\<open>readi\<close> of a file: what is in it from \<open>off\<close> on, at most \<open>n\<close> bytes.\<close>

definition avail_bytes :: "u32 \<Rightarrow> u32 \<Rightarrow> u32 \<Rightarrow> u32" where
  "avail_bytes sz off n = (if off + n > sz then sz - off else n)"

lemma readi_total:
  fixes s :: "'a fs_state_scheme"
  assumes "fs_ok s" "ip = inode_at p s" "i_type ip \<noteq> T_DEV" "i_dev ip = 1" "off \<le> i_size ip" "off \<le> off + n"
    and "in_disk ip (mycid s) off (unat (avail_bytes (i_size ip) off n)) s"
  shows "wpm (\<lambda>((r, bs), s'). r = sint (avail_bytes (i_size ip) off n) \<and>
      bs = file_bytes ip (mycid s) off (unat (avail_bytes (i_size ip) off n)) (disk s) \<and>
      fs_mstep s s' \<and> disk s' = disk s \<and> stored dst 0 bs s s') (waits s) (readi p dst off n s)"
proof -
  let ?n = "avail_bytes (i_size ip) off n"
  have "readi p dst off n s = bindr (readi_loop ip dst 0 off (unat ?n) [] s) (\<lambda>(bs, s). Inr ((sint ?n, bs), s))"
    using assms(2,3) leD [OF assms(5)] leD [OF assms(6)] by (simp add: readi_def avail_bytes_def Let_def)
  moreover have "wpm (\<lambda>(bs, s'). bs = file_bytes ip (mycid s) off (unat ?n) (disk s) \<and> fs_mstep s s' \<and> disk s' = disk s \<and> stored dst 0 bs s s')
      (waits s) (readi_loop ip dst 0 off (unat ?n) [] s)"
    by (rule wpm_post [OF readi_loop_total [OF assms(1,4,7)]]) (auto simp: read_post_def)
  ultimately show ?thesis by (simp add: wpm_bindr case_prod_unfold)
qed

section \<open>Writing\<close>

text \<open>The source of \<open>writei\<close> supplies the bytes \<open>bs\<close>.\<close>

definition supplies :: "source \<Rightarrow> u8 list \<Rightarrow> 'a vm_state_scheme \<Rightarrow> bool" where
  "supplies src bs s \<longleftrightarrow> (case src of Bytes xs \<Rightarrow> bs = xs | From a \<Rightarrow> uload a (length bs) s = Inr bs)"

lemma length_uload_Inr: "uload a n s = Inr xs \<Longrightarrow> length xs = n"
  using uload_wpm [of a n s "\<lambda>_. True"] by auto

lemma get_supplies:
  assumes "supplies src bs s" "wr + n \<le> length bs" "pmem s' = pmem s" "cr3 s' = cr3 s"
  shows "get src wr n s' = Inr (take n (drop wr bs))"
proof (cases src)
  case (From a)
  obtain m where m: "length bs = wr + (n + m)" using assms(2) by (metis add.assoc le_Suc_ex)
  have "uload a (wr + (n + m)) s = Inr bs" using assms(1) From m by (simp add: supplies_def)
  then obtain xs ys zs where x: "uload a wr s = Inr xs" "uload (a + of_nat wr) n s = Inr ys" "bs = xs @ ys @ zs"
    unfolding uload_append by (auto simp: bindr_iff)
  then have "length xs = wr" "length ys = n" by (auto dest: length_uload_Inr)
  then show ?thesis using From x uload_cong [OF assms(3,4) x(2)] by (simp add: get_def)
qed (use assms in \<open>simp add: get_def supplies_def\<close>)

text \<open>The bytes from \<open>off\<close> on are \<open>bs\<close> and nothing else changed.\<close>

definition wrote :: "inode \<Rightarrow> u32 \<Rightarrow> u32 \<Rightarrow> u8 list \<Rightarrow> (nat \<Rightarrow> u8 list) \<Rightarrow> (nat \<Rightarrow> u8 list) \<Rightarrow> bool" where
  "wrote ip c off bs D D' \<longleftrightarrow> (\<forall>i < length bs. dbyte D' (fpos ip c (off + of_nat i)) = bs ! i) \<and>
     (\<forall>q. snd q < BSIZE \<and> (\<forall>i < length bs. q \<noteq> fpos ip c (off + of_nat i)) \<longrightarrow> dbyte D' q = dbyte D q)"

lemma wrote_Nil [simp]: "wrote ip c off [] D D"
  by (simp add: wrote_def)

lemma wrote_patch:
  assumes "unat off mod 512 + length bs \<le> 512" "unat off + length bs \<le> 2 ^ 32" "length (D (unat (fblock ip c off))) = 512"
  shows "wrote ip c off bs D (D(unat (fblock ip c off) :=
    take (unat off mod 512) (D (unat (fblock ip c off))) @ bs @ drop (unat off mod 512 + length bs) (D (unat (fblock ip c off)))))"
proof -
  let ?k = "unat (fblock ip c off)" and ?o = "unat off mod 512"
  let ?d = "take ?o (D ?k) @ bs @ drop (?o + length bs) (D ?k)"
  have pos: "fpos ip c (off + of_nat i) = (?k, ?o + i)" if "i < length bs" for i
    using that assms(1,2) by (intro fpos_block) auto
  have "dbyte (D(?k := ?d)) (?k, ?o + i) = bs ! i" if "i < length bs" for i
    using that assms by (simp add: dbyte_def nth_append)
  moreover have "?d ! j = D ?k ! j" if "j < 512" "\<forall>i < length bs. (?k, j) \<noteq> (?k, ?o + i)" for j
  proof -
    have "j < ?o \<or> ?o + length bs \<le> j"
    proof (rule ccontr)
      assume "\<not> (j < ?o \<or> ?o + length bs \<le> j)"
      then have "j - ?o < length bs" "j = ?o + (j - ?o)" by auto
      with that(2) show False by auto
    qed
    then show ?thesis using assms that(1) by (auto simp: nth_append)
  qed
  ultimately show ?thesis unfolding wrote_def using pos by (auto simp: dbyte_def)
qed

lemma wrote_append:
  assumes "wrote ip c off xs D D1" "wrote ip c (off + of_nat (length xs)) ys D1 D2" "unat off + length (xs @ ys) \<le> 2 ^ 32"
  shows "wrote ip c off (xs @ ys) D D2"
proof -
  have o: "off + of_nat (length xs) + of_nat i = off + of_nat (length xs + i)" for i by (simp add: add.assoc)
  have ne: "fpos ip c (off + of_nat i) \<noteq> fpos ip c (off + of_nat (length xs + j))" if "i < length xs" "j < length ys" for i j
  proof
    assume "fpos ip c (off + of_nat i) = fpos ip c (off + of_nat (length xs + j))"
    then have "off + of_nat i = off + of_nat (length xs + j)" by (rule fpos_inj)
    then have "unat (off + of_nat i) = unat (off + of_nat (length xs + j))" by (simp only:)
    then have "unat off + i = unat off + (length xs + j)"
      by (subst (asm) unat_off, use that assms(3) in simp, subst (asm) unat_off) (use that assms(3) in simp_all)
    then show False using that by simp
  qed
  have w2: "dbyte D2 q = dbyte D1 q" if "snd q < 512" "\<forall>i < length ys. q \<noteq> fpos ip c (off + of_nat (length xs) + of_nat i)" for q
    using assms(2) that unfolding wrote_def by blast
  have "dbyte D2 (fpos ip c (off + of_nat i)) = (xs @ ys) ! i" if i: "i < length (xs @ ys)" for i
  proof (cases "i < length xs")
    case True
    have "snd (fpos ip c (off + of_nat i)) < 512" by (simp add: fpos_def)
    then have "dbyte D2 (fpos ip c (off + of_nat i)) = dbyte D1 (fpos ip c (off + of_nat i))"
      by (rule w2) (use ne [OF True] in \<open>auto simp only: o\<close>)
    then show ?thesis using assms(1) True by (simp add: wrote_def nth_append)
  next
    case False
    then obtain j where j: "i = length xs + j" using le_Suc_ex not_less by blast
    then have "dbyte D2 (fpos ip c (off + of_nat (length xs) + of_nat j)) = ys ! j" using assms(2) i by (simp add: wrote_def)
    then show ?thesis using j by (simp add: o nth_append)
  qed
  moreover have "dbyte D2 q = dbyte D q" if "snd q < 512" "\<forall>i < length (xs @ ys). q \<noteq> fpos ip c (off + of_nat i)" for q
  proof -
    have "\<forall>i < length xs. q \<noteq> fpos ip c (off + of_nat i)" using that(2) by simp
    then have "dbyte D1 q = dbyte D q" using assms(1) that(1) unfolding wrote_def by blast
    moreover have "\<forall>i < length ys. q \<noteq> fpos ip c (off + of_nat (length xs) + of_nat i)"
      unfolding o
    proof (intro allI impI)
      fix i assume "i < length ys"
      then have "length xs + i < length (xs @ ys)" by simp
      then show "q \<noteq> fpos ip c (off + of_nat (length xs + i))" using that(2) by blast
    qed
    ultimately show ?thesis using w2 [OF that(1)] by simp
  qed
  ultimately show ?thesis unfolding wrote_def by blast
qed

text \<open>\<open>writei_loop\<close> stops after a prefix when it has to wait for a buffer.\<close>

definition write_waits :: "inode \<Rightarrow> u32 \<Rightarrow> u8 list \<Rightarrow> 'a fs_state_scheme \<Rightarrow> 'a fs_state_scheme \<Rightarrow> bool" where
  "write_waits ip off bs s t \<longleftrightarrow> bcache_ok t \<and> held t = {LPtable} \<and>
     (\<exists>m \<le> length bs. wrote ip (mycid s) off (take m bs) (disk s) (disk t))"

definition write_post :: "inode \<Rightarrow> u32 \<Rightarrow> u8 list \<Rightarrow> 'a fs_state_scheme \<Rightarrow> 'a fs_state_scheme \<Rightarrow> bool" where
  "write_post ip off bs s s' \<longleftrightarrow> fs_step s s' \<and> wrote ip (mycid s) off bs (disk s) (disk s')"

lemma write_post_cons:
  fixes s :: "'a fs_state_scheme"
  assumes s1: "write_post ip off xs s s1" and ov: "unat off + length (xs @ ys) \<le> 2 ^ 32"
  shows "write_post ip (off + of_nat (length xs)) ys s1 s' \<Longrightarrow> write_post ip off (xs @ ys) s s'"
    "write_waits ip (off + of_nat (length xs)) ys s1 t \<Longrightarrow> write_waits ip off (xs @ ys) s t"
proof -
  have c: "mycid s1 = mycid s" using s1 bkeep_fields(1) [of s s1] by (simp add: write_post_def fs_step_def)
  show "write_post ip off (xs @ ys) s s'" if "write_post ip (off + of_nat (length xs)) ys s1 s'"
    using s1 that ov by (auto simp: write_post_def c intro: fs_step_trans wrote_append)
  show "write_waits ip off (xs @ ys) s t" if w: "write_waits ip (off + of_nat (length xs)) ys s1 t"
  proof -
    obtain m where m: "m \<le> length ys" "wrote ip (mycid s) (off + of_nat (length xs)) (take m ys) (disk s1) (disk t)"
      using w by (auto simp: write_waits_def c)
    have "wrote ip (mycid s) off (xs @ take m ys) (disk s) (disk t)"
      by (rule wrote_append [OF _ m(2)]) (use s1 ov m(1) in \<open>auto simp: write_post_def\<close>)
    then have "wrote ip (mycid s) off (take (length xs + m) (xs @ ys)) (disk s) (disk t)" by simp
    moreover have "length xs + m \<le> length (xs @ ys)" using m(1) by simp
    ultimately show ?thesis using w unfolding write_waits_def by blast
  qed
qed

text \<open>One block.\<close>

lemma writei_round:
  fixes s :: "'a fs_state_scheme"
  assumes ok: "fs_ok s" and bno: "unat (fblock ip (mycid s) off) < disksize s"
    and len: "unat off mod 512 + length xs \<le> 512" "unat off + length xs \<le> 2 ^ 32"
  shows "wpt (\<lambda>(b, s1). pmem s1 = pmem s \<and> cr3 s1 = cr3 s \<and>
      wpt (\<lambda>s2. wpt (\<lambda>s3. write_post ip off xs s s3) (\<lambda>_. False) (brelse b s2)) (\<lambda>_. False)
        (bwrite b (bupd b (\<lambda>x. x\<lparr>bdata := take (unat off mod 512) (bdata x) @ xs @ drop (unat off mod 512 + length xs) (bdata x)\<rparr>) s1)))
    (waits s) (bread 1 (fblock ip (mycid s) off) s)"
proof (rule wpt_post [OF bread_block [OF ok bno]], clarify, intro conjI)
  let ?n = "fblock ip (mycid s) off" and ?o = "unat off mod 512"
  fix b s1 assume h: "block_held ?n s b s1" "bdata (bufs s1 ! b) = disk s (unat ?n)" "disk s1 = disk s" "bkeep s s1"
  show "pmem s1 = pmem s" "cr3 s1 = cr3 s" using h(4) by (simp_all add: bkeep_def)
  let ?d = "take ?o (disk s (unat ?n)) @ xs @ drop (?o + length xs) (disk s (unat ?n))"
  have blk: "length (disk s (unat ?n)) = 512" using ok bno by (simp add: fs_ok_def)
  then have d: "length ?d = 512" using len by simp
  have upd: "bupd b (\<lambda>x. x\<lparr>bdata := take ?o (bdata x) @ xs @ drop (?o + length xs) (bdata x)\<rparr>) s1 = bupd b (\<lambda>x. x\<lparr>bdata := ?d\<rparr>) s1"
    using h(2) by (simp add: bupd_def)
  have all: "\<forall>k < disksize s1. length (disk s1 k) = 512" using h ok by (simp add: fs_ok_def block_held_def)
  show "wpt (\<lambda>s2. wpt (\<lambda>s3. write_post ip off xs s s3) (\<lambda>_. False) (brelse b s2)) (\<lambda>_. False)
        (bwrite b (bupd b (\<lambda>x. x\<lparr>bdata := take ?o (bdata x) @ xs @ drop (?o + length xs) (bdata x)\<rparr>) s1))"
    unfolding upd
  proof (rule wpt_post [OF bwrite_block [OF h(1) d bno ok all]])
    fix u assume u: "block_held ?n s b u \<and> bdata (bufs u ! b) = ?d \<and> disk u = (disk s1)(unat ?n := ?d) \<and> bkeep s1 u \<and>
      (\<forall>k < disksize u. length (disk u k) = BSIZE)"
    have "wpt (\<lambda>s'. fs_step u s' \<and> disk s' = disk u) (\<lambda>_. False) (brelse b u)"
      by (rule brelse_block [of ?n s]) (use u ok in auto)
    then show "wpt (\<lambda>s3. write_post ip off xs s s3) (\<lambda>_. False) (brelse b u)"
    proof (rule wpt_post)
      fix s3 assume s3: "fs_step u s3 \<and> disk s3 = disk u"
      have "bkeep s u" using h(4) u by (blast intro: bkeep_trans)
      then have "fs_step s s3" using s3 u by (auto simp: fs_step_def block_held_def intro: bkeep_trans)
      moreover have "disk s3 = (disk s)(unat ?n := ?d)" using s3 u h(3) by simp
      ultimately show "write_post ip off xs s s3"
        using wrote_patch [OF len, of "disk s" ip "mycid s"] blk by (simp add: write_post_def)
    qed
  qed
qed

lemma writei_loop_total:
  fixes s :: "'a fs_state_scheme"
  assumes "fs_ok s" "in_disk ip (mycid s) off left s" "supplies src bs s" "wr + left = length bs"
  shows "wpt (write_post ip off (drop wr bs) s) (write_waits ip off (drop wr bs) s) (writei_loop ip (mycid s) src wr off left s)"
  using assms
proof (induction left arbitrary: wr off s rule: less_induct)
  case (less left)
  show ?case
  proof (cases "left = 0")
    case True
    then show ?thesis using less.prems(1,4) by (simp add: writei_loop.simps write_post_def fs_step_def)
  next
    case False
    let ?c = "mycid s" and ?o = "unat off mod 512"
    define m where m_def: "m = (if left < 512 - ?o then left else 512 - ?o)"
    define xs ys where xs_def: "xs = take m (drop wr bs)" and ys_def: "ys = drop (wr + m) bs"
    have bno: "unat (fblock ip ?c off) < disksize s" and ov: "unat off + left \<le> 2 ^ 32"
      using less.prems(2) False by (auto simp: in_disk_def dest!: spec [of _ 0])
    have m: "0 < m" "m \<le> left" "?o + m \<le> 512" using False by (auto simp: m_def)
    have xy: "drop wr bs = xs @ ys" "length xs = m" using m less.prems(4) unfolding xs_def ys_def by (simp_all add: add.commute [of wr] flip: drop_drop)
    have ov': "unat off + length (xs @ ys) \<le> 2 ^ 32" using ov less.prems(4) unfolding xy(1) [symmetric] by simp
    have rest: "wpt (write_post ip off (drop wr bs) s) (write_waits ip off (drop wr bs) s)
        (writei_loop ip ?c src (wr + m) (off + of_nat m) (left - m) s3)" if s3: "write_post ip off xs s s3" for s3
    proof -
      have k: "bkeep s s3" "fs_ok s3" "disksize s3 = disksize s" using s3 by (simp_all add: write_post_def fs_step_def)
      note f = bkeep_fields(1-3) [OF k(1)]
      have "in_disk ip (mycid s3) (off + of_nat m) (left - m) s3"
      proof (cases "m = left")
        case True
        then show ?thesis using unat_lt32 [of "off + of_nat left"] by (simp add: in_disk_def)
      next
        case False
        then show ?thesis using in_disk_drop [OF less.prems(2), of m s3] m f k by simp
      qed
      moreover have "supplies src bs s3" using less.prems(3) f by (auto simp: supplies_def split: source.splits intro: uload_cong)
      ultimately have "wpt (write_post ip (off + of_nat m) ys s3) (write_waits ip (off + of_nat m) ys s3)
          (writei_loop ip (mycid s3) src (wr + m) (off + of_nat m) (left - m) s3)"
        unfolding ys_def using m k(2) less.prems(4) by (intro less.IH) simp_all
      then show ?thesis
        unfolding f(1) xy(1) using write_post_cons [OF s3 ov', unfolded xy(2)] by (rule wpt_mono)
    qed
    have sup: "get src wr m s1 = Inr xs" if "pmem s1 = pmem s" "cr3 s1 = cr3 s" for s1 :: "'a fs_state_scheme"
      using get_supplies [OF less.prems(3) _ that] m(2) less.prems(4) by (simp add: xs_def)
    have "unat off mod 512 + length xs \<le> 512" "unat off + length xs \<le> 2 ^ 32" using m ov unfolding xy(2) by linarith+
    note round = writei_round [OF less.prems(1) bno this, unfolded xy(2)]
    have "wpt (\<lambda>(b, s1). wpt (\<lambda>s2. wpt (\<lambda>s3. wpt (write_post ip off (drop wr bs) s) (write_waits ip off (drop wr bs) s)
          (writei_loop ip ?c src (wr + m) (off + of_nat m) (left - m) s3)) (write_waits ip off (drop wr bs) s) (brelse b s2))
        (write_waits ip off (drop wr bs) s)
        (bindr (get src wr m s1) (\<lambda>xs. bwrite b (bupd b (\<lambda>x. x\<lparr>bdata := take ?o (bdata x) @ xs @ drop (?o + m) (bdata x)\<rparr>) s1))))
      (write_waits ip off (drop wr bs) s) (bread 1 (fblock ip ?c off) s)"
    proof (rule wpt_mono [OF round], clarify)
      fix b s1
      assume k: "pmem s1 = pmem s" "cr3 s1 = cr3 s" and
        w: "wpt (\<lambda>s2. wpt (\<lambda>s3. write_post ip off xs s s3) (\<lambda>_. False) (brelse b s2)) (\<lambda>_. False)
          (bwrite b (bupd b (\<lambda>x. x\<lparr>bdata := take ?o (bdata x) @ xs @ drop (?o + m) (bdata x)\<rparr>) s1))"
      have "wpt (\<lambda>s3. wpt (write_post ip off (drop wr bs) s) (write_waits ip off (drop wr bs) s)
          (writei_loop ip ?c src (wr + m) (off + of_nat m) (left - m) s3)) (write_waits ip off (drop wr bs) s) (brelse b s2)"
        if "wpt (\<lambda>s3. write_post ip off xs s s3) (\<lambda>_. False) (brelse b s2)" for s2
        using that by (rule wpt_mono) (use rest in blast)+
      then show "wpt (\<lambda>s2. wpt (\<lambda>s3. wpt (write_post ip off (drop wr bs) s) (write_waits ip off (drop wr bs) s)
          (writei_loop ip ?c src (wr + m) (off + of_nat m) (left - m) s3)) (write_waits ip off (drop wr bs) s) (brelse b s2))
        (write_waits ip off (drop wr bs) s)
        (bindr (get src wr m s1) (\<lambda>xs. bwrite b (bupd b (\<lambda>x. x\<lparr>bdata := take ?o (bdata x) @ xs @ drop (?o + m) (bdata x)\<rparr>) s1)))"
        unfolding sup [OF k] bindr_simps by (intro wpt_mono [OF w]) blast+
    next
      show "write_waits ip off (drop wr bs) s t" if "waits s t" for t
        using that wrote_Nil [of ip ?c off "disk s"] unfolding waits_def write_waits_def by (metis le0 take0)
    qed
    then show ?thesis
      by (subst writei_loop.simps)
        (simp only: False bindr_simps wpt_bindr Let_def case_prod_unfold if_False m_def [symmetric])
  qed
qed

section \<open>Whole writes\<close>

lemma iupd_simps [simp]:
  "fs_ok (iupd p f s) = fs_ok s" "disk (iupd p f s) = disk s" "disksize (iupd p f s) = disksize s" "mycid (iupd p f s) = mycid s"
  "pmem (iupd p f s) = pmem s" "cr3 (iupd p f s) = cr3 s" "cur (iupd p f s) = cur s"
  by (simp_all add: iupd_def fs_ok_def bcache_ok_def ring_def nxt_def prv_def running_def refcnts_def mycid_def split: iref.split)

definition valid_ref :: "iref \<Rightarrow> 'a fs_state_scheme \<Rightarrow> bool" where
  "valid_ref p s \<longleftrightarrow> (case p of ICache k \<Rightarrow> k < length (icache s) | IFile \<Rightarrow> True)"

lemma inode_at_iupd: "valid_ref p s \<Longrightarrow> inode_at q (iupd p f s) = (if q = p then f (inode_at p s) else inode_at q s)"
  by (auto simp: inode_at_def iupd_def valid_ref_def nth_list_update_if split: iref.split)

lemma bkeep_iupd:
  fixes s t :: "'a fs_state_scheme"
  assumes "bkeep s t"
  shows "bkeep (iupd p f s) (iupd p f t)"
  using assms by (cases p; cases s; cases t; simp add: bkeep_def iupd_def)

text \<open>A write that does not make the file longer.\<close>

lemma writei_same:
  fixes s :: "'a fs_state_scheme"
  assumes "fs_ok s" "ip = inode_at p s" "i_type ip \<noteq> T_DEV" "in_disk ip (mycid s) off (unat n) s" "supplies src bs s"
    "length bs = unat n" "off + n \<le> i_size ip"
  shows "wpt (\<lambda>(r, s'). r = sint n \<and> write_post ip off bs s s') (write_waits ip off bs s) (writei_at (Suc k) junk p src off n s)"
proof -
  obtain me where me: "cur s = Some me" using assms(1) by (auto simp: fs_ok_def running_def)
  have cid: "word_of_int (cid (pget me s)) = mycid s" using mycid_eq [OF _ me] assms(1) by (simp add: fs_ok_def)
  have "wpt (write_post ip off bs s) (write_waits ip off bs s) (writei_loop ip (mycid s) src 0 off (unat n) s)"
    using writei_loop_total [OF assms(1,4,5), of 0] assms(6) by simp
  then have "wpt (\<lambda>s1. wpt (\<lambda>(r, s'). r = sint n \<and> write_post ip off bs s s') (write_waits ip off bs s)
      (if off + n > i_size (inode_at p s1) then x s1 else Inr (sint n, s1))) (write_waits ip off bs s)
      (writei_loop ip (mycid s) src 0 off (unat n) s)" for x
  proof (rule wpt_post)
    fix s1 assume w: "write_post ip off bs s s1"
    then have "inode_at p s1 = ip" using assms(2) bkeep_fields(5) [of s s1] by (simp add: write_post_def fs_step_def)
    then show "wpt (\<lambda>(r, s'). r = sint n \<and> write_post ip off bs s s') (write_waits ip off bs s)
      (if off + n > i_size (inode_at p s1) then x s1 else Inr (sint n, s1))"
      using assms(7) w by (simp add: leD)
  qed
  then show ?thesis
    using me assms(2,3) by (simp add: Let_def myproc_def wpt_bindr cid)
qed

text \<open>A write that makes the file longer.\<close>

lemma length_enc_dinode: "50 \<le> length junk \<Longrightarrow> length (enc_dinode junk ip) = 64"
  by (simp add: enc_dinode_def)

lemma writei_grow:
  fixes s :: "'a fs_state_scheme"
  assumes "fs_ok s" "ip = inode_at p s" "i_type ip \<noteq> T_DEV" "in_disk ip (mycid s) off (unat n) s" "supplies src bs s"
    "length bs = unat n" "i_size ip < off + n" "valid_ref p s" "p \<noteq> IFile" "i_inum ip \<noteq> 0" "50 \<le> length junk"
    and ino: "i_type (inodefile s) \<noteq> T_DEV" "in_disk (inodefile s) (mycid s) (INODEOFF (i_inum ip)) 64 s"
      "INODEOFF (i_inum ip) + 64 \<le> i_size (inodefile s)"
  defines "ip' \<equiv> ip\<lparr>i_size := off + n\<rparr>"
  shows "wpt (\<lambda>(r, s'). r = sint n \<and> (\<exists>D. wrote ip (mycid s) off bs (disk s) D \<and>
        wrote (inodefile s) (mycid s) (INODEOFF (i_inum ip)) (enc_dinode junk ip') D (disk s')) \<and>
      inode_at p s' = ip' \<and> fs_step (iupd p (\<lambda>i. i\<lparr>i_size := off + n\<rparr>) s) s')
    (\<lambda>t. bcache_ok t \<and> held t = {LPtable}) (writei_at (Suc (Suc k)) junk p src off n s)"
proof -
  let ?f = "\<lambda>i :: inode. i\<lparr>i_size := off + n\<rparr>" and ?Q = "\<lambda>t. bcache_ok t \<and> held t = {LPtable}"
  let ?P = "\<lambda>(r, s'). r = sint n \<and> (\<exists>D. wrote ip (mycid s) off bs (disk s) D \<and>
        wrote (inodefile s) (mycid s) (INODEOFF (i_inum ip)) (enc_dinode junk ip') D (disk s')) \<and>
      inode_at p s' = ip' \<and> fs_step (iupd p ?f s) s'"
  obtain me where me: "cur s = Some me" using assms(1) by (auto simp: fs_ok_def running_def)
  have cid: "word_of_int (cid (pget me s)) = mycid s" using mycid_eq [OF _ me] assms(1) by (simp add: fs_ok_def)
  have upd: "wpt ?P ?Q (bindr (writei_at (Suc k) junk IFile (Bytes (enc_dinode junk ip')) (INODEOFF (i_inum ip)) 64 (iupd p ?f s1))
      (\<lambda>(r, s). Inr (sint n, s)))" and at: "inode_at p s1 = ip" "inode_at p (iupd p ?f s1) = ip'"
    if w: "write_post ip off bs s s1" for s1
  proof -
    have k: "bkeep s s1" "fs_ok s1" "disksize s1 = disksize s" using w by (simp_all add: write_post_def fs_step_def)
    note f = bkeep_fields [OF k(1)]
    have v: "valid_ref p s1" using assms(8) f(9) by (simp add: valid_ref_def split: iref.splits)
    show a: "inode_at p s1 = ip" using f(5) assms(2) by simp
    show a': "inode_at p (iupd p ?f s1) = ip'" using inode_at_iupd [OF v] a by (simp add: ip'_def)
    have "inode_at IFile (iupd p ?f s1) = inodefile s" using inode_at_iupd [OF v, of IFile] assms(9) f(10) by (simp add: inode_at_def)
    then have "wpt (\<lambda>(r, s'). r = sint (64 :: u32) \<and> write_post (inodefile s) (INODEOFF (i_inum ip)) (enc_dinode junk ip') (iupd p ?f s1) s')
        (write_waits (inodefile s) (INODEOFF (i_inum ip)) (enc_dinode junk ip') (iupd p ?f s1))
        (writei_at (Suc k) junk IFile (Bytes (enc_dinode junk ip')) (INODEOFF (i_inum ip)) 64 (iupd p ?f s1))"
      using ino k f(1) length_enc_dinode [OF assms(11), of ip']
      by (intro writei_same) (simp_all add: in_disk_def supplies_def)
    then show "wpt ?P ?Q (bindr (writei_at (Suc k) junk IFile (Bytes (enc_dinode junk ip')) (INODEOFF (i_inum ip)) 64 (iupd p ?f s1))
      (\<lambda>(r, s). Inr (sint n, s)))"
      unfolding wpt_bindr
    proof (rule wpt_mono, clarify)
      fix s' assume w': "write_post (inodefile s) (INODEOFF (i_inum ip)) (enc_dinode junk ip') (iupd p ?f s1) s'"
      have st: "fs_step (iupd p ?f s) s'"
        using w' k bkeep_iupd [OF k(1), of p ?f] by (auto simp: write_post_def fs_step_def intro: bkeep_trans)
      have "inode_at p s' = ip'" using w' a' bkeep_fields(5) [of "iupd p ?f s1" s' p] by (simp add: write_post_def fs_step_def)
      moreover have "wrote (inodefile s) (mycid s) (INODEOFF (i_inum ip)) (enc_dinode junk ip') (disk s1) (disk s')"
        using w' f(1) by (simp add: write_post_def)
      moreover have "wrote ip (mycid s) off bs (disk s) (disk s1)" using w by (simp add: write_post_def)
      ultimately show "wpt ?P ?Q (Inr (sint n, s'))" using st by auto
    qed (simp add: write_waits_def)
  qed
  have "wpt (write_post ip off bs s) (write_waits ip off bs s) (writei_loop ip (mycid s) src 0 off (unat n) s)"
    using writei_loop_total [OF assms(1,4,5), of 0] assms(6) by simp
  then have "wpt (\<lambda>s1. wpt ?P ?Q (bindr (writei_at (Suc k) junk IFile (Bytes (enc_dinode junk (inode_at p (iupd p ?f s1))))
        (INODEOFF (i_inum (inode_at p (iupd p ?f s1)))) 64 (iupd p ?f s1)) (\<lambda>(r, s). Inr (sint n, s))) \<and>
        off + n > i_size (inode_at p s1) \<and> i_inum (inode_at p (iupd p ?f s1)) \<noteq> 0) ?Q
      (writei_loop ip (mycid s) src 0 off (unat n) s)"
    by (rule wpt_mono) (use upd at assms(7,10) in \<open>auto simp: ip'_def write_waits_def\<close>)
  then have "wpt (\<lambda>s1. wpt ?P ?Q (if off + n > i_size (inode_at p s1) then
          let s = iupd p ?f s1; ip = inode_at p s in
          bindr (if i_inum ip \<noteq> 0 \<or> off \<noteq> 0 then
                   bindr (writei_at (Suc k) junk IFile (Bytes (enc_dinode junk ip)) (INODEOFF (i_inum ip)) SIZEOF_DINODE s)
                     (\<lambda>(r, s). Inr s)
                 else Inr s) (\<lambda>s. Inr (sint n, s))
        else Inr (sint n, s1))) ?Q (writei_loop ip (mycid s) src 0 off (unat n) s)"
    by (rule wpt_post) (simp add: Let_def bindr_assoc case_prod_unfold)
  then show ?thesis
    using me assms(2,3) by (simp only: writei_at.simps(2) Let_def myproc_def wpt_bindr deref_simps cid bindr_simps if_False)
qed

section \<open>What was written is read again\<close>

lemma dec_enc_dinode:
  assumes "50 \<le> length junk"
  shows "d_type (dec_dinode (enc_dinode junk ip)) = i_type ip" "d_size (dec_dinode (enc_dinode junk ip)) = i_size ip"
    "d_data (dec_dinode (enc_dinode junk ip)) = i_data ip"
proof -
  have j: "length (take 2 junk) = 2" "length (take 48 (drop 2 junk)) = 48" using assms by simp_all
  show "d_type (dec_dinode (enc_dinode junk ip)) = i_type ip" "d_size (dec_dinode (enc_dinode junk ip)) = i_size ip"
    "d_data (dec_dinode (enc_dinode junk ip)) = i_data ip"
    using j by (simp_all add: dec_dinode_def enc_dinode_def field_def)
qed

lemma wrote_file_bytes: "wrote ip c off bs D D' \<Longrightarrow> file_bytes ip c off (length bs) D' = bs"
  by (rule nth_equalityI) (auto simp: wrote_def file_bytes_def)

lemma wrote_other:
  assumes "wrote ip c off bs D D'" "\<forall>i < n. \<forall>j < length bs. fpos ip' c (o' + of_nat i) \<noteq> fpos ip c (off + of_nat j)"
  shows "file_bytes ip' c o' n D' = file_bytes ip' c o' n D"
proof (rule nth_equalityI)
  fix i assume "i < length (file_bytes ip' c o' n D')"
  then have i: "i < n" by simp
  have "snd (fpos ip' c (o' + of_nat i)) < 512" by (simp add: fpos_def)
  then have "dbyte D' (fpos ip' c (o' + of_nat i)) = dbyte D (fpos ip' c (o' + of_nat i))"
    using assms i unfolding wrote_def by blast
  then show "file_bytes ip' c o' n D' ! i = file_bytes ip' c o' n D ! i" using i by (simp add: file_bytes_def)
qed simp

lemma file_bytes_size [simp]: "file_bytes (ip\<lparr>i_size := z\<rparr>) c off n D = file_bytes ip c off n D"
  by (simp add: file_bytes_def fpos_def fblock_def)

lemma in_disk_size [simp]: "in_disk (ip\<lparr>i_size := z\<rparr>) c off n s = in_disk ip c off n s"
  by (simp add: in_disk_def fblock_def)

lemma sint_small: "unat (n :: u32) < 2 ^ 31 \<Longrightarrow> sint n = int (unat n)"
proof -
  assume a: "unat n < 2 ^ 31"
  then have "int (unat n) < 2 ^ 31" by (metis of_nat_less_iff of_nat_numeral of_nat_power)
  moreover have "signed_take_bit 31 x = x" if "0 \<le> x" "x < 2 ^ 31" for x :: int
    by (rule signed_take_bit_int_eq_self) (use that in simp_all)
  ultimately have "signed_take_bit 31 (uint n) = uint n" by (simp add: uint_nat [symmetric])
  moreover have "sint n = signed_take_bit 31 (uint n)" by (simp add: sint_uint)
  ultimately show ?thesis by (simp only: uint_nat)
qed

text \<open>Reading back from a state where the bytes of the range are \<open>bs\<close>.\<close>

lemma read_back:
  fixes s :: "'a fs_state_scheme"
  assumes "fs_ok s" "i_type (inode_at p s) \<noteq> T_DEV" "i_dev (inode_at p s) = 1" "off + n \<le> i_size (inode_at p s)"
    "unat off + unat n < 2 ^ 31" "in_disk (inode_at p s) (mycid s) off (unat n) s"
    "file_bytes (inode_at p s) (mycid s) off (unat n) (disk s) = bs"
  shows "wpm (\<lambda>((r, bs'), s'). r = int (unat n) \<and> bs' = bs \<and> stored dst 0 bs s s') (waits s) (readi p dst off n s)"
proof -
  have sum: "unat (off + n) = unat off + unat n" using assms(5) by (simp add: unat_word_ariths)
  then have le: "off \<le> off + n" "off \<le> i_size (inode_at p s)" using assms(4) by (simp_all add: word_le_nat_alt)
  have av: "avail_bytes (i_size (inode_at p s)) off n = n" using assms(4) by (simp add: avail_bytes_def leD)
  have "unat n < 2 ^ 31" using assms(5) by simp
  then have "sint n = int (unat n)" by (rule sint_small)
  then show ?thesis
    using readi_total [OF assms(1) refl assms(2,3) le(2,1), of dst] assms(6,7) unfolding av by (auto elim!: wpm_post)
qed

text \<open>
  C4. Files keep what is written to them. A write of \<open>n\<close> bytes at \<open>off\<close> to a cached inode returns \<open>n\<close>
  (or sleeps while another process has one of the blocks), and then:
  a read of the same range returns the bytes written, to whatever destination;
  the size of the file is the larger of the old size and the end of the range;
  when the file grew, its entry in the inode file has the new size and the old type and extent;
  and no other byte of the disk changed.
\<close>

theorem writei_readi:
  fixes s :: "'a fs_state_scheme"
  assumes "fs_ok s" "k < length (icache s)" "ip = icache s ! k" "i_type ip \<noteq> T_DEV" "i_dev ip = 1" "i_inum ip \<noteq> 0"
    and "supplies src bs s" "length bs = unat n" "unat off + unat n < 2 ^ 31" "50 \<le> length junk"
    and "in_disk ip (mycid s) off (unat n) s" "in_disk (inodefile s) (mycid s) (INODEOFF (i_inum ip)) 64 s"
    and "i_type (inodefile s) \<noteq> T_DEV" "INODEOFF (i_inum ip) + 64 \<le> i_size (inodefile s)"
    and "\<forall>i < unat n. \<forall>j < 64. fpos ip (mycid s) (off + of_nat i) \<noteq> fpos (inodefile s) (mycid s) (INODEOFF (i_inum ip) + of_nat j)"
  shows "wpt (\<lambda>(r, s'). r = int (unat n) \<and> fs_ok s' \<and> mycid s' = mycid s \<and>
      icache s' ! k = ip\<lparr>i_size := max (i_size ip) (off + n)\<rparr> \<and>
      wpm (\<lambda>((r', bs'), s''). r' = r \<and> bs' = bs \<and> stored dst 0 bs s' s'') (waits s') (readi (ICache k) dst off n s') \<and>
      (i_size ip < off + n \<longrightarrow>
        (let di = dec_dinode (file_bytes (inodefile s) (mycid s) (INODEOFF (i_inum ip)) 64 (disk s')) in
         d_size di = off + n \<and> d_type di = i_type ip \<and> d_data di = i_data ip)) \<and>
      (\<forall>q. snd q < BSIZE \<and> (\<forall>i < unat n. q \<noteq> fpos ip (mycid s) (off + of_nat i)) \<and>
         (\<forall>j < 64. q \<noteq> fpos (inodefile s) (mycid s) (INODEOFF (i_inum ip) + of_nat j)) \<longrightarrow>
         dbyte (disk s') q = dbyte (disk s) q))
    (\<lambda>t. bcache_ok t \<and> held t = {LPtable}) (writei junk (ICache k) src off n s)"
proof (cases "i_size ip < off + n")
  case True
  let ?c = "mycid s" and ?o = "INODEOFF (i_inum ip)" and ?ip = "ip\<lparr>i_size := off + n\<rparr>"
  have at: "ip = inode_at (ICache k) s" using assms(3) by (simp add: inode_at_def)
  have v: "valid_ref (ICache k) s" and ne: "ICache k \<noteq> IFile" using assms(2) by (simp_all add: valid_ref_def)
  have n: "sint n = int (unat n)" using assms(9) by (intro sint_small) simp
  have mx: "max (i_size ip) (off + n) = off + n" using True by simp
  show ?thesis
    unfolding writei_def numeral_3_eq_3 mx
  proof (rule wpt_post [OF writei_grow [OF assms(1) at assms(4,11,7,8) True v ne assms(6,10,13,12,14)]], clarify)
    fix s' D
    assume D: "wrote ip ?c off bs (disk s) D" "wrote (inodefile s) ?c ?o (enc_dinode junk ?ip) D (disk s')"
      and s': "inode_at (ICache k) s' = ?ip" "fs_step (iupd (ICache k) (\<lambda>i. i\<lparr>i_size := off + n\<rparr>) s) s'"
    have len: "length (enc_dinode junk ?ip) = 64" by (rule length_enc_dinode [OF assms(10)])
    have k: "bkeep (iupd (ICache k) (\<lambda>i. i\<lparr>i_size := off + n\<rparr>) s) s'" "fs_ok s'" "disksize s' = disksize s"
      using s'(2) by (simp_all add: fs_step_def)
    then have c: "mycid s' = ?c" using bkeep_fields(1) [OF k(1)] by simp
    have "file_bytes ip ?c off (unat n) (disk s') = file_bytes ip ?c off (unat n) D"
      by (rule wrote_other [OF D(2)]) (use assms(15) in \<open>simp add: len\<close>)
    then have fb: "file_bytes ip ?c off (unat n) (disk s') = bs" using wrote_file_bytes [OF D(1)] assms(8) by simp
    have "wpm (\<lambda>((r, bs'), s''). r = int (unat n) \<and> bs' = bs \<and> stored dst 0 bs s' s'') (waits s') (readi (ICache k) dst off n s')"
      by (rule read_back) (use k c s' assms(4,5,9,11) fb in \<open>auto simp: in_disk_def fblock_def\<close>)
    moreover have "dec_dinode (file_bytes (inodefile s) ?c ?o 64 (disk s')) = dec_dinode (enc_dinode junk ?ip)"
      using wrote_file_bytes [OF D(2)] len by simp
    moreover have "dbyte (disk s') q = dbyte (disk s) q" if "snd q < 512" "\<forall>i < unat n. q \<noteq> fpos ip ?c (off + of_nat i)"
        "\<forall>j < 64. q \<noteq> fpos (inodefile s) ?c (?o + of_nat j)" for q
      using D that assms(8) len unfolding wrote_def by metis
    ultimately show "sint n = int (unat n) \<and> fs_ok s' \<and> mycid s' = ?c \<and> icache s' ! k = ?ip \<and>
      wpm (\<lambda>((r', bs'), s''). r' = sint n \<and> bs' = bs \<and> stored dst 0 bs s' s'') (waits s') (readi (ICache k) dst off n s') \<and>
      (i_size ip < off + n \<longrightarrow>
        (let di = dec_dinode (file_bytes (inodefile s) ?c ?o 64 (disk s')) in
         d_size di = off + n \<and> d_type di = i_type ip \<and> d_data di = i_data ip)) \<and>
      (\<forall>q. snd q < BSIZE \<and> (\<forall>i < unat n. q \<noteq> fpos ip ?c (off + of_nat i)) \<and>
         (\<forall>j < 64. q \<noteq> fpos (inodefile s) ?c (?o + of_nat j)) \<longrightarrow> dbyte (disk s') q = dbyte (disk s) q)"
      using n k(2) c s'(1) dec_enc_dinode [OF assms(10), of ?ip] by (simp add: inode_at_def)
  qed
next
  case False
  then have le: "off + n \<le> i_size ip" by simp
  let ?c = "mycid s"
  have at: "ip = inode_at (ICache k) s" using assms(3) by (simp add: inode_at_def)
  have n: "sint n = int (unat n)" using assms(9) by (intro sint_small) simp
  have mx: "max (i_size ip) (off + n) = i_size ip" using le by simp
  show ?thesis
    unfolding writei_def numeral_3_eq_3 mx
  proof (rule wpt_mono [OF writei_same [OF assms(1) at assms(4,11,7,8) le]], clarify)
    fix s' assume w: "write_post ip off bs s s'"
    have k: "bkeep s s'" "fs_ok s'" "disksize s' = disksize s" and D: "wrote ip ?c off bs (disk s) (disk s')"
      using w by (simp_all add: write_post_def fs_step_def)
    note f = bkeep_fields [OF k(1)]
    have s': "inode_at (ICache k) s' = ip" using f(5) at by simp
    have fb: "file_bytes ip ?c off (unat n) (disk s') = bs" using wrote_file_bytes [OF D] assms(8) by simp
    have "wpm (\<lambda>((r, bs'), s''). r = int (unat n) \<and> bs' = bs \<and> stored dst 0 bs s' s'') (waits s') (readi (ICache k) dst off n s')"
      by (rule read_back) (use k f s' assms(4,5,9,11) fb le in \<open>auto simp: in_disk_def\<close>)
    moreover have "dbyte (disk s') q = dbyte (disk s) q" if "snd q < 512" "\<forall>i < unat n. q \<noteq> fpos ip ?c (off + of_nat i)" for q
      using D that assms(8) unfolding wrote_def by metis
    ultimately show "sint n = int (unat n) \<and> fs_ok s' \<and> mycid s' = ?c \<and> icache s' ! k = ip\<lparr>i_size := i_size ip\<rparr> \<and>
      wpm (\<lambda>((r', bs'), s''). r' = sint n \<and> bs' = bs \<and> stored dst 0 bs s' s'') (waits s') (readi (ICache k) dst off n s') \<and>
      (i_size ip < off + n \<longrightarrow>
        (let di = dec_dinode (file_bytes (inodefile s) ?c (INODEOFF (i_inum ip)) 64 (disk s')) in
         d_size di = off + n \<and> d_type di = i_type ip \<and> d_data di = i_data ip)) \<and>
      (\<forall>q. snd q < BSIZE \<and> (\<forall>i < unat n. q \<noteq> fpos ip ?c (off + of_nat i)) \<and>
         (\<forall>j < 64. q \<noteq> fpos (inodefile s) ?c (INODEOFF (i_inum ip) + of_nat j)) \<longrightarrow> dbyte (disk s') q = dbyte (disk s) q)"
      using n k(2) f(1) s' False by (simp add: inode_at_def)
  qed (simp add: write_waits_def)
qed

text \<open>The blocks of a file follow each other.\<close>

lemma unat_fblock:
  assumes "unat (startblkno (i_data ip)) + unat ((c + 1) * 1000) + unat off div 512 < 2 ^ 32"
  shows "unat (fblock ip c off) = unat (startblkno (i_data ip)) + unat ((c + 1) * 1000) + unat off div 512"
proof -
  have "unat (startblkno (i_data ip) + (c + 1) * 1000) = unat (startblkno (i_data ip)) + unat ((c + 1) * 1000)"
    using assms by (subst unat_add_lem [THEN iffD1]) simp_all
  then show ?thesis
    unfolding fblock_def using assms by (subst unat_add_lem [THEN iffD1]) (simp_all add: unat_div512)
qed

lemma in_diskI:
  assumes "unat (startblkno (i_data ip)) + unat ((c + 1) * 1000) + (unat off + n) div 512 < disksize s"
    and "disksize s \<le> 2 ^ 32" "unat off + n \<le> 2 ^ 32"
  shows "in_disk ip c off n s"
proof -
  have "unat (fblock ip c (off + of_nat i)) < disksize s" if "i < n" for i
  proof -
    have o: "unat (off + of_nat i) = unat off + i" using that assms(3) by (intro unat_off) simp
    have "(unat off + i) div 512 \<le> (unat off + n) div 512" using that by (intro div_le_mono) simp
    then have b: "unat (startblkno (i_data ip)) + unat ((c + 1) * 1000) + unat (off + of_nat i) div 512 < disksize s"
      using assms(1) unfolding o by linarith
    with assms(2) show ?thesis by (subst unat_fblock) linarith+
  qed
  then show ?thesis using assms(3) by (simp add: in_disk_def)
qed

definition fs_boot :: fs_state where
  "fs_boot = bio_state.extend (bio_boot\<lparr>disksize := 3000\<rparr>)
     \<lparr>inbuf = replicate 128 0, in_r = 0, in_w = 0, in_e = 0, devsw = replicate 10 \<lparr>dv_read = None, dv_write = None\<rparr>,
     sb = \<lparr>sb_size = 3000, sb_nblocks = 900, cids = [], udiskstart = 1000, bmapstart = 2, inodestart = 2, freeblock = 40\<rparr>,
     icache = [\<lparr>i_dev = 1, i_inum = 2, i_ref = 1, i_type = 2, i_devid = 0, i_size = 100,
       i_data = \<lparr>startblkno = 10, nblocks = 20\<rparr>\<rparr>],
     inodefile = \<lparr>i_dev = 1, i_inum = 0, i_ref = 0, i_type = 2, i_devid = 0, i_size = 640,
       i_data = \<lparr>startblkno = 2, nblocks = 2\<rparr>\<rparr>\<rparr>"

lemma bio_boot_fields:
  "refcnt (bufs bio_boot ! 0) = 0" "disk bio_boot = (\<lambda>n. replicate 512 (of_nat n))" "cur bio_boot = Some 0"
  "ptable bio_boot = [boot_proc\<lparr>pstate := RUNNING, pid := 1\<rparr>, boot_proc]" "length (bufs bio_boot) = 31"
  using linked_binit [of "sl_state.extend sl_boot \<lparr>bufs = replicate 31 \<lparr>bflags = 0, bdev = 0, blockno = 0, refcnt = 0,
     bprev = 0, bnext = 0, qnext = None, bdata = replicate 512 0\<rparr>, num_disk_reads = 0, crashn_enable = 0, crashn = 0,
     disk = (\<lambda>n. replicate 512 (of_nat n)), disksize = 100\<rparr>", folded bio_boot_def]
  by (simp_all add: linked_def sl_state.defs)

lemma fs_boot_ok: "fs_ok fs_boot" "mycid fs_boot = 0" "disksize fs_boot = 3000"
proof -
  have b: "bcache_ok bio_boot" "running bio_boot" "crashn_enable bio_boot = 0" by (rule bio_boot_ok)+
  have f: "bufs fs_boot = bufs bio_boot" "slocks fs_boot = slocks bio_boot" "disk fs_boot = disk bio_boot" "disksize fs_boot = 3000"
      "held fs_boot = held bio_boot" "cur fs_boot = cur bio_boot" "ptable fs_boot = ptable bio_boot" "crashn_enable fs_boot = crashn_enable bio_boot"
    by (simp_all add: fs_boot_def bio_state.defs)
  have "bcache_ok fs_boot" using b(1) by (simp add: bcache_ok_def ring_def nxt_def prv_def f)
  moreover have "running fs_boot" using b(2) by (simp add: running_def f)
  moreover have "0 \<in> set (take NBUF (refcnts fs_boot))"
    unfolding in_set_conv_nth by (rule exI [of _ 0]) (simp add: refcnts_def f bio_boot_fields)
  ultimately show "fs_ok fs_boot" using b(3) by (simp add: fs_ok_def f bio_boot_fields(2))
  show "mycid fs_boot = 0" "disksize fs_boot = 3000" by (simp_all add: mycid_def f bio_boot_fields boot_proc_def)
qed

theorem writei_readi_witness:
  "wpt (\<lambda>(r, s'). r = 4 \<and> i_size (icache s' ! 0) = 514 \<and>
      wpm (\<lambda>((r', bs'), s''). r' = 4 \<and> bs' = [1, 2, 3, 4]) (waits s') (readi (ICache 0) Struct 510 4 s'))
    (\<lambda>t. bcache_ok t \<and> held t = {LPtable}) (writei (replicate 50 0) (ICache 0) (Bytes [1, 2, 3, 4]) 510 4 fs_boot)"
proof -
  let ?ip = "\<lparr>i_dev = 1, i_inum = 2, i_ref = 1, i_type = 2, i_devid = 0, i_size = 100,
       i_data = \<lparr>startblkno = 10, nblocks = 20\<rparr>\<rparr> :: inode"
  have f: "icache fs_boot = [?ip]" "i_type (inodefile fs_boot) = 2" "i_size (inodefile fs_boot) = 640"
      "startblkno (i_data (inodefile fs_boot)) = 2"
    by (simp_all add: fs_boot_def bio_state.defs)
  have d: "in_disk ?ip (mycid fs_boot) 510 (unat (4 :: u32)) fs_boot" "in_disk (inodefile fs_boot) (mycid fs_boot) (INODEOFF (i_inum ?ip)) 64 fs_boot"
    unfolding fs_boot_ok(2) by (rule in_diskI; simp add: f fs_boot_ok INODEOFF_def)+
  have "fpos ?ip 0 (510 + of_nat i) \<noteq> fpos (inodefile fs_boot) 0 (INODEOFF 2 + of_nat j)" if "i < 4" "j < 64" for i j
  proof -
    have o: "unat (510 + of_nat i :: u32) = 510 + i" "unat (128 + of_nat j :: u32) = 128 + j"
      using unat_off [of 510 i] unat_off [of 128 j] that by simp_all
    have "unat (fblock ?ip 0 (510 + of_nat i)) = 1010 + (510 + i) div 512"
      by (subst unat_fblock) (use that o in simp_all)
    moreover have "unat (fblock (inodefile fs_boot) 0 (INODEOFF 2 + of_nat j)) = 1002"
      by (subst unat_fblock) (use that o f(4) in \<open>simp_all add: INODEOFF_def\<close>)
    ultimately show ?thesis by (simp add: fpos_def)
  qed
  then have p: "\<forall>i < unat (4 :: u32). \<forall>j < 64. fpos ?ip (mycid fs_boot) (510 + of_nat i) \<noteq>
      fpos (inodefile fs_boot) (mycid fs_boot) (INODEOFF (i_inum ?ip) + of_nat j)"
    by (simp add: fs_boot_ok(2))
  have c: "0 < length (icache fs_boot)" "?ip = icache fs_boot ! 0" "i_type ?ip \<noteq> T_DEV" "i_dev ?ip = 1" "i_inum ?ip \<noteq> 0"
      "supplies (Bytes [1, 2, 3, 4]) [1, 2, 3, 4] fs_boot" "length [1, 2, 3, 4 :: u8] = unat (4 :: u32)"
      "unat (510 :: u32) + unat (4 :: u32) < 2 ^ 31" "50 \<le> length (replicate 50 (0 :: u8))"
      "i_type (inodefile fs_boot) \<noteq> T_DEV" "INODEOFF (i_inum ?ip) + 64 \<le> i_size (inodefile fs_boot)"
    by (simp_all add: f supplies_def INODEOFF_def)
  show ?thesis
  proof (rule wpt_post [OF writei_readi [OF fs_boot_ok(1) c(1-9) d c(10,11) p, of Struct]], clarify, intro conjI)
    fix s'
    assume s': "icache s' ! 0 = ?ip\<lparr>i_size := max (i_size ?ip) (510 + 4)\<rparr>" and
      r: "wpm (\<lambda>((r', bs'), s''). r' = int (unat (4 :: u32)) \<and> bs' = [1, 2, 3, 4] \<and> stored Struct 0 [1, 2, 3, 4] s' s'') (waits s')
        (readi (ICache 0) Struct 510 4 s')"
    show "int (unat (4 :: u32)) = 4" by simp
    show "i_size (icache s' ! 0) = 514" using s' by simp
    show "wpm (\<lambda>((r', bs'), s''). r' = 4 \<and> bs' = [1, 2, 3, 4]) (waits s') (readi (ICache 0) Struct 510 4 s')"
      by (rule wpm_post [OF r]) auto
  qed
qed

end
