(* ===== verification/Fs_Path.thy ===== *)
theory Fs_Path
  imports Fs_Data
begin

text \<open>Path names: \<open>skipelem\<close> takes the elements of a path one after the other.\<close>

section \<open>The elements of a path\<close>

text \<open>The maximal runs of bytes between slashes.\<close>

function elements :: "u8 list \<Rightarrow> u8 list list" where
  "elements p =
     (let q = dropWhile (\<lambda>c. c = SLASH) p in
      if q = [] then [] else takeWhile (\<lambda>c. c \<noteq> SLASH) q # elements (dropWhile (\<lambda>c. c \<noteq> SLASH) q))"
  by pat_completeness auto

termination elements
proof (relation "measure length", simp)
  fix p q :: "u8 list" assume q: "q = dropWhile (\<lambda>c. c = SLASH) p" "q \<noteq> []"
  then have "hd q \<noteq> SLASH" using hd_dropWhile [of "\<lambda>c. c = SLASH" p] by simp
  then have "length (dropWhile (\<lambda>c. c \<noteq> SLASH) q) < length q"
    using q(2) by (cases q) (simp_all add: le_imp_less_Suc length_dropWhile_le)
  then show "(dropWhile (\<lambda>c. c \<noteq> SLASH) q, p) \<in> measure length"
    using q(1) length_dropWhile_le [of "\<lambda>c. c = SLASH" p] by simp
qed

declare elements.simps [simp del]

lemma elements_slashes: "elements (dropWhile (\<lambda>c. c = SLASH) p) = elements p"
  by (subst (1 2) elements.simps) simp

lemma skipelem_elements:
  "skipelem p = (case elements p of [] \<Rightarrow> None
     | w # ws \<Rightarrow> Some (take DIRSIZ w, dropWhile (\<lambda>c. c = SLASH) (dropWhile (\<lambda>c. c \<noteq> SLASH) (dropWhile (\<lambda>c. c = SLASH) p))))"
  by (subst elements.simps) (auto simp: skipelem_def Let_def)

end
