(* ===== verification/File.thy ===== *)
theory File
  imports Fs
begin

text \<open>
  Open files and pipes, kernel/file.c and kernel/pipe.c with inc/file.h. A file structure is an
  entry of the file table; a pipe is a page of its own, named by its address. The pipe of an
  address that holds none, because it was never allocated or has been freed, is None:
  following such a pointer is a \<open>Fault\<close>.
\<close>

section \<open>Types\<close>

datatype fdtype = FD_NONE | FD_PIPE | FD_INODE

record kfile =
  f_type :: fdtype
  f_ref :: int
  readable :: bool
  writable :: bool
  f_pipe :: u64
  f_ip :: "iref option"
  f_off :: u32

text \<open>The lock of a pipe is \<open>LPipe\<close> of its address.\<close>

record pipe =
  pi_data :: "u8 list"
  nread :: u32
  nwrite :: u32
  readopen :: bool
  writeopen :: bool

record file_state = fs_state +
  ftable :: "kfile list"
  pipes :: "u64 \<rightharpoonup> pipe"

abbreviation (input) PIPESIZE :: nat where "PIPESIZE \<equiv> 512"
abbreviation (input) NFILE :: nat where "NFILE \<equiv> 100"

definition fget :: "nat \<Rightarrow> 'a file_state_scheme \<Rightarrow> kfile" where
  "fget f s = ftable s ! f"

definition fupd :: "nat \<Rightarrow> (kfile \<Rightarrow> kfile) \<Rightarrow> 'a file_state_scheme \<Rightarrow> 'a file_state_scheme" where
  "fupd f g s = s\<lparr>ftable := (ftable s)[f := g (ftable s ! f)]\<rparr>"

definition pipe_at :: "u64 \<Rightarrow> 'a file_state_scheme \<Rightarrow> 'a file_state_scheme stop + pipe" where
  "pipe_at p s = deref ''no pipe'' (pipes s p)"

definition set_pipe :: "u64 \<Rightarrow> pipe \<Rightarrow> 'a file_state_scheme \<Rightarrow> 'a file_state_scheme" where
  "set_pipe p pp s = s\<lparr>pipes := (pipes s)(p := Some pp)\<rparr>"

section \<open>Pipes\<close>

definition pipeclose :: "u64 \<Rightarrow> bool \<Rightarrow> 'a file_state_scheme \<Rightarrow> 'a file_state_scheme stop + 'a file_state_scheme" where
  "pipeclose p w s =
     bindr (acquire (LPipe p) s) (\<lambda>s.
     bindr (pipe_at p s) (\<lambda>pp.
     bindr (if w then wakeup (ChPipeR p) (set_pipe p (pp\<lparr>writeopen := False\<rparr>) s)
            else wakeup (ChPipeW p) (set_pipe p (pp\<lparr>readopen := False\<rparr>) s)) (\<lambda>s.
     bindr (pipe_at p s) (\<lambda>pp.
     if \<not> readopen pp \<and> \<not> writeopen pp then
       bindr (release (LPipe p) s) (\<lambda>s. kfree p (s\<lparr>pipes := (pipes s)(p := None)\<rparr>))
     else release (LPipe p) s))))"

text \<open>
  \<open>pipewrite\<close> with \<open>k\<close> bytes still to write: \<open>i\<close> is \<open>n - k\<close>. A writer that finds the pipe full sleeps;
  \<open>pipewrite_resume\<close> is what it does when it is switched to again.
\<close>

fun pipewrite_loop :: "nat \<Rightarrow> u64 \<Rightarrow> u64 \<Rightarrow> int \<Rightarrow> 'a file_state_scheme \<Rightarrow>
    'a file_state_scheme stop + int \<times> 'a file_state_scheme" where
  "pipewrite_loop 0 p addr n s =
     bindr (wakeup (ChPipeR p) s) (\<lambda>s. bindr (release (LPipe p) s) (\<lambda>s. Inr (n, s)))"
| "pipewrite_loop (Suc k) p addr n s =
     bindr (pipe_at p s) (\<lambda>pp.
     if nwrite pp = nread pp + of_nat PIPESIZE then
       if \<not> readopen pp then bindr (release (LPipe p) s) (\<lambda>s. Inr (-1, s))
       else
         bindr (myproc s) (\<lambda>me.
         if killed (pget me s) \<noteq> 0 then bindr (release (LPipe p) s) (\<lambda>s. Inr (-1, s))
         else
           bindr (wakeup (ChPipeR p) s) (\<lambda>s.
           bindr (sleep (ChPipeW p) (LPipe p) s) (\<lambda>s. Inr (0, s))))
     else
       bindr (uload (addr + of_nat (nat n - Suc k)) 1 s) (\<lambda>bs.
       pipewrite_loop k p addr n
         (set_pipe p (pp\<lparr>pi_data := (pi_data pp)[ring_slot PIPESIZE (nwrite pp) := hd bs],
                        nwrite := nwrite pp + 1\<rparr>) s)))"

definition pipewrite :: "u64 \<Rightarrow> u64 \<Rightarrow> int \<Rightarrow> 'a file_state_scheme \<Rightarrow>
    'a file_state_scheme stop + int \<times> 'a file_state_scheme" where
  "pipewrite p addr n s = bindr (acquire (LPipe p) s) (pipewrite_loop (nat n) p addr n)"

definition pipewrite_resume :: "nat \<Rightarrow> u64 \<Rightarrow> u64 \<Rightarrow> int \<Rightarrow> 'a file_state_scheme \<Rightarrow>
    'a file_state_scheme stop + int \<times> 'a file_state_scheme" where
  "pipewrite_resume k p addr n s = bindr (sleep_resume (LPipe p) s) (pipewrite_loop k p addr n)"

text \<open>The copying loop of \<open>piperead\<close>; the result is the number of bytes copied.\<close>

fun piperead_copy :: "nat \<Rightarrow> nat \<Rightarrow> u64 \<Rightarrow> u64 \<Rightarrow> 'a file_state_scheme \<Rightarrow>
    'a file_state_scheme stop + nat \<times> 'a file_state_scheme" where
  "piperead_copy 0 i p addr s = Inr (i, s)"
| "piperead_copy (Suc k) i p addr s =
     bindr (pipe_at p s) (\<lambda>pp.
     if nread pp = nwrite pp then Inr (i, s)
     else
       bindr (ustore (addr + of_nat i) [pi_data pp ! ring_slot PIPESIZE (nread pp)] s) (\<lambda>s.
       piperead_copy k (Suc i) p addr (set_pipe p (pp\<lparr>nread := nread pp + 1\<rparr>) s)))"

text \<open>\<open>piperead\<close> from the test of the loop that waits for input.\<close>

definition piperead_wait :: "u64 \<Rightarrow> u64 \<Rightarrow> int \<Rightarrow> 'a file_state_scheme \<Rightarrow>
    'a file_state_scheme stop + int \<times> 'a file_state_scheme" where
  "piperead_wait p addr n s =
     bindr (pipe_at p s) (\<lambda>pp.
     if nread pp = nwrite pp \<and> writeopen pp then
       bindr (myproc s) (\<lambda>me.
       if killed (pget me s) \<noteq> 0 then bindr (release (LPipe p) s) (\<lambda>s. Inr (-1, s))
       else bindr (sleep (ChPipeR p) (LPipe p) s) (\<lambda>s. Inr (0, s)))
     else
       bindr (piperead_copy (nat n) 0 p addr s) (\<lambda>(i, s).
       bindr (wakeup (ChPipeW p) s) (\<lambda>s.
       bindr (release (LPipe p) s) (\<lambda>s. Inr (int i, s)))))"

definition piperead :: "u64 \<Rightarrow> u64 \<Rightarrow> int \<Rightarrow> 'a file_state_scheme \<Rightarrow>
    'a file_state_scheme stop + int \<times> 'a file_state_scheme" where
  "piperead p addr n s = bindr (acquire (LPipe p) s) (piperead_wait p addr n)"

definition piperead_resume :: "u64 \<Rightarrow> u64 \<Rightarrow> int \<Rightarrow> 'a file_state_scheme \<Rightarrow>
    'a file_state_scheme stop + int \<times> 'a file_state_scheme" where
  "piperead_resume p addr n s = bindr (sleep_resume (LPipe p) s) (piperead_wait p addr n)"

section \<open>The file table\<close>

definition fileinit :: "'a file_state_scheme \<Rightarrow> 'a file_state_scheme" where
  "fileinit s = s\<lparr>held := held s - {LFtable}\<rparr>"

definition filealloc :: "'a file_state_scheme \<Rightarrow> 'a file_state_scheme stop + nat option \<times> 'a file_state_scheme" where
  "filealloc s =
     bindr (acquire LFtable s) (\<lambda>s.
     case first_idx (\<lambda>f. f_ref f = 0) (ftable s) of
       Some f \<Rightarrow> bindr (release LFtable (fupd f (\<lambda>x. x\<lparr>f_ref := 1\<rparr>) s)) (\<lambda>s. Inr (Some f, s))
     | None \<Rightarrow> bindr (release LFtable s) (\<lambda>s. Inr (None, s)))"

definition filedup :: "nat \<Rightarrow> 'a file_state_scheme \<Rightarrow> 'a file_state_scheme stop + 'a file_state_scheme" where
  "filedup f s =
     bindr (acquire LFtable s) (\<lambda>s.
     if f_ref (fget f s) < 1 then Inl (Panic ''filedup'')
     else release LFtable (fupd f (\<lambda>x. x\<lparr>f_ref := f_ref x + 1\<rparr>) s))"

definition fileclose :: "nat \<Rightarrow> 'a file_state_scheme \<Rightarrow> 'a file_state_scheme stop + 'a file_state_scheme" where
  "fileclose f s =
     bindr (acquire LFtable s) (\<lambda>s.
     if f_ref (fget f s) < 1 then Inl (Panic ''fileclose'')
     else
       let s = fupd f (\<lambda>x. x\<lparr>f_ref := f_ref x - 1\<rparr>) s in
       if f_ref (fget f s) > 0 then release LFtable s
       else
         let ff = fget f s in
         bindr (release LFtable (fupd f (\<lambda>x. x\<lparr>f_ref := 0, f_type := FD_NONE\<rparr>) s)) (\<lambda>s.
         case f_type ff of
           FD_PIPE \<Rightarrow> pipeclose (f_pipe ff) (writable ff) s
         | FD_INODE \<Rightarrow> bindr (deref ''null pointer'' (f_ip ff)) (\<lambda>ip. irelease ip s)
         | FD_NONE \<Rightarrow> Inr s))"

text \<open>The fields of \<open>struct stat\<close> are at offsets 0, 4, 8 and 12.\<close>

definition filestat :: "nat \<Rightarrow> u64 \<Rightarrow> 'a file_state_scheme \<Rightarrow> 'a file_state_scheme stop + int \<times> 'a file_state_scheme" where
  "filestat f st s =
     (if f_type (fget f s) = FD_INODE then
        bindr (deref ''null pointer'' (f_ip (fget f s))) (\<lambda>ip.
        let v = stati ip s in
        bindr (ustore (st + 4) (le_bytes 4 (st_dev v)) s) (\<lambda>s.
        bindr (ustore (st + 8) (le_bytes 4 (st_ino v)) s) (\<lambda>s.
        bindr (ustore st (le_bytes 2 (st_type v)) s) (\<lambda>s.
        bindr (ustore (st + 12) (le_bytes 4 (st_size v)) s) (\<lambda>s. Inr (0, s))))))
      else Inr (-1, s))"

definition fileread :: "nat \<Rightarrow> u64 \<Rightarrow> int \<Rightarrow> 'a file_state_scheme \<Rightarrow> 'a file_state_scheme stop + int \<times> 'a file_state_scheme" where
  "fileread f addr n s =
     (if \<not> readable (fget f s) then Inr (-1, s)
      else case f_type (fget f s) of
        FD_PIPE \<Rightarrow> piperead (f_pipe (fget f s)) addr n s
      | FD_INODE \<Rightarrow>
          bindr (deref ''null pointer'' (f_ip (fget f s))) (\<lambda>ip.
          bindr (acquiresleep (ilock ip) s) (\<lambda>s.
          bindr (readi ip (Mem addr) (f_off (fget f s)) (word_of_int n) s) (\<lambda>((r, bs), s).
          let s = (if r > 0 then fupd f (\<lambda>x. x\<lparr>f_off := f_off x + word_of_int r\<rparr>) s else s) in
          bindr (releasesleep (ilock ip) s) (\<lambda>s. Inr (r, s)))))
      | FD_NONE \<Rightarrow> Inl (Panic ''fileread''))"

definition filewrite :: "u8 list \<Rightarrow> nat \<Rightarrow> u64 \<Rightarrow> int \<Rightarrow> 'a file_state_scheme \<Rightarrow>
    'a file_state_scheme stop + int \<times> 'a file_state_scheme" where
  "filewrite junk f addr n s =
     (if \<not> writable (fget f s) then Inr (-1, s)
      else case f_type (fget f s) of
        FD_PIPE \<Rightarrow> pipewrite (f_pipe (fget f s)) addr n s
      | FD_INODE \<Rightarrow>
          bindr (deref ''null pointer'' (f_ip (fget f s))) (\<lambda>ip.
          bindr (acquiresleep (ilock ip) s) (\<lambda>s.
          bindr (writei junk ip (From addr) (f_off (fget f s)) (word_of_int n) s) (\<lambda>(r, s).
          let s = (if r > 0 then fupd f (\<lambda>x. x\<lparr>f_off := f_off x + word_of_int r\<rparr>) s else s) in
          bindr (releasesleep (ilock ip) s) (\<lambda>s. Inr (r, s)))))
      | FD_NONE \<Rightarrow> Inl (Panic ''filewrite''))"

section \<open>Making a pipe\<close>

text \<open>The page \<open>kalloc\<close> returned, as a pipe; its data, at offset 104, is what the page held.\<close>

definition init_pipe :: "u64 \<Rightarrow> 'a file_state_scheme \<Rightarrow> 'a file_state_scheme" where
  "init_pipe p s =
     set_pipe p \<lparr>pi_data = mem_bytes (pmem s) (p + 104) PIPESIZE, nread = 0, nwrite = 0, readopen = True,
       writeopen = True\<rparr> (s\<lparr>held := held s - {LPipe p}\<rparr>)"

text \<open>The code at \<open>bad\<close>: the files allocated so far are closed.\<close>

definition pipe_bad :: "nat option \<Rightarrow> nat option \<Rightarrow> 'a file_state_scheme \<Rightarrow>
    'a file_state_scheme stop + (nat \<times> nat) option \<times> 'a file_state_scheme" where
  "pipe_bad f0 f1 s =
     bindr (case f0 of None \<Rightarrow> Inr s | Some f \<Rightarrow> fileclose f s) (\<lambda>s.
     bindr (case f1 of None \<Rightarrow> Inr s | Some f \<Rightarrow> fileclose f s) (\<lambda>s. Inr (None, s)))"

text \<open>\<open>pipealloc\<close> once it has its two files.\<close>

definition pipe_setup :: "nat \<Rightarrow> nat \<Rightarrow> 'a file_state_scheme \<Rightarrow>
    'a file_state_scheme stop + (nat \<times> nat) option \<times> 'a file_state_scheme" where
  "pipe_setup f0 f1 s =
     bindr (kalloc s) (\<lambda>(p, s).
     if p = 0 then pipe_bad (Some f0) (Some f1) s
     else
       let s = init_pipe p s;
           s = fupd f0 (\<lambda>x. x\<lparr>f_type := FD_PIPE, readable := True, writable := False, f_pipe := p\<rparr>) s;
           s = fupd f1 (\<lambda>x. x\<lparr>f_type := FD_PIPE, readable := False, writable := True, f_pipe := p\<rparr>) s
       in Inr (Some (f0, f1), s))"

definition pipealloc :: "'a file_state_scheme \<Rightarrow>
    'a file_state_scheme stop + (nat \<times> nat) option \<times> 'a file_state_scheme" where
  "pipealloc s =
     bindr (filealloc s) (\<lambda>(f0, s).
     case f0 of None \<Rightarrow> pipe_bad None None s
     | Some f0 \<Rightarrow>
         bindr (filealloc s) (\<lambda>(f1, s).
         case f1 of None \<Rightarrow> pipe_bad (Some f0) None s
         | Some f1 \<Rightarrow> pipe_setup f0 f1 s))"

end
