(* ===== verification/Pipe_Fifo.thy ===== *)
theory Pipe_Fifo
  imports File Console_Line
begin

text \<open>
  A pipe is a bounded queue of bytes: \<open>pipewrite\<close> appends, \<open>piperead\<close> takes from the front, also
  when they had to sleep in between and when the counters wrap.
\<close>

interpretation pring: ring_buffer 512
  by unfold_locales simp_all

definition pipe_q :: "u64 \<Rightarrow> 'a file_state_scheme \<Rightarrow> u8 list" where
  "pipe_q p s = (case pipes s p of None \<Rightarrow> []
     | Some pp \<Rightarrow> ring_contents PIPESIZE (pi_data pp) (nread pp) (nwrite pp))"

definition pipe_wf :: "pipe \<Rightarrow> bool" where
  "pipe_wf pp \<longleftrightarrow> length (pi_data pp) = PIPESIZE \<and> unat (nwrite pp - nread pp) \<le> PIPESIZE"

definition pipe_ok :: "u64 \<Rightarrow> 'a file_state_scheme \<Rightarrow> bool" where
  "pipe_ok p s \<longleftrightarrow> (\<exists>pp. pipes s p = Some pp \<and> pipe_wf pp)"

text \<open>A process is in the kernel, holding the locks \<open>h\<close> and a pipe in good state.\<close>

definition at_pipe :: "u64 \<Rightarrow> lockid set \<Rightarrow> nat \<Rightarrow> 'a file_state_scheme \<Rightarrow> bool" where
  "at_pipe p h me s \<longleftrightarrow> pipe_ok p s \<and> held s = h \<and> cur s = Some me \<and> me < length (ptable s)"

text \<open>What the operations may change.\<close>

definition pipe_frame :: "u64 \<Rightarrow> 'a file_state_scheme \<Rightarrow> 'a file_state_scheme \<Rightarrow> bool" where
  "pipe_frame p s s' \<longleftrightarrow>
     s' = s\<lparr>held := held s', ptable := ptable s', pipes := pipes s', pmem := pmem s'\<rparr> \<and>
     (\<forall>q. q \<noteq> p \<longrightarrow> pipes s' q = pipes s q) \<and> map killed (ptable s') = map killed (ptable s)"

lemma pipe_frameD:
  assumes "pipe_frame p s s'"
  shows "cur s' = cur s" "cr3 s' = cr3 s" "length (ptable s') = length (ptable s)"
proof -
  have e: "s' = s\<lparr>held := held s', ptable := ptable s', pipes := pipes s', pmem := pmem s'\<rparr>"
    and k: "map killed (ptable s') = map killed (ptable s)"
    using assms by (simp_all only: pipe_frame_def)
  show "cur s' = cur s" "cr3 s' = cr3 s" using arg_cong [OF e, of cur] arg_cong [OF e, of cr3] by simp_all
  show "length (ptable s') = length (ptable s)" using arg_cong [OF k, of length] by simp
qed

lemma pipe_frame_refl [simp]: "pipe_frame p s s"
  by (simp add: pipe_frame_def)

lemma pipe_frame_trans: "pipe_frame p s t \<Longrightarrow> pipe_frame p t u \<Longrightarrow> pipe_frame p s u"
  unfolding pipe_frame_def by (cases s; cases t; cases u) auto

lemma killed_wake [simp]: "killed (wake P q) = killed q"
  by (simp add: wake_def)

lemma map_killed_upd [simp]:
  "map killed (map (wake P) ps) = map killed ps"
  "killed (f (ps ! i)) = killed (ps ! i) \<Longrightarrow> map killed (ps[i := f (ps ! i)]) = map killed ps"
  by (simp_all add: o_def map_update_same)

lemma pipe_frame_upds:
  "pipe_frame p s (s\<lparr>held := h\<rparr>)" "pipe_frame p s (set_pipe p pp s)" "pipe_frame p s (s\<lparr>pmem := m\<rparr>)"
  "pipe_frame p s (wakeup1 ch s)"
  "(\<And>x. killed (f x) = killed x) \<Longrightarrow> pipe_frame p s (pupd i f s)"
  by (auto simp: pipe_frame_def set_pipe_def wakeup1_def pupd_def)

lemma pipe_q_upds [simp]:
  "pipe_q p (s\<lparr>held := h\<rparr>) = pipe_q p s" "pipe_q p (s\<lparr>pmem := m\<rparr>) = pipe_q p s"
  "pipe_q p (wakeup1 ch s) = pipe_q p s" "pipe_q p (pupd i f s) = pipe_q p s"
  "pipe_ok p (s\<lparr>held := h\<rparr>) = pipe_ok p s" "pipe_ok p (s\<lparr>pmem := m\<rparr>) = pipe_ok p s"
  "pipe_ok p (wakeup1 ch s) = pipe_ok p s" "pipe_ok p (pupd i f s) = pipe_ok p s"
  by (simp_all add: pipe_q_def pipe_ok_def wakeup1_def pupd_def)

lemma proc_chan_pipe [simp]: "proc_chan q \<noteq> ChPipeR p" "proc_chan q \<noteq> ChPipeW p"
  by (simp_all add: proc_chan_def split: option.split)

lemma wakeup_pipe:
  "LPtable \<notin> held s \<Longrightarrow> wakeup (ChPipeR p) s = Inr (wakeup1 (ChPipeR p) s)"
  "LPtable \<notin> held s \<Longrightarrow> wakeup (ChPipeW p) s = Inr (wakeup1 (ChPipeW p) s)"
  by (rule wakeup_plain; simp)+

lemma pipe_full:
  assumes "pipe_wf pp"
  shows "nwrite pp = nread pp + 512 \<longleftrightarrow> unat (nwrite pp - nread pp) = 512"
proof
  assume "unat (nwrite pp - nread pp) = 512"
  then have "nwrite pp - nread pp = of_nat 512" by (metis of_nat_unat ucast_id)
  then show "nwrite pp = nread pp + 512" by (simp add: diff_eq_eq add.commute)
qed simp

section \<open>Writing\<close>

lemma push_byte:
  fixes b :: u8
  assumes "pipes s p = Some pp" "pipe_wf pp" "nwrite pp \<noteq> nread pp + 512"
  defines "s' \<equiv> set_pipe p (pp\<lparr>pi_data := (pi_data pp)[ring_slot 512 (nwrite pp) := b], nwrite := nwrite pp + 1\<rparr>) s"
  shows "pipe_q p s' = pipe_q p s @ [b]" "pipe_ok p s'"
proof -
  have lt: "unat (nwrite pp - nread pp) < 512"
    using assms(2,3) pipe_full [OF assms(2)] by (simp add: pipe_wf_def)
  show q: "pipe_q p s' = pipe_q p s @ [b]"
    using pring.contents_push [of "pi_data pp" "nwrite pp" "nread pp" b] assms(1,2) lt
    by (simp add: pipe_q_def s'_def set_pipe_def pipe_wf_def)
  have e: "nwrite pp + 1 - nread pp = (nwrite pp - nread pp) + 1" by simp
  have "unat (nwrite pp - nread pp) + 1 < 2 ^ 32" using lt by simp
  then have "unat (nwrite pp + 1 - nread pp) = Suc (unat (nwrite pp - nread pp))"
    unfolding e by (rule unat_Suc32)
  then show "pipe_ok p s'" using assms(2) lt by (simp add: pipe_ok_def s'_def set_pipe_def pipe_wf_def)
qed

text \<open>
  The bytes \<open>xs\<close> at \<open>addr\<close> were appended: all of them when the writer returns \<open>n\<close>; a part when it
  gives up because nobody can read any more or it was killed, or while it sleeps, which it
  does only when the pipe is full and after waking every reader.
\<close>

definition appended :: "u64 \<Rightarrow> u64 \<Rightarrow> 'a file_state_scheme \<Rightarrow> u8 list \<Rightarrow> 'a file_state_scheme \<Rightarrow> bool" where
  "appended p a s xs s' \<longleftrightarrow> uload a (length xs) s = Inr xs \<and> pipe_q p s' = pipe_q p s @ xs \<and>
     pipe_ok p s' \<and> pipe_frame p s s' \<and> pmem s' = pmem s"

definition wrote_pipe :: "nat \<Rightarrow> u64 \<Rightarrow> u64 \<Rightarrow> int \<Rightarrow> nat \<Rightarrow> 'a file_state_scheme \<Rightarrow> int \<times> 'a file_state_scheme \<Rightarrow> bool" where
  "wrote_pipe k p a n me s = (\<lambda>(rc, s'). held s' = {} \<and>
     (\<exists>xs. appended p a s xs s' \<and>
        (rc = n \<and> length xs = k \<or>
         rc = -1 \<and> length xs < k \<and> length (pipe_q p s') = PIPESIZE \<and>
           ((\<exists>pp. pipes s' p = Some pp \<and> \<not> readopen pp) \<or> killed (pget me s') \<noteq> 0))))"

definition write_sleeps :: "nat \<Rightarrow> u64 \<Rightarrow> u64 \<Rightarrow> nat \<Rightarrow> 'a file_state_scheme \<Rightarrow> 'a file_state_scheme \<Rightarrow> bool" where
  "write_sleeps k p a me s t \<longleftrightarrow> held t = {LPtable} \<and>
     (\<exists>xs. appended p a s xs t \<and> length xs < k) \<and> length (pipe_q p t) = PIPESIZE \<and>
     pstate (pget me t) = SLEEPING \<and> pchan (pget me t) = ChPipeW p \<and>
     (\<forall>q \<in> set (ptable t). \<not> (pstate q = SLEEPING \<and> pchan q = ChPipeR p))"

lemma uload_Suc:
  assumes "uload a 1 s = Inr [b]" "uload (a + 1) (length xs) s = Inr xs"
  shows "uload a (length (b # xs)) s = Inr (b # xs)"
  using assms by (auto simp: bindr_iff)

lemma appended_Cons:
  assumes b: "uload a 1 s = Inr [b]" and t: "pipe_q p t = pipe_q p s @ [b]" "pipe_frame p s t" "pmem t = pmem s"
    and x: "appended p (a + 1) t xs s'"
  shows "appended p a s (b # xs) s'"
proof -
  have "uload (a + 1) (length xs) s = Inr xs"
    by (rule uload_cong [of s t]) (use x t pipe_frameD(2) [OF t(2)] in \<open>simp_all add: appended_def\<close>)
  then show ?thesis
    using uload_Suc [OF b] x t by (auto simp: appended_def intro: pipe_frame_trans simp del: uload.simps)
qed

lemma appended_none:
  "pipe_ok p s \<Longrightarrow> pipe_frame p s s' \<Longrightarrow> pmem s' = pmem s \<Longrightarrow> pipes s' p = pipes s p \<Longrightarrow> appended p a s [] s'"
  by (simp add: appended_def pipe_ok_def pipe_q_def)

lemma write_end:
  assumes "at_pipe p {LPipe p} me s"
  shows "wpm (wrote_pipe 0 p a n me s) Q (pipewrite_loop 0 p addr n s)"
proof -
  let ?t = "(wakeup1 (ChPipeR p) s)\<lparr>held := {}\<rparr>"
  have h: "held s = {LPipe p}" using assms by (simp add: at_pipe_def)
  have "appended p a s [] ?t"
  proof (rule appended_none)
    show "pipe_frame p s ?t" by (rule pipe_frame_trans [OF pipe_frame_upds(4) pipe_frame_upds(1)])
  qed (use assms in \<open>simp_all add: at_pipe_def wakeup1_def\<close>)
  then have "wrote_pipe 0 p a n me s (n, ?t)" by (auto simp: wrote_pipe_def)
  moreover have "pipewrite_loop 0 p addr n s = Inr (n, ?t)"
    using wakeup_pipe(1) [of s p] h by (simp add: wakeup1_def)
  ultimately show ?thesis by simp
qed

lemma write_full:
  assumes at: "at_pipe p {LPipe p} me s" and pp: "pipes s p = Some pp" "pipe_wf pp" and full: "nwrite pp = nread pp + 512"
  shows "wpm (wrote_pipe (Suc k) p a n me s) (write_sleeps (Suc k) p a me s) (pipewrite_loop (Suc k) p addr n s)"
proof -
  have h: "held s = {LPipe p}" "cur s = Some me" "me < length (ptable s)" using at by (simp_all add: at_pipe_def)
  have len: "length (pipe_q p s) = 512" using pp full pipe_full by (simp add: pipe_q_def)
  have free: "wrote_pipe (Suc k) p a n me s (-1, s\<lparr>held := {}\<rparr>)" if "\<not> readopen pp \<or> killed (pget me s) \<noteq> 0"
  proof -
    have "appended p a s [] (s\<lparr>held := {}\<rparr>)"
      using at by (intro appended_none) (simp_all add: at_pipe_def pipe_frame_upds)
    then show ?thesis using that len pp by (auto simp: wrote_pipe_def pget_def)
  qed
  define w where "w = wakeup1 (ChPipeR p) s"
  define t where "t = pupd me (\<lambda>q. q\<lparr>pchan := ChPipeW p, pstate := SLEEPING\<rparr>) (w\<lparr>held := {LPtable}\<rparr>)"
  have "sleep (ChPipeW p) (LPipe p) w = Inl (Asleep t)"
    unfolding t_def using h by (intro sleep_total) (simp_all add: w_def wakeup1_def)
  moreover have "write_sleeps (Suc k) p a me s t"
  proof -
    have f: "held t = {LPtable}" "pmem t = pmem s" "pipes t p = pipes s p"
      "ptable t = (ptable w)[me := (ptable w ! me)\<lparr>pchan := ChPipeW p, pstate := SLEEPING\<rparr>]"
      by (simp_all add: t_def w_def wakeup1_def pupd_def)
    have "pipe_frame p s t" unfolding t_def w_def
      by (rule pipe_frame_trans [OF pipe_frame_upds(4) pipe_frame_trans [OF pipe_frame_upds(1) pipe_frame_upds(5)]]) simp
    then have "appended p a s [] t" using at f by (intro appended_none) (simp_all add: at_pipe_def)
    moreover have "\<not> (pstate q = SLEEPING \<and> pchan q = ChPipeR p)" if "q \<in> set (ptable t)" for q
    proof -
      have "q \<in> insert ((ptable w ! me)\<lparr>pchan := ChPipeW p, pstate := SLEEPING\<rparr>) (set (ptable w))"
        using set_mp [OF set_update_subset_insert that [unfolded f(4)]] .
      then show ?thesis by (auto simp: w_def wakeup1_def wake_def split: if_splits)
    qed
    moreover have "me < length (ptable w)" using h(3) by (simp add: w_def wakeup1_def)
    then have "pstate (pget me t) = SLEEPING" "pchan (pget me t) = ChPipeW p" by (simp_all add: pget_def f(4))
    moreover have "length (pipe_q p t) = 512" using len f(3) by (simp add: pipe_q_def)
    ultimately show ?thesis using f(1) unfolding write_sleeps_def by fastforce
  qed
  ultimately show ?thesis
    using full free h pp wakeup_pipe(1) [of s p, folded w_def] by (simp add: pipe_at_def wpm_eq myproc_def)
qed

lemma write_push:
  assumes at: "at_pipe p {LPipe p} me s" and pp: "pipes s p = Some pp" "pipe_wf pp" and nf: "nwrite pp \<noteq> nread pp + 512"
    and b: "uload a 1 s = Inr [b]"
  defines "t \<equiv> set_pipe p (pp\<lparr>pi_data := (pi_data pp)[ring_slot 512 (nwrite pp) := b], nwrite := nwrite pp + 1\<rparr>) s"
  shows "at_pipe p {LPipe p} me t"
    "wrote_pipe k p (a + 1) n me t r \<Longrightarrow> wrote_pipe (Suc k) p a n me s r"
    "write_sleeps k p (a + 1) me t u \<Longrightarrow> write_sleeps (Suc k) p a me s u"
proof -
  note pb = push_byte [OF pp nf, of b, folded t_def]
  have f: "pipe_frame p s t" "pmem t = pmem s" "held t = held s" "cur t = cur s" "ptable t = ptable s"
    by (simp_all add: t_def pipe_frame_upds) (simp_all add: set_pipe_def)
  then show "at_pipe p {LPipe p} me t" using at pb by (simp add: at_pipe_def)
  have c: "appended p (a + 1) t xs s' \<Longrightarrow> appended p a s (b # xs) s'" for xs s'
    by (rule appended_Cons [OF b pb(1) f(1,2)])
  show "wrote_pipe k p (a + 1) n me t r \<Longrightarrow> wrote_pipe (Suc k) p a n me s r"
    using c unfolding wrote_pipe_def by fastforce
  show "write_sleeps k p (a + 1) me t u \<Longrightarrow> write_sleeps (Suc k) p a me s u"
    using c unfolding write_sleeps_def by fastforce
qed

lemma write_loop_total:
  assumes "at_pipe p {LPipe p} me s" "k \<le> nat n" "a = addr + of_nat (nat n - k)"
  shows "wpm (wrote_pipe k p a n me s) (write_sleeps k p a me s) (pipewrite_loop k p addr n s)"
  using assms
proof (induction k arbitrary: s a)
  case 0
  then show ?case by (intro write_end)
next
  case (Suc k)
  obtain pp where pp: "pipes s p = Some pp" "pipe_wf pp" using Suc.prems(1) by (auto simp: at_pipe_def pipe_ok_def)
  show ?case
  proof (cases "nwrite pp = nread pp + 512")
    case True
    with Suc.prems(1) pp show ?thesis by (rule write_full)
  next
    case False
    let ?t = "\<lambda>b. set_pipe p (pp\<lparr>pi_data := (pi_data pp)[ring_slot 512 (nwrite pp) := b], nwrite := nwrite pp + 1\<rparr>) s"
    have a: "a + 1 = addr + of_nat (nat n - k)"
    proof -
      have "nat n - k = Suc (nat n - Suc k)" using Suc.prems(2) by simp
      then show ?thesis using Suc.prems(3) by simp
    qed
    have "wpm (\<lambda>bs. wpm (wrote_pipe (Suc k) p a n me s) (write_sleeps (Suc k) p a me s) (pipewrite_loop k p addr n (?t (hd bs))))
        (write_sleeps (Suc k) p a me s) (uload a 1 s)"
    proof (rule wpm_post [OF uload_wpm])
      fix bs assume "uload a 1 s = Inr bs \<and> length bs = 1"
      then obtain b where b: "uload a 1 s = Inr [b]" "hd bs = b" by (cases bs) auto
      note wr = write_push [OF Suc.prems(1) pp False b(1)]
      show "wpm (wrote_pipe (Suc k) p a n me s) (write_sleeps (Suc k) p a me s) (pipewrite_loop k p addr n (?t (hd bs)))"
        unfolding b(2) by (rule wpm_mono [OF Suc.IH [OF wr(1) _ a] wr(2,3)]) (use Suc.prems(2) in simp_all)
    qed
    then show ?thesis using False pp Suc.prems(3) by (simp add: pipe_at_def wpm_bindr del: uload.simps)
  qed
qed

section \<open>Reading\<close>

lemma pipe_empty: "pipes s p = Some pp \<Longrightarrow> pipe_q p s = [] \<longleftrightarrow> nread pp = nwrite pp"
proof -
  assume pp: "pipes s p = Some pp"
  have "pipe_q p s = [] \<longleftrightarrow> length (pipe_q p s) = 0" by simp
  also have "\<dots> \<longleftrightarrow> unat (nwrite pp - nread pp) = 0" using pp by (simp add: pipe_q_def)
  finally show ?thesis by (auto simp: unat_eq_0)
qed

lemma pop_byte:
  assumes "pipes s p = Some pp" "pipe_wf pp" "nread pp \<noteq> nwrite pp"
  defines "s' \<equiv> set_pipe p (pp\<lparr>nread := nread pp + 1\<rparr>) s"
  shows "pipe_q p s = pi_data pp ! ring_slot 512 (nread pp) # pipe_q p s'" "pipe_ok p s'"
proof -
  show "pipe_q p s = pi_data pp ! ring_slot 512 (nread pp) # pipe_q p s'"
    using pring.contents_pop [OF assms(3), of "pi_data pp"] assms(1) by (simp add: pipe_q_def s'_def set_pipe_def)
  have "nwrite pp - nread pp \<noteq> 0" using assms(3) by simp
  then have "unat (nwrite pp - nread pp - 1) = unat (nwrite pp - nread pp) - 1" by (rule unat_pred32)
  moreover have "nwrite pp - nread pp - 1 = nwrite pp - (nread pp + 1)" by simp
  ultimately have "unat (nwrite pp - (nread pp + 1)) \<le> unat (nwrite pp - nread pp)" by simp
  then show "pipe_ok p s'" using assms(2) by (simp add: pipe_ok_def s'_def set_pipe_def pipe_wf_def)
qed

text \<open>The first bytes \<open>bs\<close> of the queue were taken and stored at \<open>a\<close>.\<close>

definition taken :: "u64 \<Rightarrow> u64 \<Rightarrow> 'a file_state_scheme \<Rightarrow> u8 list \<Rightarrow> 'a file_state_scheme \<Rightarrow> bool" where
  "taken p a s bs s' \<longleftrightarrow> ustore a bs s = Inr (s\<lparr>pmem := pmem s'\<rparr>) \<and> pipe_q p s = bs @ pipe_q p s' \<and>
     pipe_ok p s' \<and> pipe_frame p s s'"

text \<open>
  A reader that finds bytes, or a pipe that nobody writes any more, takes as many as there are
  up to \<open>n\<close> and wakes the writers. It sleeps only when the pipe is empty and still open for
  writing.
\<close>

definition read_pipe :: "u64 \<Rightarrow> u64 \<Rightarrow> int \<Rightarrow> nat \<Rightarrow> 'a file_state_scheme \<Rightarrow> int \<times> 'a file_state_scheme \<Rightarrow> bool" where
  "read_pipe p a n me s = (\<lambda>(rc, s'). held s' = {} \<and>
     (rc = -1 \<and> killed (pget me s) \<noteq> 0 \<and> pipe_q p s = [] \<and> pipe_q p s' = [] \<and> pipe_ok p s' \<and> pmem s' = pmem s \<or>
      (\<exists>bs. taken p a s bs s' \<and> rc = int (length bs) \<and> length bs = min (nat n) (length (pipe_q p s)) \<and>
         (pipe_q p s = [] \<longrightarrow> (\<exists>pp. pipes s p = Some pp \<and> \<not> writeopen pp)) \<and>
         (\<forall>q \<in> set (ptable s'). \<not> (pstate q = SLEEPING \<and> pchan q = ChPipeW p)))))"

definition read_sleeps :: "u64 \<Rightarrow> nat \<Rightarrow> 'a file_state_scheme \<Rightarrow> 'a file_state_scheme \<Rightarrow> bool" where
  "read_sleeps p me s t \<longleftrightarrow> held t = {LPtable} \<and> pipe_q p s = [] \<and> pipe_q p t = [] \<and> pipe_ok p t \<and>
     (\<exists>pp. pipes s p = Some pp \<and> writeopen pp) \<and> pipe_frame p s t \<and> pmem t = pmem s \<and>
     pstate (pget me t) = SLEEPING \<and> pchan (pget me t) = ChPipeR p"

lemma ustore_Cons:
  fixes s :: "'a vm_state_scheme" and v :: "'b vm_state_scheme"
  assumes "ustore a [b] s = Inr u" "pmem v = pmem u" "cr3 v = cr3 s" "ustore (a + 1) bs v = Inr v'"
  shows "ustore a (b # bs) s = Inr (s\<lparr>pmem := pmem v'\<rparr>)"
proof -
  have "ustore a [b] s = Inr (s\<lparr>pmem := pmem u\<rparr>)" by (rule ustore_cong [OF _ _ assms(1)]) simp_all
  moreover have "ustore (a + 1) bs (s\<lparr>pmem := pmem u\<rparr>) = Inr (s\<lparr>pmem := pmem v'\<rparr>)"
    using ustore_cong [OF _ _ assms(4), of "s\<lparr>pmem := pmem u\<rparr>"] assms(2,3) by simp
  ultimately show ?thesis using ustore_append [of a "[b]" bs s] by simp
qed

lemma read_copy_total:
  assumes "pipe_ok p s"
  shows "wpm (\<lambda>(j, s'). \<exists>bs. j = i + length bs \<and> taken p (addr + of_nat i) s bs s' \<and>
      length bs = min k (length (pipe_q p s)) \<and> held s' = held s \<and> ptable s' = ptable s) Q (piperead_copy k i p addr s)"
  using assms
proof (induction k arbitrary: i s)
  case 0
  then show ?case by (simp add: taken_def)
next
  case (Suc k)
  obtain pp where pp: "pipes s p = Some pp" "pipe_wf pp" using Suc.prems by (auto simp: pipe_ok_def)
  let ?a = "addr + of_nat i" and ?b = "pi_data pp ! ring_slot 512 (nread pp)"
  show ?case
  proof (cases "nread pp = nwrite pp")
    case True
    then have "pipe_q p s = []" using pipe_empty [of s p, OF pp(1)] by simp
    then show ?thesis using True pp Suc.prems by (simp add: pipe_at_def taken_def)
  next
    case False
    let ?P = "\<lambda>(j, s'). \<exists>bs. j = i + length bs \<and> taken p ?a s bs s' \<and> length bs = min (Suc k) (length (pipe_q p s)) \<and>
      held s' = held s \<and> ptable s' = ptable s"
    have "wpm (\<lambda>u. wpm ?P Q (piperead_copy k (Suc i) p addr (set_pipe p (pp\<lparr>nread := nread pp + 1\<rparr>) u))) Q (ustore ?a [?b] s)"
    proof (rule wpm_post [OF ustore_wpm])
      fix u assume u: "ustore ?a [?b] s = Inr u \<and> u = s\<lparr>pmem := pmem u\<rparr>"
      define t where "t = set_pipe p (pp\<lparr>nread := nread pp + 1\<rparr>) u"
      have ut: "t = (set_pipe p (pp\<lparr>nread := nread pp + 1\<rparr>) s)\<lparr>pmem := pmem u\<rparr>"
        unfolding t_def by (subst conjunct2 [OF u]) (simp add: set_pipe_def)
      have q: "pipe_q p s = ?b # pipe_q p t" "pipe_ok p t" using pop_byte [OF pp False] by (simp_all add: ut)
      have f: "pmem t = pmem u" "cr3 t = cr3 s" "held t = held s" "ptable t = ptable s" "pipe_frame p s t"
        by (simp_all add: ut pipe_frame_trans [OF pipe_frame_upds(2,3)]) (simp_all add: set_pipe_def)
      have tk: "taken p ?a s (?b # bs) s'" if "taken p (addr + of_nat (Suc i)) t bs s'" for bs s'
      proof -
        have "ustore (?a + 1) bs t = Inr (t\<lparr>pmem := pmem s'\<rparr>)" using that by (simp add: taken_def algebra_simps)
        from ustore_Cons [OF conjunct1 [OF u] f(1,2) this] show ?thesis
          using that q f(5) by (auto simp: taken_def intro: pipe_frame_trans simp del: ustore.simps)
      qed
      show "wpm ?P Q (piperead_copy k (Suc i) p addr (set_pipe p (pp\<lparr>nread := nread pp + 1\<rparr>) u))"
        unfolding t_def [symmetric]
      proof (rule wpm_post [OF Suc.IH [OF q(2)]], clarify)
        fix s' bs
        assume "taken p (addr + of_nat (Suc i)) t bs s'" "length bs = min k (length (pipe_q p t))"
          "held s' = held t" "ptable s' = ptable t"
        then show "\<exists>cs. Suc i + length bs = i + length cs \<and> taken p ?a s cs s' \<and>
            length cs = min (Suc k) (length (pipe_q p s)) \<and> held s' = held s \<and> ptable s' = ptable s"
          using tk q f by (intro exI [of _ "?b # bs"]) simp
      qed
    qed
    then show ?thesis using False pp by (simp add: pipe_at_def wpm_bindr del: ustore.simps)
  qed
qed

lemma read_wait_total:
  assumes at: "at_pipe p {LPipe p} me s"
  shows "wpm (read_pipe p addr n me s) (read_sleeps p me s) (piperead_wait p addr n s)"
proof -
  have h: "held s = {LPipe p}" "cur s = Some me" "me < length (ptable s)" "pipe_ok p s" using at by (simp_all add: at_pipe_def)
  obtain pp where pp: "pipes s p = Some pp" "pipe_wf pp" using h(4) by (auto simp: pipe_ok_def)
  show ?thesis
  proof (cases "nread pp = nwrite pp \<and> writeopen pp")
    case True
    then have e: "pipe_q p s = []" using pipe_empty [of s p, OF pp(1)] by simp
    define t where "t = pupd me (\<lambda>q. q\<lparr>pchan := ChPipeR p, pstate := SLEEPING\<rparr>) (s\<lparr>held := {LPtable}\<rparr>)"
    have sl: "sleep (ChPipeR p) (LPipe p) s = Inl (Asleep t)" unfolding t_def using h by (intro sleep_total) simp_all
    have "pipe_frame p s t" unfolding t_def
      by (rule pipe_frame_trans [OF pipe_frame_upds(1) pipe_frame_upds(5)]) simp
    moreover have "pipe_q p t = []" "pipe_ok p t" using e h(4) by (simp_all add: t_def)
    moreover have "held t = {LPtable}" "pmem t = pmem s" "pstate (pget me t) = SLEEPING" "pchan (pget me t) = ChPipeR p"
      using h(3) by (simp_all add: t_def pupd_def pget_def)
    ultimately have "read_sleeps p me s t" using e pp True by (simp add: read_sleeps_def)
    moreover have "read_pipe p addr n me s (-1, s\<lparr>held := {}\<rparr>)" if "killed (pget me s) \<noteq> 0"
      using that e h(4) by (simp add: read_pipe_def)
    ultimately show ?thesis using True pp h sl by (simp add: piperead_wait_def pipe_at_def myproc_def)
  next
    case False
    have "wpm (\<lambda>(i, u). wpm (read_pipe p addr n me s) (read_sleeps p me s)
        (bindr (wakeup (ChPipeW p) u) (\<lambda>s. bindr (release (LPipe p) s) (\<lambda>s. Inr (int i, s)))))
        (read_sleeps p me s) (piperead_copy (nat n) 0 p addr s)"
    proof (rule wpm_post [OF read_copy_total [OF h(4)]], clarify)
      fix u bs
      assume u: "taken p (addr + of_nat 0) s bs u" "length bs = min (nat n) (length (pipe_q p s))" "held u = held s" "ptable u = ptable s"
      define w where "w = (wakeup1 (ChPipeW p) u)\<lparr>held := {}\<rparr>"
      have "pipe_frame p u w" unfolding w_def by (rule pipe_frame_trans [OF pipe_frame_upds(4) pipe_frame_upds(1)])
      then have "taken p addr s bs w" using u(1) by (auto simp: taken_def w_def wakeup1_def pipe_q_def pipe_ok_def intro: pipe_frame_trans)
      moreover have "\<forall>q \<in> set (ptable w). \<not> (pstate q = SLEEPING \<and> pchan q = ChPipeW p)"
        by (auto simp: w_def wakeup1_def wake_def split: if_splits)
      moreover have "pipe_q p s = [] \<longrightarrow> \<not> writeopen pp" using False pipe_empty [of s p, OF pp(1)] by simp
      moreover have "held w = {}" by (simp add: w_def)
      ultimately have "read_pipe p addr n me s (int (length bs), w)" using u(2) pp by (auto simp: read_pipe_def)
      then show "wpm (read_pipe p addr n me s) (read_sleeps p me s)
          (bindr (wakeup (ChPipeW p) u) (\<lambda>s. bindr (release (LPipe p) s) (\<lambda>s. Inr (int (0 + length bs), s))))"
        using u(3) h(1) wakeup_pipe(2) [of u p] by (simp add: w_def wakeup1_def)
    qed
    then show ?thesis using False pp by (auto simp: piperead_wait_def pipe_at_def wpm_bindr case_prod_unfold)
  qed
qed

section \<open>Starting and going on after a sleep\<close>

lemma resume_pipe:
  assumes "at_pipe p {} me s"
  defines "t \<equiv> (pupd me (\<lambda>q. q\<lparr>pchan := ChNone\<rparr>) s)\<lparr>held := {LPipe p}\<rparr>"
  shows "sleep_resume (LPipe p) (s\<lparr>held := {LPtable}\<rparr>) = Inr t" "at_pipe p {LPipe p} me t"
    "pipe_frame p s t" "pmem t = pmem s" "pipes t = pipes s"
proof -
  show "pipe_frame p s t" unfolding t_def
    by (rule pipe_frame_trans [OF pipe_frame_upds(5) pipe_frame_upds(1)]) simp
qed (use assms(1) in \<open>simp_all add: at_pipe_def t_def sleep_resume_def myproc_def pupd_def pipe_ok_def\<close>)

lemma enter_pipe:
  assumes "at_pipe p {} me s"
  defines "t \<equiv> s\<lparr>held := {LPipe p}\<rparr>"
  shows "acquire (LPipe p) s = Inr t" "at_pipe p {LPipe p} me t" "pipe_frame p s t" "pmem t = pmem s" "pipes t = pipes s"
  using assms(1) by (simp_all add: at_pipe_def t_def pipe_frame_upds)

lemma seen_from:
  assumes f: "pipe_frame p s t" "pmem t = pmem s" "pipes t = pipes s" and me: "me < length (ptable s)"
  shows "wrote_pipe k p a n me t r \<Longrightarrow> wrote_pipe k p a n me s r"
    "write_sleeps k p a me t u \<Longrightarrow> write_sleeps k p a me s u"
    "read_pipe p a n me t r \<Longrightarrow> read_pipe p a n me s r"
    "read_sleeps p me t u \<Longrightarrow> read_sleeps p me s u"
proof -
  note cr = pipe_frameD [OF f(1)]
  have q: "pipe_q p t = pipe_q p s" using f(3) by (simp add: pipe_q_def)
  have k: "killed (pget me t) = killed (pget me s)"
  proof -
    have "map killed (ptable t) = map killed (ptable s)" using f(1) by (simp only: pipe_frame_def)
    from arg_cong [OF this, of "\<lambda>xs. xs ! me"] show ?thesis using me cr(3) by (simp add: pget_def)
  qed
  have a: "appended p a t xs s' \<Longrightarrow> appended p a s xs s'" for xs s'
    using uload_cong [of s t a "length xs" xs] f cr q by (auto simp: appended_def intro: pipe_frame_trans)
  have tk: "taken p a t bs s' \<Longrightarrow> taken p a s bs s'" for bs s'
    using ustore_cong [of s t a bs "t\<lparr>pmem := pmem s'\<rparr>"] f cr q by (auto simp: taken_def intro: pipe_frame_trans)
  show "wrote_pipe k p a n me t r \<Longrightarrow> wrote_pipe k p a n me s r" using a unfolding wrote_pipe_def by fastforce
  show "write_sleeps k p a me t u \<Longrightarrow> write_sleeps k p a me s u" using a unfolding write_sleeps_def by fastforce
  show "read_pipe p a n me t r \<Longrightarrow> read_pipe p a n me s r" using tk q k f(2,3) unfolding read_pipe_def by fastforce
  show "read_sleeps p me t u \<Longrightarrow> read_sleeps p me s u"
    using q f by (auto simp: read_sleeps_def intro: pipe_frame_trans)
qed

text \<open>
  C5. A pipe is a bounded queue of bytes. \<open>pipewrite\<close> of \<open>n\<close> bytes appends exactly the bytes at \<open>addr\<close>
  and returns \<open>n\<close>; it gives up with -1, or sleeps, only when 512 bytes are waiting, and a sleeping
  writer has appended the bytes up to where it goes on and has left no reader asleep.
  \<open>piperead\<close> takes the oldest bytes, as many as there are up to \<open>n\<close>, and stores them at \<open>addr\<close> in order; it
  sleeps only when the pipe is empty and open for writing, and returns 0 when it is empty and
  closed. Both also hold for the part of the call after a sleep, and both stop otherwise only
  where \<open>addr\<close> cannot be accessed.
\<close>

theorem pipe_fifo:
  assumes "at_pipe p {} me s" "k \<le> nat n"
  shows "wpm (wrote_pipe (nat n) p addr n me s) (write_sleeps (nat n) p addr me s) (pipewrite p addr n s) \<and>
    wpm (wrote_pipe k p (addr + of_nat (nat n - k)) n me s) (write_sleeps k p (addr + of_nat (nat n - k)) me s)
      (pipewrite_resume k p addr n (s\<lparr>held := {LPtable}\<rparr>)) \<and>
    wpm (read_pipe p addr n me s) (read_sleeps p me s) (piperead p addr n s) \<and>
    wpm (read_pipe p addr n me s) (read_sleeps p me s) (piperead_resume p addr n (s\<lparr>held := {LPtable}\<rparr>))"
proof -
  have me: "me < length (ptable s)" using assms(1) by (simp add: at_pipe_def)
  note en = enter_pipe [OF assms(1)] and re = resume_pipe [OF assms(1)]
  note sen = seen_from [OF en(3-5) me] and sre = seen_from [OF re(3-5) me]
  have "wpm (wrote_pipe (nat n) p addr n me s) (write_sleeps (nat n) p addr me s) (pipewrite p addr n s)"
    using wpm_mono [OF write_loop_total [OF en(2), of "nat n" n addr addr] sen(1,2)] by (simp add: pipewrite_def en(1))
  moreover have "wpm (wrote_pipe k p (addr + of_nat (nat n - k)) n me s) (write_sleeps k p (addr + of_nat (nat n - k)) me s)
      (pipewrite_resume k p addr n (s\<lparr>held := {LPtable}\<rparr>))"
    using wpm_mono [OF write_loop_total [OF re(2) assms(2) refl, of addr] sre(1,2)] by (simp add: pipewrite_resume_def re(1))
  moreover have "wpm (read_pipe p addr n me s) (read_sleeps p me s) (piperead p addr n s)"
    using wpm_mono [OF read_wait_total [OF en(2)] sen(3,4)] by (simp add: piperead_def en(1))
  moreover have "wpm (read_pipe p addr n me s) (read_sleeps p me s) (piperead_resume p addr n (s\<lparr>held := {LPtable}\<rparr>))"
    using wpm_mono [OF read_wait_total [OF re(2)] sre(3,4)] by (simp add: piperead_resume_def re(1))
  ultimately show ?thesis by blast
qed

definition pipe_boot :: file_state where
  "pipe_boot = cons_state.extend typing
     \<lparr>sb = \<lparr>sb_size = 0, sb_nblocks = 0, cids = [], udiskstart = 0, bmapstart = 0, inodestart = 0, freeblock = 0\<rparr>, icache = [],
      inodefile = \<lparr>i_dev = 0, i_inum = 0, i_ref = 0, i_type = 0, i_devid = 0, i_size = 0, i_data = \<lparr>startblkno = 0, nblocks = 0\<rparr>\<rparr>,
      ftable = replicate 100 \<lparr>f_type = FD_NONE, f_ref = 0, readable = False, writable = False, f_pipe = 0, f_ip = None, f_off = 0\<rparr>,
      pipes = [page_va 700 \<mapsto> \<lparr>pi_data = replicate 512 7, nread = 0xFFFFFFFF, nwrite = 1, readopen = True, writeopen = True\<rparr>]\<rparr>"

lemma pipe_boot_ok: "at_pipe (page_va 700) {} 0 pipe_boot" "pipe_q (page_va 700) pipe_boot = [7, 7]"
proof -
  have d: "unat ((1 :: u32) - 0xFFFFFFFF) = 2" by code_simp
  then show "at_pipe (page_va 700) {} 0 pipe_boot"
    using typing_ok(3-5) by (simp add: pipe_boot_def cons_state.defs at_pipe_def pipe_ok_def pipe_wf_def)
  have "[0..<2] = [0, 1 :: nat]" by code_simp
  then show "pipe_q (page_va 700) pipe_boot = [7, 7]"
    using d by (simp add: pipe_boot_def cons_state.defs pipe_q_def ring_contents_def ring_slot_def)
qed

text \<open>A reader asks for five bytes and finds two, one on each side of the wrap-around of the counters.\<close>

theorem pipe_fifo_witness:
  "pipe_q (page_va 700) pipe_boot = [7, 7] \<and>
   wpm (read_pipe (page_va 700) (page_va 701) 5 0 pipe_boot) (read_sleeps (page_va 700) 0 pipe_boot)
     (piperead (page_va 700) (page_va 701) 5 pipe_boot)"
  using pipe_fifo [OF pipe_boot_ok(1), of 0 5 "page_va 701"] pipe_boot_ok(2) by blast

end
