(* ===== verification/File_Inv.thy ===== *)
theory File_Inv
  imports Pipe_Fifo
begin

text \<open>
  The file table and the pipes it refers to: a pipe exists exactly as long as a file refers to
  it, so that no operation follows the pointer to a pipe that was freed.
\<close>

section \<open>The invariant\<close>

text \<open>File \<open>f\<close> is an end of a pipe.\<close>

definition pipe_end :: "nat \<Rightarrow> 'a file_state_scheme \<Rightarrow> bool" where
  "pipe_end f s \<longleftrightarrow> f < length (ftable s) \<and> 0 < f_ref (fget f s) \<and> f_type (fget f s) = FD_PIPE"

definition end_open :: "kfile \<Rightarrow> pipe \<Rightarrow> bool" where
  "end_open f pp = (if writable f then writeopen pp else readopen pp)"

definition files_ok :: "'a file_state_scheme \<Rightarrow> bool" where
  "files_ok s \<longleftrightarrow> kmem_wf s \<and>
     (\<forall>f < length (ftable s). 0 \<le> f_ref (fget f s) \<and> (f_ref (fget f s) = 0 \<longrightarrow> f_type (fget f s) = FD_NONE) \<and>
        (f_type (fget f s) = FD_INODE \<longrightarrow> f_ip (fget f s) \<noteq> None)) \<and>
     (\<forall>f. pipe_end f s \<longrightarrow> (\<exists>pp. pipes s (f_pipe (fget f s)) = Some pp \<and> end_open (fget f s) pp)) \<and>
     (\<forall>f g. pipe_end f s \<and> pipe_end g s \<and> f_pipe (fget f s) = f_pipe (fget g s) \<and>
        writable (fget f s) = writable (fget g s) \<longrightarrow> f = g) \<and>
     (\<forall>p pp. pipes s p = Some pp \<longrightarrow> refs s p = 1 \<and> (readopen pp \<or> writeopen pp) \<and> pipe_wf pp)"

lemma files_okD:
  assumes "files_ok s"
  shows "kmem_wf s" "f < length (ftable s) \<Longrightarrow> 0 \<le> f_ref (fget f s)"
    "f < length (ftable s) \<Longrightarrow> f_ref (fget f s) = 0 \<Longrightarrow> f_type (fget f s) = FD_NONE"
    "f < length (ftable s) \<Longrightarrow> f_type (fget f s) = FD_INODE \<Longrightarrow> f_ip (fget f s) \<noteq> None"
    "pipe_end f s \<Longrightarrow> \<exists>pp. pipes s (f_pipe (fget f s)) = Some pp \<and> end_open (fget f s) pp"
    "pipe_end f s \<Longrightarrow> pipe_end g s \<Longrightarrow> f_pipe (fget f s) = f_pipe (fget g s) \<Longrightarrow> writable (fget f s) = writable (fget g s) \<Longrightarrow> f = g"
    "pipes s p = Some pp \<Longrightarrow> refs s p = 1 \<and> (readopen pp \<or> writeopen pp) \<and> pipe_wf pp"
  using assms unfolding files_ok_def by blast+

lemma files_ok_cong:
  assumes "core_map s' = core_map s" "npages s' = npages s" "k_end s' = k_end s" "ftable s' = ftable s" "pipes s' = pipes s"
  shows "files_ok s' \<longleftrightarrow> files_ok s"
  using assms kmem_wf_cong [OF assms(1-3)] refs_cong [OF assms(1)]
  by (simp add: files_ok_def pipe_end_def fget_def)

lemma files_ok_upds [simp]:
  "files_ok (s\<lparr>held := h\<rparr>) = files_ok s" "files_ok (s\<lparr>icache := x\<rparr>) = files_ok s"
  "files_ok (s\<lparr>inodefile := y\<rparr>) = files_ok s" "files_ok (wakeup1 ch s) = files_ok s"
  by (rule files_ok_cong; simp add: wakeup1_def)+

lemma fget_fupd: "f < length (ftable s) \<Longrightarrow> fget g (fupd f h s) = (if g = f then h (fget f s) else fget g s)"
  by (simp add: fget_def fupd_def)

lemma fupd_fields [simp]:
  "length (ftable (fupd f h s)) = length (ftable s)" "pipes (fupd f h s) = pipes s" "held (fupd f h s) = held s"
  "kmem_wf (fupd f h s) = kmem_wf s" "refs (fupd f h s) = refs s"
  by (simp_all add: fupd_def kmem_wf_def) (rule refs_cong, simp)

section \<open>Changing one file\<close>

lemma files_ok_fupd:
  assumes ok: "files_ok s" and f: "f < length (ftable s)"
    and new: "0 \<le> f_ref (h (fget f s))" "f_ref (h (fget f s)) = 0 \<Longrightarrow> f_type (h (fget f s)) = FD_NONE"
      "f_type (h (fget f s)) = FD_INODE \<Longrightarrow> f_ip (h (fget f s)) \<noteq> None"
    and same: "0 < f_ref (h (fget f s)) \<Longrightarrow> f_type (h (fget f s)) = FD_PIPE \<Longrightarrow>
      pipe_end f s \<and> f_pipe (h (fget f s)) = f_pipe (fget f s) \<and> writable (h (fget f s)) = writable (fget f s)"
  shows "files_ok (fupd f h s)"
proof -
  have e: "pipe_end g (fupd f h s) \<Longrightarrow> pipe_end g s \<and> f_pipe (fget g (fupd f h s)) = f_pipe (fget g s) \<and>
      writable (fget g (fupd f h s)) = writable (fget g s)" for g
    using same f by (auto simp: pipe_end_def fget_fupd split: if_splits)
  show ?thesis unfolding files_ok_def
  proof (intro conjI allI impI)
    show "\<exists>pp. pipes (fupd f h s) (f_pipe (fget g (fupd f h s))) = Some pp \<and> end_open (fget g (fupd f h s)) pp"
      if "pipe_end g (fupd f h s)" for g
      using e [OF that] files_okD(5) [OF ok, of g] by (simp add: end_open_def)
    show "g = g'" if "pipe_end g (fupd f h s) \<and> pipe_end g' (fupd f h s) \<and>
        f_pipe (fget g (fupd f h s)) = f_pipe (fget g' (fupd f h s)) \<and>
        writable (fget g (fupd f h s)) = writable (fget g' (fupd f h s))" for g g'
      using e [of g] e [of g'] that files_okD(6) [OF ok, of g g'] by simp
  qed (use files_okD [OF ok] new f in \<open>auto simp: fget_fupd\<close>)
qed

lemma filealloc_ok:
  assumes "files_ok s" "held s = {}"
  shows "wpt (\<lambda>(r, s'). files_ok s' \<and> held s' = {} \<and> pipes s' = pipes s \<and> core_map s' = core_map s \<and>
      (case r of None \<Rightarrow> s' = s | Some f \<Rightarrow> f < length (ftable s) \<and> f_ref (fget f s) = 0 \<and>
         s' = fupd f (\<lambda>x. x\<lparr>f_ref := 1\<rparr>) s)) Q (filealloc s)"
proof (cases "first_idx (\<lambda>f. f_ref f = 0) (ftable s)")
  case None
  have "s\<lparr>held := {}\<rparr> = s" using assms(2) by simp
  with None assms show ?thesis by (simp add: filealloc_def wpt_eq)
next
  case (Some f)
  note f = first_idx_Some [OF Some]
  have z: "f_ref (fget f s) = 0" "f_type (fget f s) = FD_NONE"
    using f files_okD(3) [OF assms(1), of f] by (simp_all add: fget_def)
  have "files_ok (fupd f (\<lambda>x. x\<lparr>f_ref := 1\<rparr>) s)"
    by (rule files_ok_fupd [OF assms(1) f(1)]) (use z in simp_all)
  moreover have "(fupd f (\<lambda>x. x\<lparr>f_ref := 1\<rparr>) (s\<lparr>held := {LFtable}\<rparr>))\<lparr>held := {}\<rparr> = fupd f (\<lambda>x. x\<lparr>f_ref := 1\<rparr>) s"
    using assms(2) by (simp add: fupd_def)
  ultimately show ?thesis
    using Some assms(2) f z by (simp add: filealloc_def wpt_eq) (simp add: fupd_def)
qed

lemma filedup_ok:
  assumes "files_ok s" "held s = {}" "f < length (ftable s)" "0 < f_ref (fget f s)"
  shows "filedup f s = Inr (fupd f (\<lambda>x. x\<lparr>f_ref := f_ref x + 1\<rparr>) s)" "files_ok (fupd f (\<lambda>x. x\<lparr>f_ref := f_ref x + 1\<rparr>) s)"
proof -
  show "files_ok (fupd f (\<lambda>x. x\<lparr>f_ref := f_ref x + 1\<rparr>) s)"
    by (rule files_ok_fupd [OF assms(1,3)])
      (use assms files_okD(4) [OF assms(1,3)] in \<open>simp_all add: pipe_end_def\<close>)
  have "(fupd f (\<lambda>x. x\<lparr>f_ref := f_ref x + 1\<rparr>) (s\<lparr>held := {LFtable}\<rparr>))\<lparr>held := {}\<rparr> = fupd f (\<lambda>x. x\<lparr>f_ref := f_ref x + 1\<rparr>) s"
    using assms(2) by (simp add: fupd_def)
  then show "filedup f s = Inr (fupd f (\<lambda>x. x\<lparr>f_ref := f_ref x + 1\<rparr>) s)"
    using assms by (simp add: filedup_def fget_def)
qed

section \<open>Closing a pipe\<close>

definition shut :: "bool \<Rightarrow> pipe \<Rightarrow> pipe" where
  "shut w pp = (if w then pp\<lparr>writeopen := False\<rparr> else pp\<lparr>readopen := False\<rparr>)"

lemma files_ok_pipes:
  assumes ok: "files_ok s" and s': "ftable s' = ftable s" "kmem_wf s'"
    and other: "\<And>q. q \<noteq> p \<Longrightarrow> pipes s' q = pipes s q \<and> (pipes s q \<noteq> None \<longrightarrow> refs s' q = refs s q)"
    and ends: "\<And>g. pipe_end g s \<Longrightarrow> f_pipe (fget g s) = p \<Longrightarrow> \<exists>pp. pipes s' p = Some pp \<and> end_open (fget g s) pp"
    and new: "\<And>pp. pipes s' p = Some pp \<Longrightarrow> refs s' p = 1 \<and> (readopen pp \<or> writeopen pp) \<and> pipe_wf pp"
  shows "files_ok s'"
proof -
  have e: "pipe_end g s' = pipe_end g s" "fget g s' = fget g s" for g using s' by (simp_all add: pipe_end_def fget_def)
  have r: "refs s' q = 1 \<and> (readopen pp \<or> writeopen pp) \<and> pipe_wf pp" if "pipes s' q = Some pp" for q pp
  proof (cases "q = p")
    case False
    then have "pipes s q = Some pp" using other [OF False] that by simp
    then show ?thesis using other [OF False] files_okD(7) [OF ok, of q pp] by simp
  qed (use new that in blast)
  show ?thesis unfolding files_ok_def e
  proof (intro conjI allI impI)
    show "\<exists>pp. pipes s' (f_pipe (fget g s)) = Some pp \<and> end_open (fget g s) pp" if "pipe_end g s" for g
      using files_okD(5) [OF ok that] ends [OF that] other [of "f_pipe (fget g s)"] by (cases "f_pipe (fget g s) = p") auto
    show "refs s' q = 1" "readopen pp \<or> writeopen pp" "pipe_wf pp" if "pipes s' q = Some pp" for q pp
      using r [OF that] by blast+
    show "g = g'" if "pipe_end g s \<and> pipe_end g' s \<and> f_pipe (fget g s) = f_pipe (fget g' s) \<and>
        writable (fget g s) = writable (fget g' s)" for g g'
      using that files_okD(6) [OF ok] by blast
  qed (use files_okD(2-4) [OF ok] s' in simp_all)
qed

lemma kfree_pipe:
  assumes "kmem_wf s" "held s = {}" "refs s p = 1"
  shows "\<exists>s'. kfree p s = Inr s' \<and> kmem_wf s' \<and> refs s' = (refs s)(p := 0) \<and> held s' = {} \<and>
    ftable s' = ftable s \<and> pipes s' = pipes s"
proof -
  have rd: "kmem_ready s" using assms(1,2) by (simp add: kmem_ready_def)
  obtain i where i: "i < length (core_map s)" "p = page_va i" "0 < ref (core_map s ! i)"
    using refs_pos [of s p] assms(3) by (metis zero_less_one)
  have "kfree p s = Inr (kfree_done i s)"
    using kfree_eq [OF rd i(1)] kmem_wf_ref [OF assms(1) i(1,3)] i(2) by simp
  moreover have "ftable (kfree_done i s) = ftable s" "pipes (kfree_done i s) = pipes s"
    by (simp_all add: kfree_done_def cm_upd_def)
  ultimately show ?thesis
    using kfree_done_wf [OF assms(1) i(1,3)] i(2) assms(2,3) by simp
qed

lemma pipeclose_ok:
  assumes ok: "files_ok s" and h: "held s = {}" and pp: "pipes s p = Some pp"
    and alone: "\<And>g. pipe_end g s \<Longrightarrow> f_pipe (fget g s) = p \<Longrightarrow> writable (fget g s) \<noteq> w"
  shows "wpt (\<lambda>s'. files_ok s' \<and> held s' = {} \<and> ftable s' = ftable s \<and>
      pipes s' p = (if readopen (shut w pp) \<or> writeopen (shut w pp) then Some (shut w pp) else None)) Q (pipeclose p w s)"
proof -
  define t where "t = wakeup1 (if w then ChPipeR p else ChPipeW p) (set_pipe p (shut w pp) s)"
  have m: "core_map t = core_map s" "npages t = npages s" "k_end t = k_end s"
    by (simp_all add: t_def wakeup1_def set_pipe_def)
  have t: "ftable t = ftable s" "held t = {}" "pipes t = (pipes s)(p \<mapsto> shut w pp)" "kmem_wf t" "refs t = refs s"
    using h files_okD(1) [OF ok] kmem_wf_cong [OF m] refs_cong [OF m(1)] by (simp_all add: t_def wakeup1_def set_pipe_def)
  have wk: "(if w then wakeup (ChPipeR p) (set_pipe p (pp\<lparr>writeopen := False\<rparr>) (s\<lparr>held := {LPipe p}\<rparr>))
      else wakeup (ChPipeW p) (set_pipe p (pp\<lparr>readopen := False\<rparr>) (s\<lparr>held := {LPipe p}\<rparr>))) = Inr (t\<lparr>held := {LPipe p}\<rparr>)"
    using wakeup_pipe [of "set_pipe p (shut w pp) (s\<lparr>held := {LPipe p}\<rparr>)" p]
    by (cases w) (simp_all add: t_def shut_def set_pipe_def wakeup1_def)
  have wf: "pipe_wf (shut w pp)" using files_okD(7) [OF ok pp] by (simp add: shut_def pipe_wf_def)
  have kept: "end_open (fget g s) (shut w pp)" if "pipe_end g s" "f_pipe (fget g s) = p" for g
    using files_okD(5) [OF ok that(1)] alone [OF that] pp that(2) by (auto simp: end_open_def shut_def)
  show ?thesis
  proof (cases "readopen (shut w pp) \<or> writeopen (shut w pp)")
    case True
    have "files_ok t"
    proof (rule files_ok_pipes [OF ok t(1,4), where p = p])
      show "\<exists>pp. pipes t p = Some pp \<and> end_open (fget g s) pp" if "pipe_end g s" "f_pipe (fget g s) = p" for g
        using kept [OF that] t(3) by simp
    qed (use t True wf files_okD(7) [OF ok pp] in auto)
    moreover have "t\<lparr>held := {}\<rparr> = t" using t(2) by simp
    ultimately show ?thesis using True pp h t wk by (auto simp: pipeclose_def pipe_at_def wpt_eq)
  next
    case False
    define u where "u = t\<lparr>held := {}, pipes := (pipes t)(p := None)\<rparr>"
    have "kmem_wf u" "held u = {}" "refs u p = 1" "ftable u = ftable s" "refs u = refs s" "pipes u = (pipes s)(p := None)"
      using t files_okD(7) [OF ok pp] refs_cong [of u t] by (auto simp: u_def kmem_wf_def)
    with kfree_pipe [of u p] obtain v where v: "kfree p u = Inr v" "kmem_wf v" "refs v = (refs s)(p := 0)" "held v = {}"
      "ftable v = ftable s" "pipes v = (pipes s)(p := None)" by auto
    have "files_ok v"
    proof (rule files_ok_pipes [OF ok v(5,2), where p = p])
      show "\<exists>pp. pipes v p = Some pp \<and> end_open (fget g s) pp" if "pipe_end g s" "f_pipe (fget g s) = p" for g
        using kept [OF that] False by (auto simp: end_open_def split: if_splits)
    qed (use v in auto)
    then show ?thesis using False pp h t wk v by (simp add: pipeclose_def pipe_at_def wpt_eq u_def)
  qed
qed

section \<open>Closing a file\<close>

text \<open>The file \<open>f\<close> without its last reference.\<close>

lemma files_ok_drop:
  assumes "files_ok s" "f < length (ftable s)" "f_ref (fget f s) = 1"
  shows "files_ok (fupd f (\<lambda>x. x\<lparr>f_ref := 0, f_type := FD_NONE\<rparr>) s)"
  by (rule files_ok_fupd [OF assms(1,2)]) simp_all

lemma fileclose_ok:
  assumes ok: "files_ok s" and h: "held s = {}" and f: "f < length (ftable s)" "0 < f_ref (fget f s)"
  shows "wpt (\<lambda>s'. files_ok s' \<and> held s' = {} \<and> length (ftable s') = length (ftable s) \<and>
      f_ref (fget f s') = f_ref (fget f s) - 1 \<and> (\<forall>g. g \<noteq> f \<longrightarrow> fget g s' = fget g s)) Q (fileclose f s)"
proof (cases "f_ref (fget f s) = 1")
  case False
  let ?s = "fupd f (\<lambda>x. x\<lparr>f_ref := f_ref x - 1\<rparr>) s"
  have "files_ok ?s"
    by (rule files_ok_fupd [OF ok f(1)]) (use f False files_okD(4) [OF ok f(1)] in \<open>simp_all add: pipe_end_def\<close>)
  moreover have "(fupd f (\<lambda>x. x\<lparr>f_ref := f_ref x - 1\<rparr>) (s\<lparr>held := {LFtable}\<rparr>))\<lparr>held := {}\<rparr> = ?s"
    using h by (simp add: fupd_def)
  moreover have "fileclose f s = Inr ((fupd f (\<lambda>x. x\<lparr>f_ref := f_ref x - 1\<rparr>) (s\<lparr>held := {LFtable}\<rparr>))\<lparr>held := {}\<rparr>)"
    using h f False by (simp add: fileclose_def fget_def fupd_def)
  ultimately show ?thesis using h f by (simp add: fget_fupd)
next
  case True
  define ff where "ff = (fget f s)\<lparr>f_ref := 0\<rparr>"
  define t where "t = fupd f (\<lambda>x. x\<lparr>f_ref := 0, f_type := FD_NONE\<rparr>) s"
  have t: "files_ok t" "held t = {}" "length (ftable t) = length (ftable s)" "pipes t = pipes s"
    using files_ok_drop [OF ok f(1) True] h by (simp_all add: t_def)
  have fg: "f_ref (fget f t) = 0" "g \<noteq> f \<Longrightarrow> fget g t = fget g s" for g using f by (simp_all add: t_def fget_fupd)
  have eq: "fileclose f s = (case f_type ff of
      FD_PIPE \<Rightarrow> pipeclose (f_pipe ff) (writable ff) t
    | FD_INODE \<Rightarrow> bindr (deref ''null pointer'' (f_ip ff)) (\<lambda>ip. irelease ip t) | FD_NONE \<Rightarrow> Inr t)"
  proof -
    have "(fupd f (\<lambda>x. x\<lparr>f_ref := 0, f_type := FD_NONE\<rparr>) (fupd f (\<lambda>x. x\<lparr>f_ref := f_ref x - 1\<rparr>) (s\<lparr>held := {LFtable}\<rparr>)))\<lparr>held := {}\<rparr> = t"
      using h f by (simp add: t_def fupd_def)
    then show ?thesis using h f True by (simp add: fileclose_def fget_def fupd_def ff_def Let_def split: fdtype.split)
  qed
  show ?thesis
  proof (cases "f_type ff")
    case FD_NONE
    then show ?thesis using eq t fg True by simp
  next
    case FD_PIPE
    then have e: "pipe_end f s" using f by (simp add: pipe_end_def ff_def)
    obtain pp where pp: "pipes t (f_pipe ff) = Some pp" using files_okD(5) [OF ok e] t(4) by (auto simp: ff_def)
    have al: "writable (fget g t) \<noteq> writable ff" if "pipe_end g t" "f_pipe (fget g t) = f_pipe ff" for g
    proof
      assume w: "writable (fget g t) = writable ff"
      have "g \<noteq> f" using that(1) fg(1) by (auto simp: pipe_end_def)
      then show False
        using files_okD(6) [OF ok e, of g] that w fg(2) [of g] t(3) by (simp add: pipe_end_def ff_def)
    qed
    show ?thesis unfolding eq FD_PIPE fdtype.case
      by (rule wpt_post [OF pipeclose_ok [OF t(1,2) pp al]]) (use fg True t in \<open>auto simp: fget_def\<close>)
  next
    case FD_INODE
    then obtain ip where ip: "f_ip ff = Some ip" using files_okD(4) [OF ok f(1)] by (auto simp: ff_def)
    have "\<exists>u. irelease ip t = Inr u \<and> files_ok u \<and> held u = {} \<and> ftable u = ftable t"
      using t by (cases ip) (simp_all add: irelease_def iupd_def Let_def)
    then show ?thesis unfolding eq FD_INODE ip using fg True t by (auto simp: fget_def)
  qed
qed

section \<open>Making a pipe\<close>

lemma init_pipe_fields [simp]:
  "ftable (init_pipe p s) = ftable s" "kmem_wf (init_pipe p s) = kmem_wf s" "refs (init_pipe p s) = refs s"
  "held (init_pipe p s) = held s - {LPipe p}" "pmem (init_pipe p s) = pmem s"
  by (simp_all add: init_pipe_def set_pipe_def kmem_wf_def) (rule refs_cong, simp)

lemma init_pipe_pipes:
  "\<exists>pp. pipes (init_pipe p s) p = Some pp \<and> readopen pp \<and> writeopen pp \<and> pipe_wf pp"
  "q \<noteq> p \<Longrightarrow> pipes (init_pipe p s) q = pipes s q"
  by (simp_all add: init_pipe_def set_pipe_def pipe_wf_def)

text \<open>Two files just allocated become the ends of a new pipe.\<close>

lemma new_pipe_ok:
  assumes ok: "files_ok s" and f: "f0 < length (ftable s)" "f1 < length (ftable s)" "f0 \<noteq> f1"
    and r: "0 < f_ref (fget f0 s)" "0 < f_ref (fget f1 s)" "f_type (fget f0 s) = FD_NONE" "f_type (fget f1 s) = FD_NONE"
    and p: "pipes s p = None" "refs s p = 1"
  shows "files_ok (fupd f1 (\<lambda>x. x\<lparr>f_type := FD_PIPE, readable := False, writable := True, f_pipe := p\<rparr>)
    (fupd f0 (\<lambda>x. x\<lparr>f_type := FD_PIPE, readable := True, writable := False, f_pipe := p\<rparr>) (init_pipe p s)))" (is "files_ok ?u")
proof -
  have u: "length (ftable ?u) = length (ftable s)" "kmem_wf ?u" "refs ?u = refs s"
    "\<exists>pp. pipes ?u p = Some pp \<and> readopen pp \<and> writeopen pp \<and> pipe_wf pp" "q \<noteq> p \<Longrightarrow> pipes ?u q = pipes s q" for q
    using files_okD(1) [OF ok] init_pipe_pipes [where p = p and s = s] by simp_all
  have g: "fget g ?u = (if g = f1 then (fget f1 s)\<lparr>f_type := FD_PIPE, readable := False, writable := True, f_pipe := p\<rparr>
      else if g = f0 then (fget f0 s)\<lparr>f_type := FD_PIPE, readable := True, writable := False, f_pipe := p\<rparr> else fget g s)" for g
    using f by (simp add: fget_fupd) (simp add: fget_def)
  have old: "pipe_end g s \<and> f_pipe (fget g s) \<noteq> p" if "pipe_end g ?u" "g \<noteq> f0" "g \<noteq> f1" for g
  proof -
    have e: "pipe_end g s" using that g u(1) by (simp add: pipe_end_def)
    with files_okD(5) [OF ok e] p(1) show ?thesis by auto
  qed
  show ?thesis unfolding files_ok_def
  proof (intro conjI allI impI)
    show "\<exists>pp. pipes ?u (f_pipe (fget h ?u)) = Some pp \<and> end_open (fget h ?u) pp" if e: "pipe_end h ?u" for h
    proof (cases "h = f0 \<or> h = f1")
      case True
      then show ?thesis using u(4) f(3) by (auto simp: g end_open_def)
    next
      case False
      then show ?thesis using old [OF e] files_okD(5) [OF ok, of h] u(5) [of "f_pipe (fget h s)"] by (simp add: g)
    qed
    show "h = h'" if e: "pipe_end h ?u \<and> pipe_end h' ?u \<and> f_pipe (fget h ?u) = f_pipe (fget h' ?u) \<and>
        writable (fget h ?u) = writable (fget h' ?u)" for h h'
      using e old [of h] old [of h'] files_okD(6) [OF ok, of h h'] f(3) by (auto simp: g split: if_splits)
    show "refs ?u q = 1" "readopen pp \<or> writeopen pp" "pipe_wf pp" if "pipes ?u q = Some pp" for q pp
      using that u(3,4) u(5) [of q] p(2) files_okD(7) [OF ok, of q pp] by (cases "q = p"; auto)+
  qed (use u(1,2) r files_okD(2-4) [OF ok] in \<open>auto simp: g split: if_splits\<close>)
qed

lemma kalloc_files:
  assumes ok: "files_ok s" and h: "held s = {}"
  shows "\<exists>p s'. kalloc s = Inr (p, s') \<and> files_ok s' \<and> held s' = {} \<and> ftable s' = ftable s \<and> pipes s' = pipes s \<and>
    (p \<noteq> 0 \<longrightarrow> pipes s' p = None \<and> refs s' p = 1)"
proof -
  have rd: "kmem_ready s" using files_okD(1) [OF ok] h by (simp add: kmem_ready_def)
  obtain p s' where k: "kalloc s = Inr (p, s')" 
    by (cases "first_idx (\<lambda>e. available e = 1) (core_map s)") (auto simp: kalloc_eq [OF rd])
  from rd k show ?thesis
  proof (cases rule: kalloc_cases)
    case none
    have e: "core_map s' = core_map s" "npages s' = npages s" "k_end s' = k_end s" "ftable s' = ftable s" "pipes s' = pipes s"
      "held s' = held s"
      by (simp_all add: none(2) kalloc_none_def)
    show ?thesis using k h ok files_ok_cong [OF e(1-5)] e none(1) by simp
  next
    case (took i)
    have new: "refs s p = 0" "kmem_wf s'" "refs s' = (refs s)(p := 1)"
      using avail_page [OF files_okD(1) [OF ok]] took kalloc_took_wf [OF files_okD(1) [OF ok]] by simp_all
    then have np: "pipes s p = None" using files_okD(7) [OF ok, of p] by (cases "pipes s p") auto
    have s': "ftable s' = ftable s" "pipes s' = pipes s" "held s' = {}"
      using took(4) h by (simp_all add: kalloc_took_def cm_upd_def)
    have "files_ok s'"
    proof (rule files_ok_pipes [OF ok s'(1) new(2), where p = p])
      show "\<exists>pp. pipes s' p = Some pp \<and> end_open (fget g s) pp" if "pipe_end g s" "f_pipe (fget g s) = p" for g
        using files_okD(5) [OF ok that(1)] that(2) s'(2) by simp
    qed (use s' new np in auto)
    then show ?thesis using k s' np new by simp
  qed
qed

definition made_pipe :: "nat \<Rightarrow> nat \<Rightarrow> 'a file_state_scheme \<Rightarrow> bool" where
  "made_pipe f0 f1 s \<longleftrightarrow> f0 \<noteq> f1 \<and> pipe_end f0 s \<and> pipe_end f1 s \<and> f_ref (fget f0 s) = 1 \<and> f_ref (fget f1 s) = 1 \<and>
     f_pipe (fget f0 s) = f_pipe (fget f1 s) \<and> readable (fget f0 s) \<and> writable (fget f1 s) \<and>
     \<not> writable (fget f0 s) \<and> \<not> readable (fget f1 s) \<and>
     pipe_ok (f_pipe (fget f0 s)) s \<and> pipe_q (f_pipe (fget f0 s)) s = []"

text \<open>The reference counts are those of before.\<close>

definition same_refs :: "'a file_state_scheme \<Rightarrow> 'a file_state_scheme \<Rightarrow> bool" where
  "same_refs s s' \<longleftrightarrow> length (ftable s') = length (ftable s) \<and> (\<forall>f. f_ref (fget f s') = f_ref (fget f s))"

lemma pipe_bad_ok:
  fixes s s0 :: "'a file_state_scheme"
  assumes ok: "files_ok s" "held s = {}" and s0: "length (ftable s) = length (ftable s0)"
    and f0: "\<And>f. f0 = Some f \<Longrightarrow> f < length (ftable s) \<and> f_ref (fget f s) = 1 \<and> f_ref (fget f s0) = 0"
    and f1: "\<And>f. f1 = Some f \<Longrightarrow> f < length (ftable s) \<and> f_ref (fget f s) = 1 \<and> f_ref (fget f s0) = 0 \<and> f0 \<noteq> Some f"
    and other: "\<And>f. f0 \<noteq> Some f \<Longrightarrow> f1 \<noteq> Some f \<Longrightarrow> f_ref (fget f s) = f_ref (fget f s0)"
  shows "wpt (\<lambda>(r, s'). files_ok s' \<and> held s' = {} \<and> r = None \<and> same_refs s0 s') Q (pipe_bad f0 f1 s)"
proof -
  have close: "wpt (\<lambda>s'. files_ok s' \<and> held s' = {} \<and> length (ftable s') = length (ftable s) \<and>
      (\<forall>g. f_ref (fget g s') = f_ref (fget g s) - (if fo = Some g then 1 else 0))) Q
      (case fo of None \<Rightarrow> Inr s | Some f \<Rightarrow> fileclose f s)"
    if "files_ok s" "held s = {}" "\<And>f. fo = Some f \<Longrightarrow> f < length (ftable s) \<and> f_ref (fget f s) = 1"
    for s :: "'a file_state_scheme" and fo Q
  proof (cases fo)
    case (Some f)
    show ?thesis using that(3) [OF Some] Some
      by (auto intro!: wpt_post [OF fileclose_ok [OF that(1,2)]] split: if_splits)
  qed (use that in simp)
  show ?thesis unfolding pipe_bad_def wpt_bindr
  proof (rule wpt_post [OF close [OF ok]])
    fix t :: "'a file_state_scheme"
    assume t: "files_ok t \<and> held t = {} \<and> length (ftable t) = length (ftable s) \<and>
      (\<forall>g. f_ref (fget g t) = f_ref (fget g s) - (if f0 = Some g then 1 else 0))"
    show "wpt (\<lambda>x. wpt (\<lambda>(r, s'). files_ok s' \<and> held s' = {} \<and> r = None \<and> same_refs s0 s') Q (Inr (None, x))) Q
        (case f1 of None \<Rightarrow> Inr t | Some f \<Rightarrow> fileclose f t)"
    proof (rule wpt_post [OF close])
      fix u :: "'a file_state_scheme"
      assume u: "files_ok u \<and> held u = {} \<and> length (ftable u) = length (ftable t) \<and>
        (\<forall>g. f_ref (fget g u) = f_ref (fget g t) - (if f1 = Some g then 1 else 0))"
      have "f_ref (fget g u) = f_ref (fget g s0)" for g
        using t u f0 [of g] f1 [of g] other [of g] by (cases "f0 = Some g"; cases "f1 = Some g") auto
      then show "wpt (\<lambda>(r, s'). files_ok s' \<and> held s' = {} \<and> r = None \<and> same_refs s0 s') Q (Inr (None, u))"
        using t u s0 by (simp add: same_refs_def)
    qed (use t f1 in auto)
  qed (use f0 in auto)
qed

text \<open>How \<open>pipealloc\<close> ends: with a new pipe, or with every reference count as before.\<close>

definition pipe_or_not :: "'a file_state_scheme \<Rightarrow> (nat \<times> nat) option \<times> 'a file_state_scheme \<Rightarrow> bool" where
  "pipe_or_not s = (\<lambda>(r, s'). files_ok s' \<and> held s' = {} \<and>
     (case r of None \<Rightarrow> same_refs s s' | Some (f0, f1) \<Rightarrow> made_pipe f0 f1 s'))"

lemma pipe_bad_or_not:
  "wpt (\<lambda>(r, s'). files_ok s' \<and> held s' = {} \<and> r = None \<and> same_refs s s') Q (pipe_bad a b t) \<Longrightarrow>
   wpt (pipe_or_not s) Q (pipe_bad a b t)"
  by (erule wpt_post) (auto simp: pipe_or_not_def)

lemma pipe_setup_ok:
  fixes s t :: "'a file_state_scheme"
  assumes t: "files_ok t" "held t = {}" "length (ftable t) = length (ftable s)"
    and f: "f0 < length (ftable s)" "f1 < length (ftable s)" "f0 \<noteq> f1"
    and r: "\<And>g. f_ref (fget g t) = (if g = f0 \<or> g = f1 then 1 else f_ref (fget g s))" "f_ref (fget f0 s) = 0" "f_ref (fget f1 s) = 0"
    and ty: "f_type (fget f0 t) = FD_NONE" "f_type (fget f1 t) = FD_NONE"
  shows "wpt (pipe_or_not s) Q (pipe_setup f0 f1 t)"
proof -
  obtain p u where u: "kalloc t = Inr (p, u)" "files_ok u" "held u = {}" "ftable u = ftable t"
    "p \<noteq> 0 \<Longrightarrow> pipes u p = None \<and> refs u p = 1" using kalloc_files [OF t(1,2)] by auto
  have gu: "fget g u = fget g t" for g using u(4) by (simp add: fget_def)
  have lu: "length (ftable u) = length (ftable s)" using u(4) t(3) by simp
  show ?thesis
  proof (cases "p = 0")
    case True
    have "wpt (pipe_or_not s) Q (pipe_bad (Some f0) (Some f1) u)"
      by (intro pipe_bad_or_not pipe_bad_ok [OF u(2,3) lu]) (use f r lu in \<open>auto simp: gu\<close>)
    then show ?thesis using u(1) True by (simp add: pipe_setup_def)
  next
    case False
    define v where "v = fupd f1 (\<lambda>x. x\<lparr>f_type := FD_PIPE, readable := False, writable := True, f_pipe := p\<rparr>)
      (fupd f0 (\<lambda>x. x\<lparr>f_type := FD_PIPE, readable := True, writable := False, f_pipe := p\<rparr>) (init_pipe p u))"
    have "files_ok v" unfolding v_def
      by (rule new_pipe_ok [OF u(2)]) (use f r ty lu u(5) False in \<open>simp_all add: gu\<close>)
    moreover have fv: "fget f0 v = (fget f0 t)\<lparr>f_type := FD_PIPE, readable := True, writable := False, f_pipe := p\<rparr>"
      "fget f1 v = (fget f1 t)\<lparr>f_type := FD_PIPE, readable := False, writable := True, f_pipe := p\<rparr>"
      "length (ftable v) = length (ftable s)" "held v = {}" "pipes v = pipes (init_pipe p u)"
      using f lu u(3) gu by (simp_all add: v_def fget_fupd) (simp_all add: fget_def)
    moreover have "made_pipe f0 f1 v"
      using f r(1) [of f0] r(1) [of f1] unfolding made_pipe_def pipe_end_def fv
      by (simp add: pipe_ok_def pipe_q_def fv(5)) (simp add: init_pipe_def set_pipe_def pipe_wf_def)
    ultimately show ?thesis using u(1) False by (simp add: pipe_setup_def pipe_or_not_def v_def)
  qed
qed

lemma pipealloc_second:
  fixes s t :: "'a file_state_scheme"
  assumes ok: "files_ok s" and t: "files_ok t" "held t = {}" "t = fupd f0 (\<lambda>x. x\<lparr>f_ref := 1\<rparr>) s"
    and f0: "f0 < length (ftable s)" "f_ref (fget f0 s) = 0"
  shows "wpt (pipe_or_not s) Q (bindr (filealloc t) (\<lambda>(f1, s). case f1 of None \<Rightarrow> pipe_bad (Some f0) None s
    | Some f1 \<Rightarrow> pipe_setup f0 f1 s))"
proof (unfold wpt_bindr, rule wpt_post [OF filealloc_ok [OF t(1,2)]], clarify)
  fix f1 u
  assume u: "files_ok u" "held u = {}" and c: "case f1 of None \<Rightarrow> u = t
    | Some f \<Rightarrow> f < length (ftable t) \<and> f_ref (fget f t) = 0 \<and> u = fupd f (\<lambda>x. x\<lparr>f_ref := 1\<rparr>) t"
  show "wpt (pipe_or_not s) Q (case f1 of None \<Rightarrow> pipe_bad (Some f0) None u | Some f1 \<Rightarrow> pipe_setup f0 f1 u)"
  proof (cases f1)
    case None
    have "wpt (pipe_or_not s) Q (pipe_bad (Some f0) None t)"
      by (intro pipe_bad_or_not pipe_bad_ok [OF t(1,2)]) (use t(3) f0 in \<open>auto simp: fget_fupd\<close>)
    then show ?thesis using c None by simp
  next
    case (Some f)
    have f: "f < length (ftable s)" "f \<noteq> f0" "f_ref (fget f s) = 0" and ut: "u = fupd f (\<lambda>x. x\<lparr>f_ref := 1\<rparr>) t"
      using c t(3) f0 Some by (auto simp: fget_fupd split: if_splits)
    have "f_type (fget f0 s) = FD_NONE" "f_type (fget f s) = FD_NONE" using files_okD(3) [OF ok] f0 f by blast+
    moreover have "fget g u = (if g = f \<or> g = f0 then (fget g s)\<lparr>f_ref := 1\<rparr> else fget g s)" "length (ftable u) = length (ftable s)" for g
      using f f0 by (simp_all add: ut t(3) fget_fupd)
    ultimately show ?thesis unfolding Some option.case
      by (intro pipe_setup_ok [OF u]) (use f f0 in \<open>auto\<close>)
  qed
qed

lemma pipealloc_ok:
  assumes ok: "files_ok s" and h: "held s = {}"
  shows "wpt (pipe_or_not s) Q (pipealloc s)"
  unfolding pipealloc_def
proof (subst wpt_bindr, rule wpt_post [OF filealloc_ok [OF ok h]], clarify)
  fix f0 t
  assume t: "files_ok t" "held t = {}" and c: "case f0 of None \<Rightarrow> t = s
    | Some f \<Rightarrow> f < length (ftable s) \<and> f_ref (fget f s) = 0 \<and> t = fupd f (\<lambda>x. x\<lparr>f_ref := 1\<rparr>) s"
  show "wpt (pipe_or_not s) Q (case f0 of None \<Rightarrow> pipe_bad None None t
      | Some f0 \<Rightarrow> bindr (filealloc t) (\<lambda>(f1, s). case f1 of None \<Rightarrow> pipe_bad (Some f0) None s
      | Some f1 \<Rightarrow> pipe_setup f0 f1 s))"
  proof (cases f0)
    case None
    have "wpt (pipe_or_not s) Q (pipe_bad None None s)" by (intro pipe_bad_or_not pipe_bad_ok [OF ok h]) auto
    then show ?thesis using c None by simp
  next
    case (Some f)
    show ?thesis unfolding Some option.case by (rule pipealloc_second [OF ok t]) (use c Some in auto)
  qed
qed

section \<open>Reading and writing keep the invariant\<close>

lemma set_pipe_ok:
  assumes ok: "files_ok s" and pp: "pipes s p = Some pp" and pq: "readopen pq = readopen pp" "writeopen pq = writeopen pp" "pipe_wf pq"
  shows "files_ok (set_pipe p pq s)"
proof -
  have "refs (set_pipe p pq s) = refs s" by (rule refs_cong) (simp add: set_pipe_def)
  moreover have "end_open (fget g s) pq" if "pipe_end g s" "f_pipe (fget g s) = p" for g
    using files_okD(5) [OF ok that(1)] that(2) pp pq by (simp add: end_open_def)
  moreover have "kmem_wf (set_pipe p pq s)" "ftable (set_pipe p pq s) = ftable s"
    using files_okD(1) [OF ok] by (simp_all add: set_pipe_def kmem_wf_def)
  ultimately show ?thesis
    using files_okD(7) [OF ok pp] pq by (intro files_ok_pipes [OF ok, where p = p]) (auto simp: set_pipe_def)
qed

lemma files_ok_sleep [simp]:
  "files_ok (pupd me f s) = files_ok s" "files_ok (s\<lparr>pmem := m\<rparr>) = files_ok s"
  by (rule files_ok_cong; simp add: pupd_def)+

lemma write_files:
  assumes "files_ok s" "at_pipe p {LPipe p} me s"
  shows "wp (\<lambda>(rc, s'). files_ok s') files_ok (pipewrite_loop k p addr n s)"
  using assms
proof (induction k arbitrary: s)
  case 0
  then show ?case using wakeup_pipe(1) [of s p] by (simp add: at_pipe_def wp_eq)
next
  case (Suc k)
  have h: "held s = {LPipe p}" "cur s = Some me" "me < length (ptable s)" using Suc.prems(2) by (simp_all add: at_pipe_def)
  obtain pp where pp: "pipes s p = Some pp" "pipe_wf pp" using Suc.prems(2) by (auto simp: at_pipe_def pipe_ok_def)
  define w where "w = wakeup1 (ChPipeR p) s"
  have w: "wakeup (ChPipeR p) s = Inr w" "held w = {LPipe p}" "cur w = Some me" "me < length (ptable w)" "files_ok w"
    using wakeup_pipe(1) [of s p] h Suc.prems(1) by (simp_all add: w_def) (simp_all add: wakeup1_def)
  note sl = sleep_total [OF w(3,2) _ w(4), of "ChPipeW p"]
  show ?case
  proof (cases "nwrite pp = nread pp + 512")
    case True
    then show ?thesis using pp h w sl Suc.prems(1) by (simp add: pipe_at_def myproc_def wp_eq)
  next
    case False
    let ?t = "\<lambda>b. set_pipe p (pp\<lparr>pi_data := (pi_data pp)[ring_slot 512 (nwrite pp) := b], nwrite := nwrite pp + 1\<rparr>) s"
    have "wp (\<lambda>(rc, s'). files_ok s') files_ok (pipewrite_loop k p addr n (?t b))" for b
    proof (rule Suc.IH)
      note pb = push_byte [OF pp False, of b]
      then show "at_pipe p {LPipe p} me (?t b)" using h by (simp add: at_pipe_def) (simp add: set_pipe_def)
      show "files_ok (?t b)"
        by (rule set_pipe_ok [OF Suc.prems(1) pp(1)]) (use pb(2) in \<open>auto simp: pipe_ok_def set_pipe_def\<close>)
    qed
    then have "wp (\<lambda>bs. wp (\<lambda>(rc, s'). files_ok s') files_ok (pipewrite_loop k p addr n (?t (hd bs)))) files_ok
        (uload (addr + of_nat (nat n - Suc k)) 1 s)"
      by (intro wp_post [OF length_uload]) simp
    then show ?thesis using False pp by (simp add: pipe_at_def wp_bindr del: uload.simps)
  qed
qed

lemma read_copy_files:
  assumes "files_ok s" "pipe_ok p s"
  shows "wp (\<lambda>(i, s'). files_ok s' \<and> held s' = held s) Q (piperead_copy k i p addr s)"
  using assms
proof (induction k arbitrary: i s)
  case (Suc k)
  obtain pp where pp: "pipes s p = Some pp" "pipe_wf pp" using Suc.prems(2) by (auto simp: pipe_ok_def)
  show ?case
  proof (cases "nread pp = nwrite pp")
    case False
    let ?v = "addr + of_nat i" and ?b = "pi_data pp ! ring_slot 512 (nread pp)"
    have "wp (\<lambda>u. wp (\<lambda>(i, s'). files_ok s' \<and> held s' = held s) Q
        (piperead_copy k (Suc i) p addr (set_pipe p (pp\<lparr>nread := nread pp + 1\<rparr>) u))) Q (ustore ?v [?b] s)"
    proof (rule wp_post [OF ustore_frame])
      fix u assume u: "u = s\<lparr>pmem := pmem u\<rparr>"
      define t where "t = (set_pipe p (pp\<lparr>nread := nread pp + 1\<rparr>) s)\<lparr>pmem := pmem u\<rparr>"
      have ut: "set_pipe p (pp\<lparr>nread := nread pp + 1\<rparr>) u = t"
        unfolding t_def by (subst u) (simp add: set_pipe_def)
      note pb = pop_byte [OF pp False]
      have "files_ok (set_pipe p (pp\<lparr>nread := nread pp + 1\<rparr>) s)"
        by (rule set_pipe_ok [OF Suc.prems(1) pp(1)]) (use pb(2) in \<open>auto simp: pipe_ok_def set_pipe_def\<close>)
      then have "files_ok t" "pipe_ok p t" "held t = held s" using pb(2) by (simp_all add: t_def) (simp add: set_pipe_def)
      from Suc.IH [OF this(1,2)] this(3) show "wp (\<lambda>(i, s'). files_ok s' \<and> held s' = held s) Q
          (piperead_copy k (Suc i) p addr (set_pipe p (pp\<lparr>nread := nread pp + 1\<rparr>) u))"
        unfolding ut by simp
    qed
    then show ?thesis using False pp by (simp add: pipe_at_def wp_bindr del: ustore.simps)
  qed (use pp Suc.prems in \<open>simp add: pipe_at_def\<close>)
qed simp

lemma read_files:
  assumes "files_ok s" "at_pipe p {LPipe p} me s"
  shows "wp (\<lambda>(rc, s'). files_ok s') files_ok (piperead_wait p addr n s)"
proof -
  have h: "held s = {LPipe p}" "cur s = Some me" "me < length (ptable s)" "pipe_ok p s" using assms(2) by (simp_all add: at_pipe_def)
  obtain pp where pp: "pipes s p = Some pp" "pipe_wf pp" using h(4) by (auto simp: pipe_ok_def)
  note sl = sleep_total [OF h(2,1) _ h(3), of "ChPipeR p"]
  have "wp (\<lambda>(i, s'). wp (\<lambda>(rc, s'). files_ok s') files_ok
      (bindr (wakeup (ChPipeW p) s') (\<lambda>s. bindr (release (LPipe p) s) (\<lambda>s. Inr (int i, s))))) files_ok (piperead_copy (nat n) 0 p addr s)"
  proof (rule wp_post [OF read_copy_files [OF assms(1) h(4)]], clarify)
    fix i u assume u: "files_ok u" "held u = held s"
    then have "held (wakeup1 (ChPipeW p) u) = {LPipe p}" "wakeup (ChPipeW p) u = Inr (wakeup1 (ChPipeW p) u)"
      using h(1) wakeup_pipe(2) [of u p] by (simp_all add: wakeup1_def)
    then show "wp (\<lambda>(rc, s'). files_ok s') files_ok
        (bindr (wakeup (ChPipeW p) u) (\<lambda>s. bindr (release (LPipe p) s) (\<lambda>s. Inr (int i, s))))"
      using u(1) by simp
  qed
  then show ?thesis
    using pp h sl assms(1) by (simp add: piperead_wait_def pipe_at_def myproc_def wp_bindr case_prod_unfold wp_eq)
qed

lemma wpm_wp: "wpm P Q r \<Longrightarrow> wp P' Q' r \<Longrightarrow> wpm (\<lambda>x. P x \<and> P' x) (\<lambda>t. Q t \<and> Q' t) r"
  by (auto simp: wpm_def wp_def split: sum.splits stop.splits)

lemma pipe_io_files:
  assumes ok: "files_ok s" and e: "pipe_end f s" and h: "held s = {}" "cur s = Some me" "me < length (ptable s)"
  defines "p \<equiv> f_pipe (fget f s)"
  shows "wpm (\<lambda>(rc, s'). files_ok s' \<and> held s' = {}) (\<lambda>t. files_ok t \<and> held t = {LPtable}) (pipewrite p addr n s)"
    "wpm (\<lambda>(rc, s'). files_ok s' \<and> held s' = {}) (\<lambda>t. files_ok t \<and> held t = {LPtable}) (piperead p addr n s)"
proof -
  have at: "at_pipe p {} me s"
    using files_okD(5) [OF ok e] files_okD(7) [OF ok, of p] h by (auto simp: at_pipe_def pipe_ok_def p_def)
  note en = enter_pipe [OF at] and f = files_ok_upds(1) [THEN iffD2, OF ok]
  have "wpm (\<lambda>r. wrote_pipe (nat n) p addr n me (s\<lparr>held := {LPipe p}\<rparr>) r \<and> (case r of (rc, s') \<Rightarrow> files_ok s'))
      (\<lambda>t. write_sleeps (nat n) p addr me (s\<lparr>held := {LPipe p}\<rparr>) t \<and> files_ok t) (pipewrite_loop (nat n) p addr n (s\<lparr>held := {LPipe p}\<rparr>))"
    by (rule wpm_wp [OF write_loop_total [OF en(2)] write_files [OF f en(2)]]) simp_all
  then show "wpm (\<lambda>(rc, s'). files_ok s' \<and> held s' = {}) (\<lambda>t. files_ok t \<and> held t = {LPtable}) (pipewrite p addr n s)"
    unfolding pipewrite_def en(1) bindr_simps by (rule wpm_mono) (auto simp: wrote_pipe_def write_sleeps_def)
  have "wpm (\<lambda>r. read_pipe p addr n me (s\<lparr>held := {LPipe p}\<rparr>) r \<and> (case r of (rc, s') \<Rightarrow> files_ok s'))
      (\<lambda>t. read_sleeps p me (s\<lparr>held := {LPipe p}\<rparr>) t \<and> files_ok t) (piperead_wait p addr n (s\<lparr>held := {LPipe p}\<rparr>))"
    by (rule wpm_wp [OF read_wait_total [OF en(2)] read_files [OF f en(2)]])
  then show "wpm (\<lambda>(rc, s'). files_ok s' \<and> held s' = {}) (\<lambda>t. files_ok t \<and> held t = {LPtable}) (piperead p addr n s)"
    unfolding piperead_def en(1) bindr_simps by (rule wpm_mono) (auto simp: read_pipe_def read_sleeps_def)
qed


definition file_boot :: file_state where
  "file_boot = pipe_boot\<lparr>npages := 1, k_end := 0, core_map := [\<lparr>available = 0, user = 0, cm_va = 0, ref = 1\<rparr>],
     ftable := [\<lparr>f_type = FD_PIPE, f_ref = 1, readable = False, writable = True, f_pipe = page_va 0, f_ip = None, f_off = 0\<rparr>],
     pipes := [page_va 0 \<mapsto> \<lparr>pi_data = replicate 512 7, nread = 5, nwrite = 9, readopen = False, writeopen = True\<rparr>]\<rparr>"

lemma file_boot_ok: "files_ok file_boot" "held file_boot = {}" "cur file_boot = Some 0" "0 < length (ptable file_boot)"
proof -
  have "refs file_boot (page_va 0) = 1"
    by (subst refs_page_va) (simp_all add: file_boot_def kmem_wf_def)
  then show "files_ok file_boot"
    by (auto simp: files_ok_def file_boot_def kmem_wf_def pipe_end_def fget_def end_open_def pipe_wf_def split: if_splits)
  show "held file_boot = {}" "cur file_boot = Some 0" "0 < length (ptable file_boot)"
    using pipe_boot_ok(1) by (simp_all add: file_boot_def at_pipe_def)
qed


end
