(* ===== verification/User_Grep.thy ===== *)
theory User_Grep
  imports Kernel_Prelude
begin

text \<open>
  The program grep, user/grep.c. A C string is the list of its bytes without the terminating
  zero. The matcher is shown to decide membership in the language of the pattern, and the
  loop over the input to print the matching lines.
\<close>

section \<open>The matcher\<close>

abbreviation (input) CARET :: u8 where "CARET \<equiv> 0x5E"
abbreviation (input) DOLLAR :: u8 where "DOLLAR \<equiv> 0x24"
abbreviation (input) DOT :: u8 where "DOT \<equiv> 0x2E"
abbreviation (input) STAR :: u8 where "STAR \<equiv> 0x2A"
abbreviation (input) NL :: u8 where "NL \<equiv> 0x0A"

function matchhere :: "u8 list \<Rightarrow> u8 list \<Rightarrow> bool" and matchstar :: "u8 \<Rightarrow> u8 list \<Rightarrow> u8 list \<Rightarrow> bool" where
  "matchhere re text =
     (if re = [] then True
      else if tl re \<noteq> [] \<and> hd (tl re) = STAR then matchstar (hd re) (tl (tl re)) text
      else if hd re = DOLLAR \<and> tl re = [] then text = []
      else if text \<noteq> [] \<and> (hd re = DOT \<or> hd re = hd text) then matchhere (tl re) (tl text)
      else False)"
| "matchstar c re text =
     (if matchhere re text then True
      else if text \<noteq> [] \<and> (hd text = c \<or> c = DOT) then matchstar c re (tl text)
      else False)"
  by pat_completeness auto

termination
  by (relation "measure (\<lambda>x. case x of Inl (re, text) \<Rightarrow> 2 * (length re + length text)
       | Inr (c, re, text) \<Rightarrow> 2 * (length re + length text) + 1)")
    (auto simp: neq_Nil_conv)

declare matchhere.simps [simp del] matchstar.simps [simp del]

text \<open>The loop of \<open>match\<close> tries every suffix, the empty one included.\<close>

fun match_from :: "u8 list \<Rightarrow> u8 list \<Rightarrow> bool" where
  "match_from re [] = matchhere re []"
| "match_from re (t # ts) = (if matchhere re (t # ts) then True else match_from re ts)"

definition match :: "u8 list \<Rightarrow> u8 list \<Rightarrow> bool" where
  "match re text =
     (if re \<noteq> [] \<and> hd re = CARET then matchhere (tl re) text else match_from re text)"

section \<open>The loop over the input\<close>

lemma after_newline: "x \<in> set p \<Longrightarrow> length (tl (dropWhile (\<lambda>b. b \<noteq> x) p)) < length p"
  by (induction p) auto

text \<open>The lines of the buffer from \<open>p\<close> on: what is written, and the bytes after the last newline.\<close>

function grep_lines :: "u8 list \<Rightarrow> u8 list \<Rightarrow> u8 list \<times> u8 list" where
  "grep_lines pattern p =
     (if NL \<in> set (takeWhile (\<lambda>b. b \<noteq> 0) p) then
        let line = takeWhile (\<lambda>b. b \<noteq> NL) p;
            (out, rest) = grep_lines pattern (tl (dropWhile (\<lambda>b. b \<noteq> NL) p))
        in ((if match pattern line then line @ [NL] else []) @ out, rest)
      else ([], p))"
  by pat_completeness auto

termination
  by (relation "measure (\<lambda>(pattern, p). length p)") (auto dest!: set_takeWhileD intro: after_newline simp del: length_tl)

declare grep_lines.simps [simp del]

text \<open>
  \<open>chunks\<close> are the bytes the successive calls of \<open>read\<close> return, and \<open>kept\<close> the first \<open>m\<close> bytes of \<open>buf\<close>. A
  buffer without a newline is dropped.
\<close>

fun grep :: "u8 list \<Rightarrow> u8 list \<Rightarrow> u8 list list \<Rightarrow> u8 list" where
  "grep pattern kept [] = []"
| "grep pattern kept (chunk # chunks) =
     (let (out, rest) = grep_lines pattern (kept @ chunk);
          kept' = (if length rest = length (kept @ chunk) then [] else rest)
      in out @ grep pattern kept' chunks)"

section \<open>The language of a pattern\<close>

text \<open>A pattern without its leading \<open>^\<close>: single characters, starred ones, and an anchor at the end.\<close>

datatype item = One u8 | Star u8

fun items :: "u8 list \<Rightarrow> item list \<times> bool" where
  "items [] = ([], False)"
| "items [c] = (if c = DOLLAR then ([], True) else ([One c], False))"
| "items (c # d # re) =
     (if d = STAR then apfst (Cons (Star c)) (items re) else apfst (Cons (One c)) (items (d # re)))"

definition accepts :: "u8 \<Rightarrow> u8 \<Rightarrow> bool" where
  "accepts c x \<longleftrightarrow> c = DOT \<or> c = x"

inductive_set lang :: "(item list \<times> u8 list) set" where
  empty: "([], []) \<in> lang"
| one: "accepts c x \<Longrightarrow> (its, w) \<in> lang \<Longrightarrow> (One c # its, x # w) \<in> lang"
| star_end: "(its, w) \<in> lang \<Longrightarrow> (Star c # its, w) \<in> lang"
| star_more: "accepts c x \<Longrightarrow> (Star c # its, w) \<in> lang \<Longrightarrow> (Star c # its, x # w) \<in> lang"

inductive_cases lang_emptyE: "([], w) \<in> lang"
inductive_cases lang_oneE: "(One c # its, w) \<in> lang"
inductive_cases lang_starE: "(Star c # its, w) \<in> lang"

text \<open>A prefix of \<open>text\<close>, or all of it when the pattern ends in \<open>$\<close>, is in the language.\<close>

definition prefix_in :: "item list \<times> bool \<Rightarrow> u8 list \<Rightarrow> bool" where
  "prefix_in r text \<longleftrightarrow> (\<exists>w v. text = w @ v \<and> (fst r, w) \<in> lang \<and> (snd r \<longrightarrow> v = []))"

lemma prefix_inI: "(its, w) \<in> lang \<Longrightarrow> (e \<longrightarrow> v = []) \<Longrightarrow> text = w @ v \<Longrightarrow> prefix_in (its, e) text"
  unfolding prefix_in_def by (intro exI [of _ w] exI [of _ v]) simp

lemma prefix_inE:
  assumes "prefix_in (its, e) text"
  obtains w v where "text = w @ v" "(its, w) \<in> lang" "e \<longrightarrow> v = []"
  using assms unfolding prefix_in_def by auto

lemma prefix_in_empty: "prefix_in ([], e) text \<longleftrightarrow> (e \<longrightarrow> text = [])"
  by (auto simp: prefix_in_def intro: lang.empty elim: lang_emptyE)

lemma prefix_in_one:
  "prefix_in (One c # its, e) text \<longleftrightarrow> (\<exists>x ts. text = x # ts \<and> accepts c x \<and> prefix_in (its, e) ts)"
proof
  assume "prefix_in (One c # its, e) text"
  then obtain w v where w: "text = w @ v" "(One c # its, w) \<in> lang" "e \<longrightarrow> v = []" by (rule prefix_inE)
  from w(2) obtain x w' where "w = x # w'" "accepts c x" "(its, w') \<in> lang" by (rule lang_oneE)
  with w show "\<exists>x ts. text = x # ts \<and> accepts c x \<and> prefix_in (its, e) ts"
    by (intro exI [of _ x] exI [of _ "w' @ v"]) (simp add: prefix_inI)
next
  assume "\<exists>x ts. text = x # ts \<and> accepts c x \<and> prefix_in (its, e) ts"
  then obtain x ts where x: "text = x # ts" "accepts c x" "prefix_in (its, e) ts" by blast
  from x(3) obtain w v where w: "ts = w @ v" "(its, w) \<in> lang" "e \<longrightarrow> v = []" by (rule prefix_inE)
  show "prefix_in (One c # its, e) text"
    by (rule prefix_inI [OF lang.one [OF x(2) w(2)] w(3)]) (simp add: x w)
qed

lemma prefix_in_star:
  "prefix_in (Star c # its, e) text \<longleftrightarrow>
     prefix_in (its, e) text \<or> (\<exists>x ts. text = x # ts \<and> accepts c x \<and> prefix_in (Star c # its, e) ts)"
proof
  assume "prefix_in (Star c # its, e) text"
  then obtain w v where w: "text = w @ v" "(Star c # its, w) \<in> lang" "e \<longrightarrow> v = []" by (rule prefix_inE)
  from w(2) show "prefix_in (its, e) text \<or> (\<exists>x ts. text = x # ts \<and> accepts c x \<and> prefix_in (Star c # its, e) ts)"
  proof (rule lang_starE)
    assume "(its, w) \<in> lang"
    from prefix_inI [OF this w(3,1)] show ?thesis ..
  next
    fix x w' assume x: "w = x # w'" "accepts c x" "(Star c # its, w') \<in> lang"
    have "prefix_in (Star c # its, e) (w' @ v)" by (rule prefix_inI [OF x(3) w(3) refl])
    with x w(1) show ?thesis by simp
  qed
next
  assume "prefix_in (its, e) text \<or> (\<exists>x ts. text = x # ts \<and> accepts c x \<and> prefix_in (Star c # its, e) ts)"
  then show "prefix_in (Star c # its, e) text"
  proof (elim disjE exE conjE)
    assume "prefix_in (its, e) text"
    then obtain w v where w: "text = w @ v" "(its, w) \<in> lang" "e \<longrightarrow> v = []" by (rule prefix_inE)
    show ?thesis by (rule prefix_inI [OF lang.star_end [OF w(2)] w(3,1)])
  next
    fix x ts assume x: "text = x # ts" "accepts c x" "prefix_in (Star c # its, e) ts"
    from x(3) obtain w v where w: "ts = w @ v" "(Star c # its, w) \<in> lang" "e \<longrightarrow> v = []" by (rule prefix_inE)
    show ?thesis by (rule prefix_inI [OF lang.star_more [OF x(2) w(2)] w(3)]) (simp add: x w)
  qed
qed

lemma items_Cons:
  "items (c # re) = (if re \<noteq> [] \<and> hd re = STAR then apfst (Cons (Star c)) (items (tl re))
     else if c = DOLLAR \<and> re = [] then ([], True) else apfst (Cons (One c)) (items re))"
  by (cases re) simp_all

lemma matchhere_lang: "matchhere re text \<longleftrightarrow> prefix_in (items re) text"
  and matchstar_lang: "matchstar c re text \<longleftrightarrow> prefix_in (apfst (Cons (Star c)) (items re)) text"
proof (induction re "text" and c re "text" rule: matchhere_matchstar.induct)
  case (1 re t)
  show ?case
  proof (cases re)
    case Nil
    then show ?thesis by (simp add: matchhere.simps prefix_in_empty)
  next
    case (Cons c re')
    consider (star) "re' \<noteq> []" "hd re' = STAR" | (end') "\<not> (re' \<noteq> [] \<and> hd re' = STAR)" "c = DOLLAR" "re' = []"
      | (one) "\<not> (re' \<noteq> [] \<and> hd re' = STAR)" "\<not> (c = DOLLAR \<and> re' = [])" by blast
    then show ?thesis
    proof cases
      case star
      then show ?thesis using 1(1) Cons by (simp add: matchhere.simps [of "c # re'"] items_Cons)
    next
      case end'
      then show ?thesis using Cons by (simp add: matchhere.simps [of "[DOLLAR]"] prefix_in_empty)
    next
      case one
      obtain its e where ie: "items re' = (its, e)" by fastforce
      have "prefix_in (items re) t \<longleftrightarrow> (\<exists>x ts. t = x # ts \<and> accepts c x \<and> prefix_in (items re') ts)"
        using one Cons ie prefix_in_one [of c its e t] by (auto simp: items_Cons)
      moreover have "matchhere re t \<longleftrightarrow> t \<noteq> [] \<and> accepts c (hd t) \<and> matchhere re' (tl t)"
        using one Cons by (auto simp: matchhere.simps [of "c # re'"] accepts_def)
      moreover have "matchhere re' (tl t) \<longleftrightarrow> prefix_in (items re') (tl t)" if "t \<noteq> []" "accepts c (hd t)"
        using 1(2) one Cons that by (auto simp: accepts_def)
      ultimately show ?thesis by (cases t) auto
    qed
  qed
next
  case (2 c re t)
  obtain its e where ie: "items re = (its, e)" by fastforce
  have "matchstar c re t \<longleftrightarrow> matchhere re t \<or> (t \<noteq> [] \<and> accepts c (hd t) \<and> matchstar c re (tl t))"
    by (subst matchstar.simps) (auto simp: accepts_def)
  moreover have "matchstar c re (tl t) \<longleftrightarrow> prefix_in (Star c # its, e) (tl t)" if "\<not> matchhere re t" "t \<noteq> []" "accepts c (hd t)"
    using 2(2) that ie by (auto simp: accepts_def)
  moreover have "matchhere re t \<longleftrightarrow> prefix_in (its, e) t" using 2(1) ie by simp
  ultimately show ?case using prefix_in_star [of c its e t] ie by (cases t) auto
qed

section \<open>Matching anywhere in a line\<close>

lemma match_from_lang: "match_from re line \<longleftrightarrow> (\<exists>u v. line = u @ v \<and> prefix_in (items re) v)"
proof (induction line)
  case (Cons t ts)
  have "(\<exists>u v. t # ts = u @ v \<and> prefix_in (items re) v) \<longleftrightarrow>
      prefix_in (items re) (t # ts) \<or> (\<exists>u v. ts = u @ v \<and> prefix_in (items re) v)"
    by (auto simp: Cons_eq_append_conv)
  then show ?case using Cons.IH by (simp add: matchhere_lang)
qed (simp add: matchhere_lang)

text \<open>
  C13. grep's matcher decides the language of its pattern: \<open>match re line\<close> answers true exactly when some
  piece of the line, at its start when the pattern begins with \<open>^\<close> and up to its end when it ends in
  \<open>$\<close>, is a sequence of characters described by the rest of the pattern, where \<open>.\<close> stands for any
  character and \<open>c*\<close> for any number of \<open>c\<close>. It terminates on every input.
\<close>

theorem match_decides_pattern:
  "match re line \<longleftrightarrow>
     (let anchored = (re \<noteq> [] \<and> hd re = CARET);
          (its, at_end) = items (if anchored then tl re else re)
      in \<exists>u w v. line = u @ w @ v \<and> (its, w) \<in> lang \<and> (anchored \<longrightarrow> u = []) \<and> (at_end \<longrightarrow> v = []))"
proof (cases "re \<noteq> [] \<and> hd re = CARET")
  case True
  obtain its e where "items (tl re) = (its, e)" by fastforce
  with True show ?thesis by (simp add: match_def matchhere_lang prefix_in_def)
next
  case False
  obtain its e where ie: "items re = (its, e)" by fastforce
  have "match re line \<longleftrightarrow> (\<exists>u x. line = u @ x \<and> prefix_in (its, e) x)" using False ie by (auto simp: match_def match_from_lang)
  also have "\<dots> \<longleftrightarrow> (\<exists>u w v. line = u @ w @ v \<and> (its, w) \<in> lang \<and> (e \<longrightarrow> v = []))"
    unfolding prefix_in_def by (metis fst_conv snd_conv)
  finally show ?thesis using False ie by auto
qed

theorem match_decides_pattern_witness:
  "match [0x61, STAR, 0x62, DOLLAR] [0x78, 0x61, 0x61, 0x62] \<and>
   (\<exists>u w. [0x78, 0x61, 0x61, 0x62 :: u8] = u @ w \<and> ([Star 0x61, One 0x62], w) \<in> lang)"
proof -
  have m: "match [0x61, STAR, 0x62, DOLLAR] [0x78, 0x61, 0x61, 0x62]" by code_simp
  have i: "items [0x61, STAR, 0x62, DOLLAR] = ([Star 0x61, One 0x62], True)" by code_simp
  show ?thesis using m match_decides_pattern [of "[0x61, STAR, 0x62, DOLLAR]" "[0x78, 0x61, 0x61, 0x62]"] by (simp add: i)
qed

section \<open>Printing the matching lines\<close>

text \<open>The complete lines of the input, and what follows the last newline.\<close>

fun lines :: "u8 list \<Rightarrow> u8 list list" where
  "lines [] = []"
| "lines (b # bs) = (if b = NL then [] # lines bs
     else if NL \<in> set bs then (b # hd (lines bs)) # tl (lines bs) else [])"

fun last_part :: "u8 list \<Rightarrow> u8 list" where
  "last_part [] = []"
| "last_part (b # bs) = (if NL \<in> set bs then last_part bs else if b = NL then bs else b # bs)"

definition matching :: "u8 list \<Rightarrow> u8 list \<Rightarrow> u8 list" where
  "matching re input = concat (map (\<lambda>l. l @ [NL]) (filter (match re) (lines input)))"

lemma lines_none: "NL \<notin> set p \<Longrightarrow> lines p = [] \<and> last_part p = p"
  by (induction p) auto

lemma lines_first:
  "NL \<in> set p \<Longrightarrow> lines p = takeWhile (\<lambda>b. b \<noteq> NL) p # lines (tl (dropWhile (\<lambda>b. b \<noteq> NL) p)) \<and>
     last_part p = last_part (tl (dropWhile (\<lambda>b. b \<noteq> NL) p))"
proof (induction p)
  case (Cons b p)
  show ?case
  proof (cases "b = NL")
    case True
    then show ?thesis using lines_none [of p] by auto
  qed (use Cons in auto)
qed simp

lemma grep_lines_eq: "0 \<notin> set p \<Longrightarrow> grep_lines re p = (matching re p, last_part p)"
proof (induction re p rule: grep_lines.induct)
  case (1 re p)
  have z: "takeWhile (\<lambda>b. b \<noteq> 0) p = p" using 1(2) by (auto simp: takeWhile_eq_all_conv)
  show ?case
  proof (cases "NL \<in> set p")
    case True
    have "set (tl (dropWhile (\<lambda>b. b \<noteq> NL) p)) \<subseteq> set p" by (metis list.set_sel(2) set_dropWhileD subsetI tl_Nil)
    then have "grep_lines re (tl (dropWhile (\<lambda>b. b \<noteq> NL) p)) =
        (matching re (tl (dropWhile (\<lambda>b. b \<noteq> NL) p)), last_part (tl (dropWhile (\<lambda>b. b \<noteq> NL) p)))"
      using 1(2) True by (intro 1(1)) (auto simp: z)
    then show ?thesis using True lines_first [OF True] by (simp add: grep_lines.simps [of re p] z matching_def)
  next
    case False
    then show ?thesis using False lines_none [OF False] by (simp add: grep_lines.simps [of re p] z matching_def)
  qed
qed

lemma last_part_sub: "set (last_part p) \<subseteq> set p" and last_part_NL: "NL \<notin> set (last_part p)"
  by (induction p) auto

lemma last_part_shorter: "length (last_part p) = length p \<longleftrightarrow> NL \<notin> set p"
proof
  assume l: "length (last_part p) = length p"
  have "length (last_part p) < length p" if "NL \<in> set p"
    using that by (induction p) (auto simp: lines_none intro: less_SucI)
  then show "NL \<notin> set p" using l by auto
qed (simp add: lines_none)

lemma lines_append: "lines (xs @ ys) = lines xs @ lines (last_part xs @ ys)"
proof (induction xs rule: length_induct)
  case (1 xs)
  show ?case
  proof (cases "NL \<in> set xs")
    case True
    let ?r = "tl (dropWhile (\<lambda>b. b \<noteq> NL) xs)"
    have "dropWhile (\<lambda>b. b \<noteq> NL) xs \<noteq> []" using True by (simp add: dropWhile_eq_Nil_conv)
    moreover have "takeWhile (\<lambda>b. b \<noteq> NL) (xs @ ys) = takeWhile (\<lambda>b. b \<noteq> NL) xs"
      "dropWhile (\<lambda>b. b \<noteq> NL) (xs @ ys) = dropWhile (\<lambda>b. b \<noteq> NL) xs @ ys"
      using takeWhile_append1 [of NL xs "\<lambda>b. b \<noteq> NL"] dropWhile_append1 [of NL xs "\<lambda>b. b \<noteq> NL"] True by simp_all
    ultimately have "lines (xs @ ys) = takeWhile (\<lambda>b. b \<noteq> NL) xs # lines (?r @ ys)"
      using lines_first [of "xs @ ys"] True by simp
    moreover have "lines (?r @ ys) = lines ?r @ lines (last_part ?r @ ys)"
      using 1 after_newline [OF True] by blast
    ultimately show ?thesis using lines_first [OF True] by simp
  qed (use lines_none in auto)
qed

lemma grep_matching:
  assumes "\<forall>c \<in> set chunks. NL \<in> set c \<and> 0 \<notin> set c" "0 \<notin> set kept" "NL \<notin> set kept"
  shows "grep re kept chunks = matching re (kept @ concat chunks)"
  using assms
proof (induction chunks arbitrary: kept)
  case Nil
  then show ?case by (simp add: matching_def lines_none)
next
  case (Cons c cs)
  let ?k = "last_part (kept @ c)"
  have "length ?k \<noteq> length (kept @ c)" using Cons.prems(1) last_part_shorter [of "kept @ c"] by simp
  then have "grep re kept (c # cs) = matching re (kept @ c) @ grep re ?k cs"
    using Cons.prems by (simp add: grep_lines_eq)
  also have "grep re ?k cs = matching re (?k @ concat cs)"
    using Cons.prems last_part_sub [of "kept @ c"] last_part_NL by (intro Cons.IH) auto
  finally show ?case using lines_append [of "kept @ c" "concat cs"] by (simp add: matching_def)
qed



text \<open>
  A piece without a newline is lost: here the line \<open>ab\<close> arrives in two pieces and the pattern \<open>a\<close> finds
  nothing.
\<close>

lemma grep_drops_partial_line: "grep [0x61] [] [[0x61], [0x62, NL]] = []"
  by code_simp

end
