(* ===== verification/User_Lib.thy ===== *)
theory User_Lib
  imports Screen
begin

text \<open>
  The library of the user programs: user/ulib.c, the formatted output of user/printf.c, and its
  variant user/aprintf.c for processes whose system calls are served by the guest kernel. A C
  string is a HOL string without the terminating zero; the output of \<open>printf\<close> is the characters it
  writes, that of \<open>aprintf\<close> the messages it sends. The loops that compute digits are those of the
  kernel's \<open>cprintf\<close> (theory \<open>Screen\<close>).
\<close>

section \<open>ulib.c\<close>

abbreviation (input) ord :: "char \<Rightarrow> int" where "ord c \<equiv> of_char c"

fun strcmp :: "string \<Rightarrow> string \<Rightarrow> int" where
  "strcmp (p # ps) (q # qs) = (if p = q then strcmp ps qs else ord p - ord q)"
| "strcmp (p # ps) [] = ord p"
| "strcmp [] (q # qs) = - ord q"
| "strcmp [] [] = 0"

text \<open>\<open>strchr\<close>: the string from the first \<open>c\<close> on.\<close>

fun strchr :: "string \<Rightarrow> char \<Rightarrow> string option" where
  "strchr [] c = None"
| "strchr (b # bs) c = (if b = c then Some (b # bs) else strchr bs c)"

text \<open>\<open>strcpy\<close> copies up to and including the zero; it runs on when there is none.\<close>

partial_function (option) strcpy :: "mem \<Rightarrow> u64 \<Rightarrow> u64 \<Rightarrow> mem option" where
  "strcpy m s t = (let m' = m(s := m t) in if m t = 0 then Some m' else strcpy m' (s + 1) (t + 1))"

text \<open>\<open>memmove\<close> of ulib.c copies upwards in every case.\<close>

fun u_memmove :: "mem \<Rightarrow> u64 \<Rightarrow> u64 \<Rightarrow> nat \<Rightarrow> mem" where
  "u_memmove m dst src 0 = m"
| "u_memmove m dst src (Suc n) = u_memmove (m(dst := m src)) (dst + 1) (src + 1) n"

text \<open>\<open>atoi\<close>: the accumulator is a C int.\<close>

definition is_digit :: "char \<Rightarrow> bool" where
  "is_digit c \<longleftrightarrow> ord (CHR ''0'') \<le> ord c \<and> ord c \<le> ord (CHR ''9'')"

fun atoi_loop :: "string \<Rightarrow> u32 \<Rightarrow> u32" where
  "atoi_loop [] n = n"
| "atoi_loop (c # s) n =
     (if is_digit c then atoi_loop s (n * 10 + word_of_int (ord c) - word_of_int (ord (CHR ''0''))) else n)"

definition atoi :: "string \<Rightarrow> u32" where
  "atoi s = atoi_loop s 0"

text \<open>
  \<open>gets\<close>: \<open>reads\<close> are the results of the successive calls of \<open>read\<close> for one byte, None for a result below
  1. The result is the string left in \<open>buf\<close> and the reads that were not made.
\<close>

fun gets_loop :: "nat \<Rightarrow> char option list \<Rightarrow> string \<times> char option list" where
  "gets_loop 0 reads = ([], reads)"
| "gets_loop (Suc n) [] = ([], [])"
| "gets_loop (Suc n) (None # reads) = ([], reads)"
| "gets_loop (Suc n) (Some c # reads) =
     (if c = CHR 0x0A \<or> c = CHR 0x0D then ([c], reads)
      else let (s, r) = gets_loop n reads in (c # s, r))"

definition gets :: "int \<Rightarrow> char option list \<Rightarrow> string \<times> char option list" where
  "gets mx reads = gets_loop (nat (mx - 1)) reads"

section \<open>printf.c\<close>

definition digit_upper :: "nat \<Rightarrow> char" where
  "digit_upper d = ''0123456789ABCDEF'' ! d"

definition u_printint :: "u32 \<Rightarrow> nat \<Rightarrow> bool \<Rightarrow> string" where
  "u_printint xx base with_sign =
     (let neg = (with_sign \<and> sint xx < 0);
          x = (if neg then - xx else xx);
          buf = map digit_upper (digit_loop base (unat x)) @ (if neg then ''-'' else [])
      in rev buf)"

text \<open>The parameter of \<open>printint64\<close> is an int; \<open>x\<close> is its value, or its negation, widened to 64 bits.\<close>

definition u_printint64 :: "u32 \<Rightarrow> nat \<Rightarrow> bool \<Rightarrow> string" where
  "u_printint64 xx base with_sign =
     (let neg = (with_sign \<and> sint xx < 0);
          x = (scast (if neg then - xx else xx) :: u64);
          buf = map digit_char (digit_loop base (unat x)) @ (if neg then ''-'' else [])
      in rev buf)"

text \<open>
  The characters the loop of \<open>printf\<close> writes. \<open>mode\<close> is None when \<open>state\<close> is 0 and \<open>Some lflag\<close> when it is
  \<open>'%'\<close>. There is no defined result when an argument is missing or of the other kind.
\<close>

fun uformat :: "string \<Rightarrow> bool option \<Rightarrow> varg list \<Rightarrow> string option" where
  "uformat [] mode args = Some []"
| "uformat (c # fmt) None args =
     (if c = CHR ''%'' then uformat fmt (Some False) args
      else map_option (Cons c) (uformat fmt None args))"
| "uformat (c # fmt) (Some lflag) args =
     (if c = CHR ''l'' then uformat fmt (Some True) args
      else if c = CHR ''d'' then
        (case args of VWord w # args \<Rightarrow>
           map_option (append (if lflag then u_printint64 (ucast w) 10 True else u_printint (ucast w) 10 True))
             (uformat fmt None args)
         | _ \<Rightarrow> None)
      else if c = CHR ''x'' \<or> c = CHR ''p'' then
        (case args of VWord w # args \<Rightarrow>
           map_option (append (if lflag then u_printint64 (ucast w) 16 False else u_printint (ucast w) 16 False))
             (uformat fmt None args)
         | _ \<Rightarrow> None)
      else if c = CHR ''s'' then
        (case args of VStr p # args \<Rightarrow>
           map_option (append (case p of None \<Rightarrow> ''(null)'' | Some t \<Rightarrow> t)) (uformat fmt None args)
         | _ \<Rightarrow> None)
      else if c = CHR ''%'' then map_option (Cons c) (uformat fmt None args)
      else map_option (append [CHR ''%'', c]) (uformat fmt None args))"

definition printf :: "string \<Rightarrow> varg list \<Rightarrow> string option" where
  "printf fmt args = uformat fmt None args"

section \<open>aprintf.c\<close>

text \<open>The messages of inc/syscall_message.h that the programs use.\<close>

datatype msg_arg = ArgInt u32 | ArgChar char

abbreviation (input) MESSAGE_WRITE :: nat where "MESSAGE_WRITE \<equiv> 1"

definition aputc :: "u32 \<Rightarrow> char \<Rightarrow> nat \<times> msg_arg list" where
  "aputc fd c = (MESSAGE_WRITE, [ArgInt 3, ArgInt fd, ArgChar c, ArgInt 1])"

definition aprintint :: "u32 \<Rightarrow> u32 \<Rightarrow> nat \<Rightarrow> bool \<Rightarrow> (nat \<times> msg_arg list) list" where
  "aprintint fd xx base with_sign =
     (let neg = (with_sign \<and> sint xx < 0);
          x = (if neg then - xx else xx);
          buf = map digit_upper (digit_loop base (unat x)) @ (if neg then ''-'' else [])
      in map (aputc fd) (rev buf))"

definition aprintint64 :: "u32 \<Rightarrow> u32 \<Rightarrow> nat \<Rightarrow> bool \<Rightarrow> (nat \<times> msg_arg list) list" where
  "aprintint64 fd xx base with_sign =
     (let neg = (with_sign \<and> sint xx < 0);
          x = (scast (if neg then - xx else xx) :: u64);
          buf = map digit_char (digit_loop base (unat x)) @ (if neg then ''-'' else [])
      in map (aputc fd) (rev buf))"

fun aformat :: "u32 \<Rightarrow> string \<Rightarrow> bool option \<Rightarrow> varg list \<Rightarrow> (nat \<times> msg_arg list) list option" where
  "aformat fd [] mode args = Some []"
| "aformat fd (c # fmt) None args =
     (if c = CHR ''%'' then aformat fd fmt (Some False) args
      else map_option (Cons (aputc fd c)) (aformat fd fmt None args))"
| "aformat fd (c # fmt) (Some lflag) args =
     (if c = CHR ''l'' then aformat fd fmt (Some True) args
      else if c = CHR ''d'' then
        (case args of VWord w # args \<Rightarrow>
           map_option (append (if lflag then aprintint64 fd (ucast w) 10 True else aprintint fd (ucast w) 10 True))
             (aformat fd fmt None args)
         | _ \<Rightarrow> None)
      else if c = CHR ''x'' \<or> c = CHR ''p'' then
        (case args of VWord w # args \<Rightarrow>
           map_option (append (if lflag then aprintint64 fd (ucast w) 16 False else aprintint fd (ucast w) 16 False))
             (aformat fd fmt None args)
         | _ \<Rightarrow> None)
      else if c = CHR ''s'' then
        (case args of VStr p # args \<Rightarrow>
           map_option (append (map (aputc fd) (case p of None \<Rightarrow> ''(null)'' | Some t \<Rightarrow> t))) (aformat fd fmt None args)
         | _ \<Rightarrow> None)
      else if c = CHR ''%'' then map_option (Cons (aputc fd c)) (aformat fd fmt None args)
      else map_option (append [aputc fd CHR ''%'', aputc fd c]) (aformat fd fmt None args))"

definition aprintf :: "u32 \<Rightarrow> string \<Rightarrow> varg list \<Rightarrow> (nat \<times> msg_arg list) list option" where
  "aprintf fd fmt args = aformat fd fmt None args"

section \<open>The two printf's agree\<close>

lemma aprintint_chars:
  "aprintint fd xx base with_sign = map (aputc fd) (u_printint xx base with_sign)"
  "aprintint64 fd xx base with_sign = map (aputc fd) (u_printint64 xx base with_sign)"
  by (simp_all add: aprintint_def u_printint_def aprintint64_def u_printint64_def Let_def)

text \<open>
  C29. \<open>aprintf\<close> sends exactly one write message for each character \<open>printf\<close> writes, in order, and has
  a defined result exactly when \<open>printf\<close> has.
\<close>

theorem aprintf_sends_printf: "aprintf fd fmt args = map_option (map (aputc fd)) (printf fmt args)"
proof -
  have "aformat fd fmt mode args = map_option (map (aputc fd)) (uformat fmt mode args)" for mode
    by (induction fmt mode args rule: uformat.induct)
      (auto simp: aprintint_chars option.map_comp o_def split: list.split varg.split)
  then show ?thesis by (simp add: aprintf_def printf_def)
qed

section \<open>Numbers survive printing and reading\<close>

lemma digit_upper_code: "d < 10 \<Longrightarrow> is_digit (digit_upper d) \<and> ord (digit_upper d) = 48 + int d"
proof -
  have "\<forall>d < 10. is_digit (digit_upper d) \<and> ord (digit_upper d) = 48 + int d" by code_simp
  then show "d < 10 \<Longrightarrow> is_digit (digit_upper d) \<and> ord (digit_upper d) = 48 + int d" by blast
qed

lemma atoi_step:
  assumes "\<forall>d \<in> set ds. d < 10"
  shows "atoi_loop (map digit_upper (rev ds) @ s) n = atoi_loop s (n * 10 ^ length ds + of_nat (digit_value 10 ds))"
  using assms
proof (induction ds arbitrary: s n)
  case (Cons d ds)
  have d: "is_digit (digit_upper d)" "ord (digit_upper d) = 48 + int d" using digit_upper_code [of d] Cons.prems by simp_all
  have "atoi_loop (map digit_upper (rev (d # ds)) @ s) n = atoi_loop (digit_upper d # s) (n * 10 ^ length ds + of_nat (digit_value 10 ds))"
    using Cons.IH [of "digit_upper d # s" n] Cons.prems by simp
  also have "\<dots> = atoi_loop s (n * 10 ^ length (d # ds) + of_nat (digit_value 10 (d # ds)))"
    using d by (simp add: algebra_simps)
  finally show ?case .
qed simp

lemma atoi_digits:
  assumes "\<forall>d \<in> set ds. d < 10" "\<not> (\<exists>c cs. rest = c # cs \<and> is_digit c)"
  shows "atoi_loop (map digit_upper (rev ds) @ rest) n = n * 10 ^ length ds + of_nat (digit_value 10 ds)"
  using atoi_step [OF assms(1), of rest n] assms(2) by (cases rest) auto

text \<open>
  C24. Printing and reading numbers are inverse: \<open>atoi\<close> applied to what \<open>printf\<close> writes for \<open>%d\<close>, also with
  something other than a digit after it, is the number printed when that is not negative;
  a negative number is printed as a minus sign and its absolute value. At most 11 characters
  are written, so that the 16-byte buffer is large enough.
\<close>

theorem printf_atoi:
  assumes "\<not> (\<exists>c cs. rest = c # cs \<and> is_digit c)"
  shows "\<exists>s. printf ''%d'' [VWord w] = Some s \<and> length s \<le> 11 \<and>
    (let x = (ucast w :: u32) in
     if 0 \<le> sint x then atoi (s @ rest) = x else hd s = CHR ''-'' \<and> atoi (tl s @ rest) = - x)"
proof -
  define x where "x = (ucast w :: u32)"
  have r: "atoi (map digit_upper (rev (digit_loop 10 (unat y))) @ rest) = y" for y :: u32
    using atoi_digits [OF _ assms, of "digit_loop 10 (unat y)" 0] digit_loop_value [of 10 "unat y"]
    by (simp add: atoi_def)
  have "unat y < 10 ^ 10" for y :: u32 using unsigned_less [of y, where ?'a = nat] by simp
  then have l: "length (digit_loop 10 (unat y)) \<le> 10" for y :: u32 by (intro digit_loop_length) simp_all
  have p: "printf ''%d'' [VWord w] = Some (u_printint x 10 True)" by (simp add: printf_def x_def)
  show ?thesis
  proof (cases "0 \<le> sint x")
    case True
    then show ?thesis using p r [of x] l [of x] by (simp add: u_printint_def x_def [symmetric] rev_map)
  next
    case False
    then show ?thesis using p r [of "- x"] l [of "- x"] by (simp add: u_printint_def x_def [symmetric] rev_map)
  qed
qed

theorem printf_atoi_witness:
  "\<exists>s. printf ''%d'' [VWord 0xFFFFFFFE] = Some s \<and> length s \<le> 11 \<and>
    (let x = (ucast (0xFFFFFFFE :: u64) :: u32) in
     if 0 \<le> sint x then atoi (s @ '' '') = x else hd s = CHR ''-'' \<and> atoi (tl s @ '' '') = - x)"
  by (rule printf_atoi) (simp add: is_digit_def)

section \<open>Copying\<close>

lemma u_memmove_up: "u_memmove m d s n = move_up m d s n"
  by (induction n arbitrary: m d s) simp_all

lemma u_memmove_copies:
  assumes "\<And>k j. k < n \<Longrightarrow> j < k \<Longrightarrow> s + of_nat k \<noteq> d + of_nat j"
  shows "u_memmove m d s n = mem_copy m d s n"
  using move_up_copy [OF assms] by (simp add: u_memmove_up)

text \<open>\<open>strcpy\<close> returns when the string ends before the copy overwrites it, and copies it with its zero.\<close>

lemma strcpy_copies:
  assumes "\<And>k. k < n \<Longrightarrow> m (t + of_nat k) \<noteq> 0" "m (t + of_nat n) = 0"
    and "\<And>k j. k \<le> n \<Longrightarrow> j < k \<Longrightarrow> t + of_nat k \<noteq> s + of_nat j"
  shows "strcpy m s t = Some (move_up m s t (Suc n))"
  using assms
proof (induction n arbitrary: m s t)
  case 0
  then show ?case by (subst strcpy.simps) simp
next
  case (Suc n)
  have k: "of_nat (Suc k) = (1 :: u64) + of_nat k" for k by simp
  have "strcpy (m(s := m t)) (s + 1) (t + 1) = Some (move_up (m(s := m t)) (s + 1) (t + 1) (Suc n))"
  proof (rule Suc.IH)
    show "(m(s := m t)) (t + 1 + of_nat i) \<noteq> 0" if "i < n" for i
      using Suc.prems(1) [of "Suc i"] Suc.prems(3) [of "Suc i" 0] that by (simp add: add.assoc)
    show "(m(s := m t)) (t + 1 + of_nat n) = 0"
      using Suc.prems(2) Suc.prems(3) [of "Suc n" 0] by (simp add: add.assoc)
    show "t + 1 + of_nat i \<noteq> s + 1 + of_nat j" if "i \<le> n" "j < i" for i j
      using Suc.prems(3) [of "Suc i" "Suc j"] that by (simp add: add.assoc add.left_commute [of _ 1])
  qed
  then show ?case using Suc.prems(1) [of 0] by (subst strcpy.simps) (simp add: Let_def)
qed

end
