(* ===== verification/Umalloc.thy ===== *)
theory Umalloc
  imports Kernel_Prelude "HOL-Library.Monad_Syntax"
begin

text \<open>
  The memory allocator of the user programs, user/umalloc.c: a circular list of free blocks in
  the order of their addresses, first fit, with neighbouring free blocks joined.

  Addresses count units of \<open>sizeof(Header)\<close>, 16 bytes. A header is the pair of its fields at its
  address; sizes do not wrap around, as the heap of a process has less than \<open>2^32\<close> units. Following the pointer \<open>freep\<close> before the first \<open>malloc\<close>, and a loop that does not end, are
  None.
\<close>

section \<open>The code\<close>

record um_state =
  um_ptr :: "nat \<Rightarrow> nat"
  um_size :: "nat \<Rightarrow> nat"
  um_base :: nat          \<comment> \<open>the address of the static header \<open>base\<close>\<close>
  freep :: "nat option"
  um_brk :: nat           \<comment> \<open>the end of the heap, kept by the kernel\<close>

definition set_ptr :: "nat \<Rightarrow> nat \<Rightarrow> um_state \<Rightarrow> um_state" where
  "set_ptr p v s = s\<lparr>um_ptr := (um_ptr s)(p := v)\<rparr>"

definition set_size :: "nat \<Rightarrow> nat \<Rightarrow> um_state \<Rightarrow> um_state" where
  "set_size p v s = s\<lparr>um_size := (um_size s)(p := v)\<rparr>"

text \<open>The loop of \<open>free\<close>: the free block after which \<open>bp\<close> belongs.\<close>

partial_function (option) free_find :: "nat \<Rightarrow> nat \<Rightarrow> um_state \<Rightarrow> nat option" where
  "free_find bp p s =
     (if bp > p \<and> bp < um_ptr s p then Some p
      else if p \<ge> um_ptr s p \<and> (bp > p \<or> bp < um_ptr s p) then Some p
      else free_find bp (um_ptr s p) s)"

text \<open>Joining \<open>bp\<close> to the block after it and to the block \<open>p\<close> before it.\<close>

definition join_next :: "nat \<Rightarrow> nat \<Rightarrow> um_state \<Rightarrow> um_state" where
  "join_next bp p s =
     (if bp + um_size s bp = um_ptr s p then
        let s = set_size bp (um_size s bp + um_size s (um_ptr s p)) s in
        set_ptr bp (um_ptr s (um_ptr s p)) s
      else set_ptr bp (um_ptr s p) s)"

definition join_prev :: "nat \<Rightarrow> nat \<Rightarrow> um_state \<Rightarrow> um_state" where
  "join_prev bp p s =
     (if p + um_size s p = bp then
        let s = set_size p (um_size s p + um_size s bp) s in set_ptr p (um_ptr s bp) s
      else set_ptr p bp s)"

definition free :: "nat \<Rightarrow> um_state \<Rightarrow> um_state option" where
  "free ap s =
     (let bp = ap - 1 in
      freep s \<bind> (\<lambda>fp.
      free_find bp fp s \<bind> (\<lambda>p.
      Some ((join_prev bp p (join_next bp p s))\<lparr>freep := Some p\<rparr>))))"

text \<open>
  The system call \<open>sbrk\<close> as the program sees it. It takes an int, the number of bytes to grow by, refuses a
  negative one, and returns the old end of the heap; \<open>grant\<close> says whether the kernel has the memory.
\<close>

definition sbrk :: "(int \<Rightarrow> bool) \<Rightarrow> u32 \<Rightarrow> um_state \<Rightarrow> nat option \<times> um_state" where
  "sbrk grant n s =
     (if 0 \<le> sint n \<and> grant (sint n) then (Some (um_brk s), s\<lparr>um_brk := um_brk s + nat (sint n) div 16\<rparr>) else (None, s))"

text \<open>The result of \<open>morecore\<close>: the outer None is no result, the inner one the null pointer.\<close>

definition morecore :: "(int \<Rightarrow> bool) \<Rightarrow> nat \<Rightarrow> um_state \<Rightarrow> (nat option \<times> um_state) option" where
  "morecore grant nu s =
     (let nu = (if nu < 4096 then 4096 else nu) in
      case sbrk grant (of_nat (nu * 16)) s of
        (None, s) \<Rightarrow> Some (None, s)
      | (Some hp, s) \<Rightarrow> free (hp + 1) (set_size hp nu s) \<bind> (\<lambda>s. Some (freep s, s)))"

partial_function (option) malloc_loop :: "(int \<Rightarrow> bool) \<Rightarrow> nat \<Rightarrow> nat \<Rightarrow> nat \<Rightarrow> um_state \<Rightarrow> (nat option \<times> um_state) option" where
  "malloc_loop grant nunits prevp p s =
     (if um_size s p \<ge> nunits then
        if um_size s p = nunits then Some (Some (p + 1), (set_ptr prevp (um_ptr s p) s)\<lparr>freep := Some prevp\<rparr>)
        else
          let s = set_size p (um_size s p - nunits) s;
              q = p + um_size s p;
              s = set_size q nunits s
          in Some (Some (q + 1), s\<lparr>freep := Some prevp\<rparr>)
      else if Some p = freep s then
        morecore grant nunits s \<bind> (\<lambda>(r, s).
        case r of None \<Rightarrow> Some (None, s)
        | Some p \<Rightarrow> malloc_loop grant nunits p (um_ptr s p) s)
      else malloc_loop grant nunits p (um_ptr s p) s)"

definition units :: "u32 \<Rightarrow> nat" where
  "units nbytes = (unat nbytes + 15) div 16 + 1"

definition malloc :: "(int \<Rightarrow> bool) \<Rightarrow> u32 \<Rightarrow> um_state \<Rightarrow> (nat option \<times> um_state) option" where
  "malloc grant nbytes s =
     (let s = (case freep s of Some f \<Rightarrow> s
               | None \<Rightarrow> set_size (um_base s) 0 (set_ptr (um_base s) (um_base s) (s\<lparr>freep := Some (um_base s)\<rparr>))) in
      freep s \<bind> (\<lambda>prevp. malloc_loop grant (units nbytes) prevp (um_ptr s prevp) s))"

end
