(* ===== verification/Umalloc_Inv.thy ===== *)
theory Umalloc_Inv
  imports Umalloc
begin

text \<open>
  Why the allocator is safe: the free list is a ring of blocks in the order of their addresses,
  disjoint from each other and from every block that was handed out; \<open>malloc\<close> and \<open>free\<close> return,
  keep this, and neither lose nor invent memory.
\<close>

section \<open>Rings\<close>

fun path :: "(nat \<Rightarrow> nat) \<Rightarrow> nat list \<Rightarrow> nat \<Rightarrow> bool" where
  "path f [] e = True"
| "path f [x] e = (f x = e)"
| "path f (x # y # zs) e = (f x = y \<and> path f (y # zs) e)"

lemma path_append: "ys \<noteq> [] \<Longrightarrow> path f (xs @ ys) e \<longleftrightarrow> path f xs (hd ys) \<and> path f ys e"
proof (induction xs)
  case (Cons x xs)
  then show ?case by (cases xs; cases ys) auto
qed simp

lemma path_upd: "x \<notin> set xs \<Longrightarrow> path (f(x := v)) xs e = path f xs e"
proof (induction xs)
  case (Cons y xs)
  then show ?case by (cases xs) auto
qed simp

lemma path_Cons: "path f (x # xs) e \<longleftrightarrow> f x = (if xs = [] then e else hd xs) \<and> path f xs e"
  by (cases xs) auto

lemma path_nth:
  assumes "path f xs e" "i < length xs"
  shows "f (xs ! i) = (if Suc i < length xs then xs ! Suc i else e)"
  using assms
proof (induction xs arbitrary: i)
  case (Cons x xs)
  show ?case
  proof (cases i)
    case 0
    then show ?thesis using Cons.prems by (auto simp: path_Cons hd_conv_nth)
  next
    case (Suc j)
    then show ?thesis using Cons.IH [of j] Cons.prems by (simp add: path_Cons)
  qed
qed simp

lemma ring_nth:
  assumes "path f xs (hd xs)" "i < length xs"
  shows "f (xs ! i) = xs ! (Suc i mod length xs)"
proof (cases "Suc i < length xs")
  case True
  then show ?thesis using path_nth [OF assms] by simp
next
  case False
  then have "Suc i = length xs" using assms(2) by simp
  moreover have "hd xs = xs ! 0" using assms(2) by (intro hd_conv_nth) auto
  ultimately show ?thesis using path_nth [OF assms] by simp
qed

text \<open>Going round a ring reaches every element.\<close>

lemma ring_reach:
  assumes "m < n" "P m" "\<And>j. j < n \<Longrightarrow> j \<noteq> m \<Longrightarrow> P (Suc j mod n) \<Longrightarrow> P j" "j < n"
  shows "P j"
proof -
  have "P j" if "j < n" "(j + k) mod n = m" for k j
    using that
  proof (induction k arbitrary: j)
    case 0
    then show ?case using assms(2) by simp
  next
    case (Suc k)
    have "P (Suc j mod n)" by (rule Suc.IH) (use Suc.prems in \<open>simp_all add: mod_add_left_eq\<close>)
    then show ?case using assms(2,3) Suc.prems(1) by (cases "j = m") auto
  qed
  moreover have "(j + (m + n - j)) mod n = m" using assms(1,4) by simp
  ultimately show ?thesis using assms(4) by blast
qed

section \<open>The free list\<close>

definition before :: "um_state \<Rightarrow> nat \<Rightarrow> nat \<Rightarrow> bool" where
  "before s a b \<longleftrightarrow> a + um_size s a < b"

definition flist :: "um_state \<Rightarrow> nat list \<Rightarrow> bool" where
  "flist s xs \<longleftrightarrow> xs \<noteq> [] \<and> hd xs = um_base s \<and> um_size s (um_base s) = 0 \<and> sorted_wrt (before s) xs \<and>
     path (um_ptr s) xs (um_base s) \<and> (\<forall>x \<in> set (tl xs). 0 < um_size s x)"

definition block :: "um_state \<Rightarrow> nat \<Rightarrow> nat set" where
  "block s a = {a..<a + um_size s a}"

definition free_units :: "um_state \<Rightarrow> nat list \<Rightarrow> nat set" where
  "free_units s xs = (\<Union>x \<in> set xs. block s x)"

lemma flistD:
  assumes "flist s xs"
  shows "xs \<noteq> []" "hd xs = um_base s" "um_size s (um_base s) = 0" "sorted_wrt (before s) xs"
    "path (um_ptr s) xs (hd xs)" "x \<in> set (tl xs) \<Longrightarrow> 0 < um_size s x" "um_base s \<in> set xs"
  using assms hd_in_set [of xs] by (auto simp: flist_def)

lemma flist_sorted: "flist s xs \<Longrightarrow> sorted_wrt (<) xs"
  by (rule sorted_wrt_mono_rel [of _ "before s"]) (auto simp: flist_def before_def)

lemma flist_distinct: "flist s xs \<Longrightarrow> distinct xs"
  using flist_sorted strict_sorted_iff by blast

lemma flist_base_least: "flist s xs \<Longrightarrow> x \<in> set xs \<Longrightarrow> um_base s \<le> x"
  using flist_sorted [of s xs] flistD(1,2) [of s xs] by (cases xs) auto

text \<open>The place of a block that is not free: after the last free block below it.\<close>

lemma flist_split:
  assumes "flist s xs" "um_base s < bp" "bp \<notin> set xs"
  obtains ys p zs where "xs = ys @ p # zs" "\<forall>y \<in> set ys. y < p" "p < bp" "\<forall>z \<in> set zs. bp < z"
proof -
  let ?L = "takeWhile (\<lambda>x. x < bp) xs" and ?R = "dropWhile (\<lambda>x. x < bp) xs"
  have st: "sorted_wrt (<) (?L @ ?R)" using flist_sorted [OF assms(1)] by simp
  have "?L \<noteq> []" using flistD(1,2) [OF assms(1)] assms(2) by (cases xs) auto
  then obtain ys p where L: "?L = ys @ [p]" by (cases ?L rule: rev_cases) auto
  have "p < bp" using L set_takeWhileD [of p "\<lambda>x. x < bp" xs] by simp
  moreover have "xs = ys @ p # ?R" by (metis L append.assoc append_Cons append_Nil takeWhile_dropWhile_id)
  moreover have "\<forall>y \<in> set ys. y < p" using st L by (simp add: sorted_wrt_append)
  moreover have "bp < z" if z: "z \<in> set ?R" for z
  proof -
    have "?R \<noteq> []" using z by (metis empty_iff empty_set)
    then have h: "\<not> hd ?R < bp" by (rule hd_dropWhile)
    have "sorted_wrt (<) ?R" using st by (simp add: sorted_wrt_append)
    then have "hd ?R \<le> z" using z by (cases ?R) auto
    moreover have "z \<noteq> bp" using z assms(3) set_dropWhileD by metis
    ultimately show ?thesis using h by simp
  qed
  ultimately show thesis using that by blast
qed

lemma free_find_place:
  assumes fl: "flist s xs" and xs: "xs = ys @ p # zs" and lt: "\<forall>y \<in> set ys. y < p" "p < bp" "\<forall>z \<in> set zs. bp < z"
    and fp: "fp \<in> set xs"
  shows "free_find bp fp s = Some p"
proof -
  let ?n = "length xs" and ?m = "length ys"
  note ring = ring_nth [OF flistD(5) [OF fl]]
  have srt: "sorted_wrt (<) xs" by (rule flist_sorted [OF fl])
  have m: "?m < ?n" "xs ! ?m = p" using xs by (simp_all add: nth_append)
  have base: "hd xs < bp" using flist_base_least [OF fl, of p] flistD(2) [OF fl] xs lt(2) by simp
  have nxt: "um_ptr s p = (if zs = [] then hd xs else hd zs)"
    using flistD(5) [OF fl] xs by (auto simp: path_append path_Cons)
  have stop: "free_find bp p s = Some p"
  proof (cases zs)
    case Nil
    then have "um_ptr s p \<le> p" using nxt flist_base_least [OF fl, of p] flistD(2) [OF fl] xs by simp
    then show ?thesis using lt(2) by (subst free_find.simps) simp
  next
    case (Cons z zs')
    then show ?thesis using nxt lt by (subst free_find.simps) simp
  qed
  have go: "free_find bp (xs ! j) s = Some p" if j: "j < ?n" "j \<noteq> ?m" "free_find bp (xs ! (Suc j mod ?n)) s = Some p" for j
  proof -
    have nx: "um_ptr s (xs ! j) = xs ! (Suc j mod ?n)" by (rule ring [OF j(1)])
    have "\<not> (xs ! j < bp \<and> bp < um_ptr s (xs ! j)) \<and> \<not> (um_ptr s (xs ! j) \<le> xs ! j \<and> (xs ! j < bp \<or> bp < um_ptr s (xs ! j)))"
    proof (cases "j < ?m")
      case True
      then have "Suc j mod ?n = Suc j" using m(1) by simp
      moreover have "xs ! j < xs ! Suc j" using srt True m(1) by (simp add: sorted_wrt_nth_less)
      moreover have "xs ! Suc j \<le> p"
        using sorted_wrt_nth_less [OF srt, of "Suc j" ?m] True m by (cases "Suc j = ?m") auto
      ultimately show ?thesis using nx lt(2) by simp
    next
      case False
      then have "xs ! j \<in> set zs" using j xs by (auto simp: nth_append nth_Cons split: nat.splits)
      then have gt: "bp < xs ! j" using lt(3) by blast
      show ?thesis
      proof (cases "Suc j < ?n")
        case True
        then have "xs ! j < xs ! Suc j" using srt by (simp add: sorted_wrt_nth_less)
        then show ?thesis using gt nx True by simp
      next
        case False
        then have "Suc j mod ?n = 0" using j(1) by (simp add: le_Suc_eq not_less)
        then have "um_ptr s (xs ! j) = hd xs" using nx flistD(1) [OF fl] by (simp add: hd_conv_nth)
        then show ?thesis using gt base by simp
      qed
    qed
    then show ?thesis using j(3) nx by (subst free_find.simps) auto
  qed
  obtain j where j: "j < ?n" "xs ! j = fp" using fp by (auto simp: in_set_conv_nth)
  have "free_find bp (xs ! j) s = Some p"
    by (rule ring_reach [of ?m ?n "\<lambda>j. free_find bp (xs ! j) s = Some p", OF m(1) _ go j(1)]) (simp add: m stop)
  then show ?thesis using j(2) by simp
qed

section \<open>Putting a block into the list\<close>

text \<open>
  A list of the same shape in another state: the parts before and after \<open>p\<close> are kept, \<open>ms\<close> stands
  between them.
\<close>

lemma sorted_wrt_same:
  "(\<And>x. x \<in> set xs \<Longrightarrow> um_size s' x = um_size s x) \<Longrightarrow> sorted_wrt (before s') xs = sorted_wrt (before s) xs"
  by (induction xs) (auto simp: before_def)

lemma free_units_same:
  "(\<And>x. x \<in> set xs \<Longrightarrow> um_size s' x = um_size s x) \<Longrightarrow> free_units s' xs = free_units s xs"
  by (simp add: free_units_def block_def)

lemma free_units_simps [simp]:
  "free_units s [] = {}" "free_units s (x # xs) = block s x \<union> free_units s xs"
  "free_units s (xs @ ys) = free_units s xs \<union> free_units s ys"
  by (auto simp: free_units_def)

text \<open>What \<open>join_next\<close> leaves: \<open>bp\<close> with its new size, in front of the blocks \<open>zs'\<close>.\<close>

lemma join_next_eq:
  assumes fl: "flist s (ys @ p # zs)" and bp: "p < bp" "\<forall>z \<in> set zs. bp < z" "bp \<noteq> um_base s"
    and dis: "block s bp \<inter> free_units s (ys @ p # zs) = {}" "0 < um_size s bp"
  obtains n zs' where "um_size (join_next bp p s) = (um_size s)(bp := n)"
    "um_ptr (join_next bp p s) = (um_ptr s)(bp := (if zs' = [] then um_base s else hd zs'))"
    "um_base (join_next bp p s) = um_base s" "um_brk (join_next bp p s) = um_brk s"
    "set zs' \<subseteq> set zs" "\<forall>z \<in> set zs'. bp + n < z" "sorted_wrt (before s) zs'" "path (um_ptr s) zs' (um_base s)"
    "um_size s bp \<le> n" "{bp..<bp + n} \<union> free_units s zs' = block s bp \<union> free_units s zs"
proof -
  have nxt: "um_ptr s p = (if zs = [] then um_base s else hd zs)" and pz: "path (um_ptr s) zs (um_base s)"
    using flistD(2,5) [OF fl] by (auto simp: path_append path_Cons)
  have srt: "sorted_wrt (before s) (p # zs)" using flistD(4) [OF fl] by (simp add: sorted_wrt_append)
  have pos: "0 < um_size s z" if "z \<in> set zs" for z using flistD(6) [OF fl, of z] that by (cases ys) auto
  have le: "bp + um_size s bp \<le> z" if z: "z \<in> set zs" for z
  proof -
    have "z \<in> free_units s (ys @ p # zs)" using z pos [OF z] by (auto simp: free_units_def block_def)
    then have "z \<notin> block s bp" using dis(1) by blast
    then show ?thesis using bp(2) z by (auto simp: block_def)
  qed
  show thesis
  proof (cases "zs \<noteq> [] \<and> bp + um_size s bp = hd zs")
    case True
    then obtain z zs' where zs: "zs = z # zs'" "bp + um_size s bp = z" by (cases zs) auto
    have ne: "z \<noteq> bp" "z \<in> set zs" using zs bp(2) by auto
    have "um_ptr s z = (if zs' = [] then um_base s else hd zs')" using pz zs(1) by (auto simp: path_Cons)
    moreover have "\<forall>z' \<in> set zs'. bp + (um_size s bp + um_size s z) < z'" using srt zs by (auto simp: before_def)
    ultimately show thesis
      using zs ne nxt srt pz by (intro that [of "um_size s bp + um_size s z" zs'])
        (auto simp: join_next_def set_size_def set_ptr_def Let_def path_Cons block_def)
  next
    case False
    have "\<forall>z \<in> set zs. bp + um_size s bp < z"
    proof (cases zs)
      case (Cons z zs')
      then have "bp + um_size s bp < z" using le [of z] False by (simp add: less_le)
      then show ?thesis using srt Cons by (auto simp: before_def)
    qed simp
    moreover have "bp + um_size s bp \<noteq> um_ptr s p"
      using False nxt flist_base_least [OF fl, of p] bp(1) by (cases zs) auto
    ultimately show thesis
      using nxt srt pz by (intro that [of "um_size s bp" zs]) (auto simp: join_next_def set_size_def set_ptr_def block_def)
  qed
qed

text \<open>What \<open>join_prev\<close> makes of it.\<close>

lemma join_prev_flist:
  assumes fl: "flist s (ys @ p # zs)" and bp: "p < bp" "p + um_size s p \<le> bp" "bp \<notin> set (ys @ p # zs)"
    and t: "um_size t = (um_size s)(bp := n)" "um_ptr t = (um_ptr s)(bp := (if zs' = [] then um_base s else hd zs'))"
      "um_base t = um_base s"
    and zs': "set zs' \<subseteq> set zs" "\<forall>z \<in> set zs'. bp + n < z" "sorted_wrt (before s) zs'" "path (um_ptr s) zs' (um_base s)" "0 < n"
  defines "u \<equiv> join_prev bp p t"
  obtains ms where "flist u (ys @ p # ms @ zs')" "um_base u = um_base s" "um_brk u = um_brk t"
    "free_units u (ys @ p # ms @ zs') = free_units s (ys @ [p]) \<union> {bp..<bp + n} \<union> free_units s zs'"
    "\<exists>x \<in> set (ys @ p # ms @ zs'). n \<le> um_size u x"
    "\<And>a. a \<noteq> bp \<Longrightarrow> a \<noteq> p \<or> p = um_base s \<Longrightarrow> um_size u a = um_size s a"
proof -
  have ne: "bp \<notin> set ys" "p \<noteq> bp" "bp \<notin> set zs'" using bp zs'(1) by auto
  have dist: "distinct (ys @ p # zs)" by (rule flist_distinct [OF fl])
  then have pn: "p \<notin> set ys" "p \<notin> set zs'" using zs'(1) by auto
  have ord: "sorted_wrt (before s) (ys @ [p])" "\<forall>y \<in> set ys. \<forall>z \<in> set zs'. before s y z" "\<forall>z \<in> set zs'. before s p z"
    using flistD(4) [OF fl] zs'(1) by (auto simp: sorted_wrt_append)
  have py: "path (um_ptr s) ys p" using flistD(5) [OF fl] by (simp add: path_append)
  have hd: "hd (ys @ p # ms) = um_base s" for ms using flistD(2) [OF fl] by (cases ys) auto
  have pos: "0 < um_size s x" if "x \<in> set (tl (ys @ [p])) \<union> set zs'" for x
    using flistD(6) [OF fl, of x] that zs'(1) by (cases ys) auto
  have b0: "um_size s (um_base s) = 0" by (rule flistD(3) [OF fl])
  have bb: "um_base s < bp" using flist_base_least [OF fl, of p] bp(1) by simp
  have sy: "um_size t x = um_size s x" if "x \<in> set ys \<union> set zs' \<union> {p, um_base s}" for x
    using that ne bb t(1) by auto
  show thesis
  proof (cases "p + um_size s p = bp")
    case True
    then have pb: "p \<noteq> um_base s" using b0 bp(1) by auto
    have u: "um_size u = (um_size t)(p := um_size s p + n)" "um_ptr u = (um_ptr t)(p := (if zs' = [] then um_base s else hd zs'))"
      "um_base u = um_base s" "um_brk u = um_brk t"
      using True t ne by (auto simp: u_def join_prev_def set_size_def set_ptr_def Let_def fun_eq_iff)
    have sz: "um_size u x = um_size s x" if "x \<in> set ys \<union> set zs'" for x using that u(1) sy pn by auto
    have "path (um_ptr u) (ys @ p # zs') (um_base s)"
      using u(2) t(2) py zs'(4) pn ne by (simp add: path_append path_Cons path_upd)
    moreover have "sorted_wrt (before u) (ys @ p # zs')"
      using ord zs'(2,3) sorted_wrt_same [of ys u s] sorted_wrt_same [of zs' u s] sz u(1) True
      by (auto simp: sorted_wrt_append before_def)
    ultimately have "flist u (ys @ p # [] @ zs')"
      using hd [of zs'] b0 pos sz u bb pb zs'(5) sy [of "um_base s"] by (cases ys) (auto simp: flist_def)
    moreover have "free_units u (ys @ p # [] @ zs') = free_units s (ys @ [p]) \<union> {bp..<bp + n} \<union> free_units s zs'"
      using free_units_same [of ys u s] free_units_same [of zs' u s] sz u(1) True by (auto simp: block_def)
    moreover have "\<exists>x \<in> set (ys @ p # [] @ zs'). n \<le> um_size u x" using u(1) by auto
    moreover have "um_size u a = um_size s a" if "a \<noteq> bp" "a \<noteq> p \<or> p = um_base s" for a
      using that pb u(1) t(1) by auto
    ultimately show thesis using u(3,4) that by blast
  next
    case False
    have u: "um_size u = um_size t" "um_ptr u = (um_ptr t)(p := bp)" "um_base u = um_base s" "um_brk u = um_brk t"
      using False t ne by (auto simp: u_def join_prev_def set_ptr_def)
    have "path (um_ptr u) (ys @ p # bp # zs') (um_base s)"
      using u(2) t(2) py zs'(4) pn ne by (simp add: path_append path_Cons path_upd)
    moreover have "sorted_wrt (before u) (ys @ p # bp # zs')"
      using ord zs'(2,3) sorted_wrt_same [of ys u s] sorted_wrt_same [of zs' u s] sy u(1) False bp(2) t(1)
      by (auto simp: sorted_wrt_append before_def)
    ultimately have "flist u (ys @ p # [bp] @ zs')"
      using hd [of "bp # zs'"] b0 pos sy u bb zs'(5) t(1) by (cases ys) (auto simp: flist_def)
    moreover have "free_units u (ys @ p # [bp] @ zs') = free_units s (ys @ [p]) \<union> {bp..<bp + n} \<union> free_units s zs'"
      using free_units_same [of ys u s] free_units_same [of zs' u s] sy u(1) t(1) ne by (auto simp: block_def)
    moreover have "\<exists>x \<in> set (ys @ p # [bp] @ zs'). n \<le> um_size u x" using u(1) t(1) by auto
    moreover have "um_size u a = um_size s a" if "a \<noteq> bp" for a using that u(1) t(1) by auto
    ultimately show thesis using u(3,4) that by blast
  qed
qed

text \<open>The allocator between two calls: a free list \<open>xs\<close> with \<open>freep\<close> pointing into it.\<close>

definition ready :: "um_state \<Rightarrow> nat list \<Rightarrow> bool" where
  "ready s xs \<longleftrightarrow> flist s xs \<and> (\<exists>p \<in> set xs. freep s = Some p)"

lemma flist_freep [simp]: "flist (s\<lparr>freep := f\<rparr>) xs = flist s xs" "free_units (s\<lparr>freep := f\<rparr>) xs = free_units s xs"
  by (simp_all add: flist_def free_units_def block_def before_def [abs_def])

lemma free_inserts:
  assumes rd: "ready s xs" and bp: "um_base s < bp" "0 < um_size s bp" and dis: "block s bp \<inter> free_units s xs = {}"
  obtains s' xs' where "free (bp + 1) s = Some s'" "ready s' xs'" "um_base s' = um_base s" "um_brk s' = um_brk s"
    "free_units s' xs' = free_units s xs \<union> block s bp" "\<exists>x \<in> set xs'. um_size s bp \<le> um_size s' x"
    "\<And>a. a \<notin> free_units s xs \<union> block s bp \<Longrightarrow> um_size s' a = um_size s a"
proof -
  obtain fp where fp: "freep s = Some fp" "fp \<in> set xs" and fl: "flist s xs" using rd by (auto simp: ready_def)
  have pos: "x \<in> set xs \<Longrightarrow> x \<noteq> um_base s \<Longrightarrow> 0 < um_size s x" for x
    using flistD(6) [OF fl, of x] flistD(1,2) [OF fl] by (cases xs) auto
  have bpb: "bp \<in> block s bp" using bp(2) by (simp add: block_def)
  have nin: "bp \<notin> set xs"
  proof
    assume x: "bp \<in> set xs"
    then have "bp \<in> free_units s xs" using pos [OF x] bp(1) by (auto simp: free_units_def block_def)
    then show False using dis bpb by blast
  qed
  obtain ys p zs where xs: "xs = ys @ p # zs" and lt: "\<forall>y \<in> set ys. y < p" "p < bp" "\<forall>z \<in> set zs. bp < z"
    by (rule flist_split [OF fl bp(1) nin])
  have pl: "free_find bp fp s = Some p" by (rule free_find_place [OF fl xs lt fp(2)])
  have pe: "p + um_size s p \<le> bp"
  proof (rule ccontr)
    assume "\<not> p + um_size s p \<le> bp"
    then have "bp \<in> free_units s xs" using lt(2) xs by (auto simp: block_def)
    then show False using dis bpb by blast
  qed
  obtain n zs' where t: "um_size (join_next bp p s) = (um_size s)(bp := n)"
    "um_ptr (join_next bp p s) = (um_ptr s)(bp := (if zs' = [] then um_base s else hd zs'))"
    "um_base (join_next bp p s) = um_base s" "um_brk (join_next bp p s) = um_brk s"
    and z: "set zs' \<subseteq> set zs" "\<forall>z \<in> set zs'. bp + n < z" "sorted_wrt (before s) zs'" "path (um_ptr s) zs' (um_base s)"
    and n: "um_size s bp \<le> n" "{bp..<bp + n} \<union> free_units s zs' = block s bp \<union> free_units s zs"
    by (rule join_next_eq [OF fl [unfolded xs] lt(2,3) _ dis [unfolded xs] bp(2)]) (use bp(1) in simp)
  have n0: "0 < n" using n(1) bp(2) by simp
  obtain ms where u: "flist (join_prev bp p (join_next bp p s)) (ys @ p # ms @ zs')"
    "um_base (join_prev bp p (join_next bp p s)) = um_base s" "um_brk (join_prev bp p (join_next bp p s)) = um_brk (join_next bp p s)"
    "free_units (join_prev bp p (join_next bp p s)) (ys @ p # ms @ zs') = free_units s (ys @ [p]) \<union> {bp..<bp + n} \<union> free_units s zs'"
    "\<exists>x \<in> set (ys @ p # ms @ zs'). n \<le> um_size (join_prev bp p (join_next bp p s)) x"
    "\<And>a. a \<noteq> bp \<Longrightarrow> a \<noteq> p \<or> p = um_base s \<Longrightarrow> um_size (join_prev bp p (join_next bp p s)) a = um_size s a"
    by (rule join_prev_flist [OF fl [unfolded xs] lt(2) pe nin [unfolded xs] t(1-3) z n0]) blast
  show thesis
  proof (rule that [of "(join_prev bp p (join_next bp p s))\<lparr>freep := Some p\<rparr>" "ys @ p # ms @ zs'"])
    show "free (bp + 1) s = Some ((join_prev bp p (join_next bp p s))\<lparr>freep := Some p\<rparr>)" using fp(1) pl by (simp add: free_def)
    show "ready ((join_prev bp p (join_next bp p s))\<lparr>freep := Some p\<rparr>) (ys @ p # ms @ zs')" using u(1) by (simp add: ready_def)
    show "free_units ((join_prev bp p (join_next bp p s))\<lparr>freep := Some p\<rparr>) (ys @ p # ms @ zs') = free_units s xs \<union> block s bp"
    proof -
      have e: "free_units s (ys @ [p]) \<union> {bp..<bp + n} \<union> free_units s zs' = free_units s (ys @ [p]) \<union> (block s bp \<union> free_units s zs)"
        using n(2) by (simp only: Un_assoc)
      show ?thesis unfolding flist_freep(2) u(4) e xs by (simp add: Un_ac)
    qed
    show "\<exists>x \<in> set (ys @ p # ms @ zs'). um_size s bp \<le> um_size ((join_prev bp p (join_next bp p s))\<lparr>freep := Some p\<rparr>) x"
      using u(5) n(1) order_trans by simp blast
    show "um_size ((join_prev bp p (join_next bp p s))\<lparr>freep := Some p\<rparr>) a = um_size s a" if "a \<notin> free_units s xs \<union> block s bp" for a
    proof -
      have "a \<noteq> bp" using that bp(2) by (auto simp: block_def)
      moreover have "p \<in> free_units s xs" if "p \<noteq> um_base s"
        using pos [OF _ that] xs by (simp add: block_def)
      then have "a \<noteq> p \<or> p = um_base s" using that by blast
      ultimately show ?thesis using u(6) by simp
    qed
  qed (use u t in simp_all)
qed

section \<open>Taking a block\<close>

text \<open>What \<open>malloc\<close> does when the block \<open>p\<close> after \<open>prevp\<close> is large enough.\<close>

definition take_block :: "nat \<Rightarrow> nat \<Rightarrow> nat \<Rightarrow> um_state \<Rightarrow> nat \<times> um_state" where
  "take_block n prevp p s =
     (if um_size s p = n then (p, (set_ptr prevp (um_ptr s p) s)\<lparr>freep := Some prevp\<rparr>)
      else let q = p + (um_size s p - n) in (q, (set_size q n (set_size p (um_size s p - n) s))\<lparr>freep := Some prevp\<rparr>))"

lemma take_block_ok:
  assumes fl: "flist s (ys @ pr # p # zs)" and n: "0 < n" "n \<le> um_size s p"
  obtains a s' xs' where "take_block n pr p s = (a, s')" "ready s' xs'" "um_base s' = um_base s" "um_brk s' = um_brk s"
    "um_size s' a = n" "{a..<a + n} \<subseteq> free_units s (ys @ pr # p # zs)"
    "free_units s' xs' = free_units s (ys @ pr # p # zs) - {a..<a + n}"
    "\<And>b. b \<notin> free_units s (ys @ pr # p # zs) \<Longrightarrow> um_size s' b = um_size s b"
proof -
  let ?xs = "ys @ pr # p # zs"
  have dist: "distinct ?xs" by (rule flist_distinct [OF fl])
  have srt: "sorted_wrt (before s) ?xs" and pth: "path (um_ptr s) ?xs (um_base s)"
    using flistD(2,4,5) [OF fl] by auto
  have nb: "p \<noteq> um_base s" using n flistD(3) [OF fl] by auto
  have away: "x + um_size s x < p \<or> p + um_size s p < x" if "x \<in> set (ys @ pr # zs)" for x
    using srt that by (auto simp: sorted_wrt_append before_def)
  then have disj: "block s x \<inter> block s p = {}" if "x \<in> set (ys @ pr # zs)" for x
    using that [THEN away] by (auto simp: block_def)
  have fu: "free_units s (ys @ pr # zs) \<inter> block s p = {}" using disj by (auto simp: free_units_def)
  show thesis
  proof (cases "um_size s p = n")
    case True
    define u where "u = (set_ptr pr (um_ptr s p) s)\<lparr>freep := Some pr\<rparr>"
    have u: "um_size u = um_size s" "um_ptr u = (um_ptr s)(pr := um_ptr s p)" "um_base u = um_base s" "um_brk u = um_brk s" "freep u = Some pr"
      by (simp_all add: u_def set_ptr_def)
    have "path (um_ptr u) (ys @ pr # zs) (um_base s)"
      using pth dist u(2) by (auto simp: path_append path_Cons path_upd)
    moreover have "sorted_wrt (before u) (ys @ pr # zs)"
      using srt sorted_wrt_same [of "ys @ pr # zs" u s] u(1) by (simp add: sorted_wrt_append)
    ultimately have "ready u (ys @ pr # zs)"
      using flistD(2,3,6) [OF fl] u by (cases ys) (auto simp: ready_def flist_def)
    moreover have "free_units u (ys @ pr # zs) = free_units s ?xs - {p..<p + n}"
      using free_units_same [of "ys @ pr # zs" u s] u(1) fu True by (auto simp: block_def)
    ultimately show thesis
      using True u by (intro that [of p u "ys @ pr # zs"]) (auto simp: take_block_def u_def block_def)
  next
    case False
    define q where "q = p + (um_size s p - n)"
    define u where "u = (set_size q n (set_size p (um_size s p - n) s))\<lparr>freep := Some pr\<rparr>"
    have q: "p < q" "q + n = p + um_size s p" using False n by (simp_all add: q_def)
    have u: "um_size u = (um_size s)(p := um_size s p - n, q := n)" "um_ptr u = um_ptr s" "um_base u = um_base s" "um_brk u = um_brk s" "freep u = Some pr"
      by (simp_all add: u_def set_size_def)
    have qb: "q \<in> block s p" using q n by (auto simp: block_def)
    have qx: "q \<noteq> x" if "x \<in> set (ys @ pr # zs)" for x using away [OF that] q n by auto
    have sz: "um_size u x = um_size s x" if "x \<in> set (ys @ pr # zs)" for x using that qx [OF that] u(1) dist by auto
    have sp: "um_size u p = um_size s p - n" using u(1) q by simp
    have base: "um_base s \<in> set (ys @ pr # zs)" using flistD(2,7) [OF fl] nb by auto
    have "sorted_wrt (before u) ?xs"
      using srt sorted_wrt_same [of ys u s] sorted_wrt_same [of zs u s] sz sp by (auto simp: sorted_wrt_append before_def)
    then have "flist u ?xs"
      using flistD(1-3,5,6) [OF fl] u sz base False n sp by (cases ys) (auto simp: flist_def)
    then have "ready u ?xs" using u(5) by (simp add: ready_def)
    moreover have "free_units u ?xs = free_units s ?xs - {q..<q + n}"
    proof -
      have "free_units u (ys @ pr # zs) = free_units s (ys @ pr # zs)" by (rule free_units_same) (rule sz)
      moreover have "block u p = block s p - {q..<q + n}" "{q..<q + n} \<subseteq> block s p" using sp q by (auto simp: block_def)
      ultimately show ?thesis using fu by auto
    qed
    moreover have "{q..<q + n} \<subseteq> free_units s ?xs" using q by (auto simp: block_def)
    moreover have "um_size u b = um_size s b" if "b \<notin> free_units s ?xs" for b
      using that u(1) qb n by (auto simp: block_def)
    ultimately show thesis
      using False u by (intro that [of q u ?xs]) (auto simp: take_block_def u_def q_def Let_def)
  qed
qed

section \<open>Finding a block\<close>

text \<open>Walking from \<open>freep\<close> over \<open>k - 1\<close> blocks that are too small.\<close>

lemma loop_walk:
  assumes fl: "flist s xs" and f: "f < length xs" "freep s = Some (xs ! f)" and k: "1 \<le> k" "k \<le> length xs"
    and small: "\<And>i. 1 \<le> i \<Longrightarrow> i < k \<Longrightarrow> um_size s (xs ! ((f + i) mod length xs)) < n"
  shows "malloc_loop g n (xs ! f) (um_ptr s (xs ! f)) s =
    malloc_loop g n (xs ! ((f + k - 1) mod length xs)) (xs ! ((f + k) mod length xs)) s"
  using k small
proof (induction k rule: dec_induct)
  case base
  then show ?case using ring_nth [OF flistD(5) [OF fl] f(1)] f(1) by simp
next
  case (step k)
  let ?N = "length xs" and ?p = "xs ! ((f + k) mod length xs)"
  have "(f + k) mod ?N \<noteq> f"
  proof
    assume "(f + k) mod ?N = f"
    then have "(f + k) mod ?N = (f + 0) mod ?N" using f(1) by simp
    then have "?N dvd k" by (metis add_diff_cancel_left' diff_zero le_add1 mod_eq_dvd_iff_nat add_0_right)
    then show False using step.hyps step.prems(1) by (auto dest: dvd_imp_le)
  qed
  moreover have lt: "(f + k) mod ?N < ?N" using f(1) by (intro mod_less_divisor) linarith
  ultimately have "?p \<noteq> xs ! f" using flist_distinct [OF fl] f(1) nth_eq_iff_index_eq by blast
  moreover have "um_ptr s ?p = xs ! ((f + Suc k) mod ?N)"
    using ring_nth [OF flistD(5) [OF fl], of "(f + k) mod ?N"] lt by (simp add: mod_Suc_eq)
  moreover have "um_size s ?p < n" using step.prems(2) step.hyps by simp
  ultimately have "malloc_loop g n (xs ! ((f + k - 1) mod ?N)) ?p s = malloc_loop g n ?p (xs ! ((f + Suc k) mod ?N)) s"
    using f(2) by (subst malloc_loop.simps) simp
  then show ?case using step.IH step.prems by simp
qed

end
