(* ===== verification/Umalloc_Safe.thy ===== *)
theory Umalloc_Safe
  imports Umalloc_Inv
begin

text \<open>
  The loop of \<open>malloc\<close> ends with a block from the free list or from the kernel, and a program that only frees
  what it was given, in any order, keeps all its allocations apart.
\<close>

section \<open>The search of malloc\<close>

lemma malloc_fit:
  assumes rd: "ready s xs" "freep s = Some fp" and n: "0 < n" and fit: "x \<in> set xs" "n \<le> um_size s x"
  obtains ys pr p zs where "xs = ys @ pr # p # zs" "n \<le> um_size s p"
    "malloc_loop g n fp (um_ptr s fp) s = (case take_block n pr p s of (a, s') \<Rightarrow> Some (Some (a + 1), s'))"
proof -
  have fl: "flist s xs" using rd(1) by (simp add: ready_def)
  let ?N = "length xs"
  obtain f where f: "f < ?N" "xs ! f = fp" using rd by (auto simp: ready_def in_set_conv_nth)
  obtain i where i: "i < ?N" "xs ! i = x" using fit(1) by (auto simp: in_set_conv_nth)
  define P where "P k \<longleftrightarrow> 1 \<le> k \<and> n \<le> um_size s (xs ! ((f + k) mod ?N))" for k
  define d where "d = (if f < i then i - f else i + ?N - f)"
  have d: "1 \<le> d" "d \<le> ?N" "(f + d) mod ?N = i" using f(1) i(1) by (auto simp: d_def)
  then have Pd: "P d" using fit(2) i(2) by (simp add: P_def)
  define k where "k = (LEAST k. P k)"
  have k: "P k" "k \<le> d" "\<And>j. j < k \<Longrightarrow> \<not> P j"
    unfolding k_def using LeastI [of P, OF Pd] Least_le [of P, OF Pd] not_less_Least [of _ P] by blast+
  have walk: "malloc_loop g n fp (um_ptr s fp) s = malloc_loop g n (xs ! ((f + k - 1) mod ?N)) (xs ! ((f + k) mod ?N)) s"
    unfolding f(2) [symmetric] by (rule loop_walk [OF fl f(1)]) (use rd(2) f(2) k d in \<open>auto simp: P_def not_le\<close>)
  define a where "a = (f + k - 1) mod ?N"
  have b: "(f + k) mod ?N = Suc a mod ?N" using k(1) by (simp add: a_def P_def mod_Suc_eq)
  have "xs ! ((f + k) mod ?N) \<noteq> um_base s" using k(1) n flistD(3) [OF fl] by (auto simp: P_def)
  then have "Suc a mod ?N \<noteq> 0" using flistD(1,2) [OF fl] b by (metis hd_conv_nth)
  moreover have "a < ?N" unfolding a_def using f(1) by (intro mod_less_divisor) linarith
  ultimately have a: "Suc a < ?N" by (cases "Suc a = ?N") auto
  have "xs = take a xs @ xs ! a # xs ! Suc a # drop (Suc (Suc a)) xs"
    using a by (simp add: Cons_nth_drop_Suc)
  moreover have "n \<le> um_size s (xs ! Suc a)" using k(1) b a by (simp add: P_def)
  moreover have "malloc_loop g n fp (um_ptr s fp) s = (case take_block n (xs ! a) (xs ! Suc a) s of (a, s') \<Rightarrow> Some (Some (a + 1), s'))"
    unfolding walk b a_def [symmetric] using calculation(2) a
    by (subst malloc_loop.simps) (simp add: take_block_def Let_def set_size_def)
  ultimately show thesis by (rule that)
qed

lemma malloc_none:
  assumes rd: "ready s xs" "freep s = Some fp" and small: "\<And>x. x \<in> set xs \<Longrightarrow> um_size s x < n"
  shows "malloc_loop g n fp (um_ptr s fp) s =
    Option.bind (morecore g n s) (\<lambda>(r, s). case r of None \<Rightarrow> Some (None, s) | Some p \<Rightarrow> malloc_loop g n p (um_ptr s p) s)"
proof -
  have fl: "flist s xs" using rd(1) by (simp add: ready_def)
  obtain f where f: "f < length xs" "xs ! f = fp" using rd by (auto simp: ready_def in_set_conv_nth)
  have sm: "um_size s fp < n" using small f by (metis nth_mem)
  have lt: "i mod length xs < length xs" for i using f(1) by (intro mod_less_divisor) linarith
  define pr where "pr = xs ! ((f + length xs - 1) mod length xs)"
  have "malloc_loop g n (xs ! f) (um_ptr s (xs ! f)) s =
      malloc_loop g n (xs ! ((f + length xs - 1) mod length xs)) (xs ! ((f + length xs) mod length xs)) s"
    using rd(2) f flistD(1) [OF fl] by (intro loop_walk [OF fl f(1)] small nth_mem lt) (auto simp: Suc_le_eq)
  also have "(f + length xs) mod length xs = f" using f(1) by simp
  finally have "malloc_loop g n fp (um_ptr s fp) s = malloc_loop g n pr fp s" by (simp add: f(2) pr_def)
  also have "\<dots> = Option.bind (morecore g n s) (\<lambda>(r, s). case r of None \<Rightarrow> Some (None, s) | Some p \<Rightarrow> malloc_loop g n p (um_ptr s p) s)"
    using rd(2) sm by (subst malloc_loop.simps) simp
  finally show ?thesis .
qed


text \<open>A block is taken from the free units or from those the kernel adds at the end of the heap.\<close>

definition grew :: "nat \<Rightarrow> um_state \<Rightarrow> nat list \<Rightarrow> nat option \<Rightarrow> um_state \<Rightarrow> nat list \<Rightarrow> bool" where
  "grew n s xs r s' xs' \<longleftrightarrow> ready s' xs' \<and> um_base s' = um_base s \<and> um_brk s \<le> um_brk s' \<and>
     (\<forall>b. b \<notin> free_units s xs \<longrightarrow> b < um_brk s \<longrightarrow> um_size s' b = um_size s b) \<and>
     (case r of None \<Rightarrow> um_brk s' = um_brk s \<and> free_units s' xs' = free_units s xs
      | Some ap \<Rightarrow> \<exists>a. ap = a + 1 \<and> um_size s' a = n \<and> {a..<a + n} \<subseteq> free_units s xs \<union> {um_brk s..<um_brk s'} \<and>
          free_units s' xs' = free_units s xs \<union> {um_brk s..<um_brk s'} - {a..<a + n})"

lemma malloc_loop_fit:
  assumes "ready s xs" "freep s = Some fp" "0 < n" "x \<in> set xs" "n \<le> um_size s x"
  obtains r s' xs' where "malloc_loop g n fp (um_ptr s fp) s = Some (Some r, s')" "grew n s xs (Some r) s' xs'" "um_brk s' = um_brk s"
proof -
  obtain ys pr p zs where xs: "xs = ys @ pr # p # zs" "n \<le> um_size s p"
    "malloc_loop g n fp (um_ptr s fp) s = (case take_block n pr p s of (a, s') \<Rightarrow> Some (Some (a + 1), s'))"
    by (rule malloc_fit [OF assms])
  have "flist s (ys @ pr # p # zs)" using assms(1) xs(1) by (simp add: ready_def)
  then obtain a s' xs' where "take_block n pr p s = (a, s')" "ready s' xs'" "um_base s' = um_base s" "um_brk s' = um_brk s"
    "um_size s' a = n" "{a..<a + n} \<subseteq> free_units s xs" "free_units s' xs' = free_units s xs - {a..<a + n}"
    "\<And>b. b \<notin> free_units s xs \<Longrightarrow> um_size s' b = um_size s b"
    by (rule take_block_ok [OF _ assms(3) xs(2)]) (use xs(1) in simp)
  then show thesis using xs(3) by (intro that [of "a + 1" s' xs']) (simp_all add: grew_def)
qed

lemma flist_below:
  assumes "flist s xs" "free_units s xs \<subseteq> {..<b}" "um_base s < b" "x \<in> set xs"
  shows "x < b"
proof (cases "x = um_base s")
  case False
  then have "x \<in> set (tl xs)" using assms(1,4) flistD(1,2) [OF assms(1)] by (cases xs) auto
  then have "x \<in> block s x" using flistD(6) [OF assms(1)] by (simp add: block_def)
  then show ?thesis using assms(2,4) by (auto simp: free_units_def)
qed (use assms in simp)

lemma ready_new_header:
  assumes "ready s xs" "h \<notin> set xs"
  shows "ready (set_size h v (s\<lparr>um_brk := b\<rparr>)) xs" "free_units (set_size h v (s\<lparr>um_brk := b\<rparr>)) xs = free_units s xs"
proof -
  have sz: "um_size (set_size h v (s\<lparr>um_brk := b\<rparr>)) x = um_size s x" if "x \<in> set xs" for x
    using that assms(2) by (auto simp: set_size_def)
  have "um_base s \<in> set xs" using assms(1) flistD(7) by (auto simp: ready_def)
  moreover have "sorted_wrt (before (set_size h v (s\<lparr>um_brk := b\<rparr>))) xs"
    using assms(1) sz by (auto simp: ready_def flist_def before_def intro: sorted_wrt_mono_rel [of xs "before s"])
  ultimately show "ready (set_size h v (s\<lparr>um_brk := b\<rparr>)) xs"
    using assms sz by (auto simp: ready_def flist_def set_size_def dest: list.set_sel(2))
  show "free_units (set_size h v (s\<lparr>um_brk := b\<rparr>)) xs = free_units s xs"
    using sz by (auto simp: free_units_def block_def)
qed

text \<open>The size in bytes fits the int that \<open>sbrk\<close> takes.\<close>

lemma sbrk_bytes: "m < 134217728 \<Longrightarrow> sint (of_nat (m * 16) :: u32) = int m * 16"
proof -
  assume "m < 134217728"
  then have "- (2 ^ 31) \<le> int (m * 16)" "int (m * 16) < 2 ^ 31" by simp_all
  then have "signed_take_bit 31 (int (m * 16)) = int (m * 16)" by (intro signed_take_bit_int_eq_self) simp_all
  moreover have "sint (of_int (int (m * 16)) :: u32) = signed_take_bit 31 (int (m * 16))" by (subst signed_of_int) simp
  ultimately show ?thesis by simp
qed

lemma morecore_ok:
  assumes rd: "ready s xs" and in_heap: "free_units s xs \<subseteq> {..<um_brk s}" "um_base s < um_brk s" and n: "n < 134217728"
  obtains (refused) "morecore g n s = Some (None, s)"
  | (added) p s' xs' m x where "morecore g n s = Some (Some p, s')" "ready s' xs'" "freep s' = Some p" "um_base s' = um_base s"
      "um_brk s' = um_brk s + m" "free_units s' xs' = free_units s xs \<union> {um_brk s..<um_brk s'}"
      "x \<in> set xs'" "n \<le> um_size s' x" "\<And>b. b \<notin> free_units s xs \<Longrightarrow> b < um_brk s \<Longrightarrow> um_size s' b = um_size s b"
proof -
  define m where "m = (if n < 4096 then 4096 else n)"
  define h where "h = um_brk s"
  define s1 where "s1 = set_size h m (s\<lparr>um_brk := h + m\<rparr>)"
  have m: "0 < m" "n \<le> m" "m < 134217728" using n by (auto simp: m_def)
  have sb: "sbrk g (of_nat (m * 16)) s = (if g (int m * 16) then (Some h, s\<lparr>um_brk := h + m\<rparr>) else (None, s))"
    using sbrk_bytes [OF m(3)] by (simp add: sbrk_def h_def nat_add_distrib)
  show thesis
  proof (cases "g (int m * 16)")
    case False
    then show ?thesis using sb by (intro refused) (simp add: morecore_def m_def Let_def)
  next
    case True
    have fl: "flist s xs" using rd by (simp add: ready_def)
    have nin: "h \<notin> set xs" using flist_below [OF fl in_heap] by (auto simp: h_def)
    have s1: "ready s1 xs" "free_units s1 xs = free_units s xs" "um_base s1 = um_base s" "um_brk s1 = h + m"
      "block s1 h = {h..<h + m}" "um_size s1 h = m" "\<And>b. b < h \<Longrightarrow> um_size s1 b = um_size s b"
      using ready_new_header [OF rd nin, of m "h + m"] by (simp_all add: s1_def set_size_def block_def)
    have "um_base s1 < h" "0 < um_size s1 h" "block s1 h \<inter> free_units s1 xs = {}"
      using s1 m in_heap by (auto simp: h_def)
    from free_inserts [OF s1(1) this] obtain s' xs' where f: "free (h + 1) s1 = Some s'" "ready s' xs'" "um_base s' = um_base s1"
      "um_brk s' = um_brk s1" "free_units s' xs' = free_units s1 xs \<union> block s1 h" "\<exists>x \<in> set xs'. um_size s1 h \<le> um_size s' x"
      "\<And>a. a \<notin> free_units s1 xs \<union> block s1 h \<Longrightarrow> um_size s' a = um_size s1 a" by metis
    obtain p where p: "freep s' = Some p" using f(2) by (auto simp: ready_def)
    obtain x where x: "x \<in> set xs'" "m \<le> um_size s' x" using f(6) s1(6) by auto
    have "morecore g n s = Some (Some p, s')" using sb True f(1) p by (simp add: morecore_def m_def [symmetric] s1_def)
    moreover have "um_size s' b = um_size s b" if "b \<notin> free_units s xs" "b < um_brk s" for b
      using f(7) [of b] s1(2,5) s1(7) [of b] that by (simp add: h_def)
    ultimately show ?thesis
      using f s1 p x m(2) by (intro added [of p s' xs' m x]) (simp_all add: h_def)
  qed
qed

lemma malloc_loop_ok:
  assumes rd: "ready s xs" "freep s = Some fp" and in_heap: "free_units s xs \<subseteq> {..<um_brk s}" "um_base s < um_brk s"
    and n: "0 < n" "n < 134217728"
  obtains r s' xs' where "malloc_loop g n fp (um_ptr s fp) s = Some (r, s')" "grew n s xs r s' xs'"
proof (cases "\<exists>x \<in> set xs. n \<le> um_size s x")
  case True
  then obtain x where x: "x \<in> set xs" "n \<le> um_size s x" by blast
  show ?thesis by (rule malloc_loop_fit [OF rd n(1) x, where g = g]) (rule that)
next
  case False
  then have none: "malloc_loop g n fp (um_ptr s fp) s =
    Option.bind (morecore g n s) (\<lambda>(r, s). case r of None \<Rightarrow> Some (None, s) | Some p \<Rightarrow> malloc_loop g n p (um_ptr s p) s)"
    by (intro malloc_none [OF rd]) (auto simp: not_le)
  show ?thesis
  proof (cases rule: morecore_ok [OF rd(1) in_heap n(2), of g])
    case 1
    then show ?thesis using none rd(1) by (intro that [of None s xs]) (simp_all add: grew_def)
  next
    case (2 p s1 xs1 m x)
    obtain r s' xs' where l: "malloc_loop g n p (um_ptr s1 p) s1 = Some (Some r, s')" "grew n s1 xs1 (Some r) s' xs'" "um_brk s' = um_brk s1"
      by (rule malloc_loop_fit [OF 2(2,3) n(1) 2(7,8), where g = g])
    have "um_size s' b = um_size s b" if "b \<notin> free_units s xs" "b < um_brk s" for b
      using l(2) 2(5,6) 2(9) [OF that] that by (auto simp: grew_def)
    then have "grew n s xs (Some r) s' xs'" using l(2,3) 2(4,5,6) by (auto simp: grew_def)
    then show ?thesis using none 2(1) l(1) by (intro that [of "Some r" s' xs']) simp_all
  qed
qed

section \<open>A program that allocates\<close>

text \<open>
  The calls a program makes: \<open>malloc\<close>, and \<open>free\<close> of the allocation number \<open>i\<close> of those it still holds. The
  kernel may answer each \<open>sbrk\<close> differently. The allocations are pointers with the size asked for.
\<close>

datatype ucall = Malloc u32 | Free nat

fun um_call :: "(int \<Rightarrow> bool) \<times> ucall \<Rightarrow> (nat \<times> u32) list \<times> um_state \<Rightarrow> ((nat \<times> u32) list \<times> um_state) option" where
  "um_call (g, Malloc n) (L, s) =
     malloc g n s \<bind> (\<lambda>(r, s). Some (case r of None \<Rightarrow> L | Some ap \<Rightarrow> (ap, n) # L, s))"
| "um_call (g, Free i) (L, s) =
     (if i < length L then free (fst (L ! i)) s \<bind> (\<lambda>s. Some (take i L @ drop (Suc i) L, s)) else Some (L, s))"

fun um_calls :: "((int \<Rightarrow> bool) \<times> ucall) list \<Rightarrow> (nat \<times> u32) list \<times> um_state \<Rightarrow> ((nat \<times> u32) list \<times> um_state) option" where
  "um_calls [] c = Some c"
| "um_calls (x # xs) c = um_call x c \<bind> um_calls xs"

fun call_ok :: "ucall \<Rightarrow> bool" where
  "call_ok (Malloc n) = (unat n \<le> 0x7FFFFFE0)"
| "call_ok (Free i) = True"

text \<open>The bytes the program may use, and the units of the block with its header.\<close>

fun payload :: "nat \<times> u32 \<Rightarrow> nat set" where
  "payload (ap, n) = {16 * ap..<16 * ap + unat n}"

fun hblock :: "nat \<times> u32 \<Rightarrow> nat set" where
  "hblock (ap, n) = {ap - 1..<ap - 1 + units n}"

definition hblocks :: "(nat \<times> u32) list \<Rightarrow> nat set" where
  "hblocks L = (\<Union>x \<in> set L. hblock x)"

abbreviation apart :: "nat \<times> u32 \<Rightarrow> nat \<times> u32 \<Rightarrow> bool" where
  "apart x y \<equiv> hblock x \<inter> hblock y = {}"

text \<open>
  \<open>b0\<close> is the end of the heap at the start. Every unit from there to the end of the heap is either free or
  in one block that was handed out.
\<close>

definition um_ok :: "nat \<Rightarrow> (nat \<times> u32) list \<Rightarrow> um_state \<Rightarrow> nat list \<Rightarrow> bool" where
  "um_ok b0 L s xs \<longleftrightarrow> ready s xs \<and> um_base s < b0 \<and> b0 \<le> um_brk s \<and> free_units s xs \<inter> hblocks L = {} \<and>
     free_units s xs \<union> hblocks L = {b0..<um_brk s} \<and> (\<forall>x \<in> set L. um_size s (fst x - 1) = units (snd x)) \<and> sorted_wrt apart L"

definition um_inv :: "nat \<Rightarrow> (nat \<times> u32) list \<Rightarrow> um_state \<Rightarrow> bool" where
  "um_inv b0 L s \<longleftrightarrow> (if freep s = None then L = [] \<and> um_base s < b0 \<and> um_brk s = b0 else \<exists>xs. um_ok b0 L s xs)"

lemma units_pos: "0 < units n" "unat n \<le> 16 * (units n - 1)" by (simp_all add: units_def)

lemma units_small: "unat n \<le> 0x7FFFFFE0 \<Longrightarrow> units n < 134217728" by (simp add: units_def)

lemma hblock_header: "fst x - 1 \<in> hblock x" by (cases x) (simp add: units_pos)

lemma hblocks_Cons: "hblocks (x # L) = hblock x \<union> hblocks L" by (simp add: hblocks_def)

text \<open>Before the loop, \<open>malloc\<close> sets up the free list if there is none.\<close>

lemma malloc_start:
  assumes "um_inv b0 L s"
  obtains s0 xs fp where "malloc g n s = malloc_loop g (units n) fp (um_ptr s0 fp) s0" "um_ok b0 L s0 xs" "freep s0 = Some fp"
    "um_brk s0 = um_brk s" "um_base s0 = um_base s"
proof (cases "freep s")
  case None
  let ?s = "set_size (um_base s) 0 (set_ptr (um_base s) (um_base s) (s\<lparr>freep := Some (um_base s)\<rparr>))"
  have "um_ok b0 L ?s [um_base s]" using assms None
    by (simp add: um_inv_def um_ok_def ready_def flist_def set_size_def set_ptr_def free_units_def block_def hblocks_def)
  then show ?thesis using None
    by (intro that [of "um_base s" ?s]) (simp_all add: malloc_def set_size_def set_ptr_def)
next
  case (Some fp)
  then obtain xs where "um_ok b0 L s xs" using assms by (auto simp: um_inv_def)
  then show ?thesis using Some by (intro that [of fp s xs]) (simp_all add: malloc_def)
qed

lemma um_okD:
  assumes "um_ok b0 L s xs"
  shows "ready s xs" "um_base s < b0" "b0 \<le> um_brk s" "free_units s xs \<inter> hblocks L = {}"
    "free_units s xs \<union> hblocks L = {b0..<um_brk s}" "x \<in> set L \<Longrightarrow> um_size s (fst x - 1) = units (snd x)" "sorted_wrt apart L"
    "x \<in> set L \<Longrightarrow> fst x - 1 \<notin> free_units s xs" "x \<in> set L \<Longrightarrow> fst x - 1 < um_brk s" "free_units s xs \<subseteq> {..<um_brk s}"
proof -
  have "fst x - 1 \<in> hblocks L" if "x \<in> set L" using that hblock_header [of x] unfolding hblocks_def by blast
  moreover have "free_units s xs \<inter> hblocks L = {}" "free_units s xs \<union> hblocks L = {b0..<um_brk s}" using assms by (auto simp: um_ok_def)
  ultimately show "x \<in> set L \<Longrightarrow> fst x - 1 \<notin> free_units s xs" "x \<in> set L \<Longrightarrow> fst x - 1 < um_brk s" "free_units s xs \<subseteq> {..<um_brk s}"
    by auto
qed (use assms in \<open>simp_all add: um_ok_def\<close>)

lemma um_ok_inv: "um_ok b0 L s xs \<Longrightarrow> um_inv b0 L s"
  by (auto simp: um_inv_def um_ok_def ready_def)

lemma um_ok_grew:
  assumes ok: "um_ok b0 L s xs" and r: "grew (units n) s xs r s' xs'"
  shows "um_ok b0 (case r of None \<Rightarrow> L | Some ap \<Rightarrow> (ap, n) # L) s' xs'"
proof -
  have fr: "ready s' xs'" "um_base s' = um_base s" "um_brk s \<le> um_brk s'" using r by (simp_all add: grew_def)
  have sz: "um_size s' (fst x - 1) = units (snd x)" if "x \<in> set L" for x
    using r um_okD(6,8,9) [OF ok that] by (simp add: grew_def)
  note o = um_okD(2-5,7) [OF ok]
  show ?thesis
  proof (cases r)
    case None
    then show ?thesis using r o fr sz by (simp add: grew_def um_ok_def)
  next
    case (Some ap)
    let ?H = "hblock (ap, n)" and ?N = "{um_brk s..<um_brk s'}"
    have a: "um_size s' (ap - 1) = units n" "?H \<subseteq> free_units s xs \<union> ?N" "free_units s' xs' = free_units s xs \<union> ?N - ?H"
      using r Some by (auto simp: grew_def)
    have "hblocks L \<subseteq> {b0..<um_brk s}" using o(4) by blast
    then have N: "?N \<inter> hblocks L = {}" by auto
    have "free_units s' xs' \<union> (?H \<union> hblocks L) = (free_units s xs \<union> hblocks L) \<union> ?N" using a(2,3) by blast
    also have "\<dots> = {b0..<um_brk s'}" unfolding o(4) using o(2) fr(3) by auto
    finally have all: "free_units s' xs' \<union> (?H \<union> hblocks L) = {b0..<um_brk s'}" .
    have dis: "free_units s' xs' \<inter> (?H \<union> hblocks L) = {}" "?H \<inter> hblocks L = {}" using a(2,3) N o(3) by blast+
    have "\<forall>y \<in> set L. apart (ap, n) y" using dis(2) unfolding hblocks_def by blast
    then have "sorted_wrt apart ((ap, n) # L)" using o(5) by (simp only: sorted_wrt.simps simp_thms)
    then show ?thesis using Some o(1,2) fr sz a(1) all dis(1) by (simp add: um_ok_def hblocks_Cons)
  qed
qed

lemma malloc_keeps:
  assumes inv: "um_inv b0 L s" and n: "unat n \<le> 0x7FFFFFE0"
  obtains r s' where "malloc g n s = Some (r, s')" "um_base s' = um_base s"
    "um_inv b0 (case r of None \<Rightarrow> L | Some ap \<Rightarrow> (ap, n) # L) s'"
proof -
  obtain s0 xs fp where st: "malloc g n s = malloc_loop g (units n) fp (um_ptr s0 fp) s0" "um_ok b0 L s0 xs" "freep s0 = Some fp"
    "um_base s0 = um_base s" using malloc_start [OF inv] by metis
  have "um_base s0 < um_brk s0" using um_okD(2,3) [OF st(2)] by simp
  then obtain r s' xs' where r: "malloc g n s = Some (r, s')" "grew (units n) s0 xs r s' xs'"
    using malloc_loop_ok [OF um_okD(1) [OF st(2)] st(3) um_okD(10) [OF st(2)] _ units_pos(1) units_small [OF n], of g] st(1) by metis
  moreover have "um_base s' = um_base s" using r(2) st(4) by (simp add: grew_def)
  ultimately show ?thesis using um_ok_inv [OF um_ok_grew [OF st(2) r(2)]] by (intro that)
qed

text \<open>Giving back one of the allocations.\<close>

lemma free_keeps:
  assumes inv: "um_inv b0 L s" and i: "i < length L"
  obtains s' where "free (fst (L ! i)) s = Some s'" "um_base s' = um_base s" "um_inv b0 (take i L @ drop (Suc i) L) s'"
proof -
  obtain xs where ok: "um_ok b0 L s xs" using inv i by (auto simp: um_inv_def split: if_splits)
  note o = um_okD(1-5,7) [OF ok]
  let ?L = "take i L @ drop (Suc i) L" and ?x = "L ! i" and ?bp = "fst (L ! i) - 1"
  have L: "L = take i L @ ?x # drop (Suc i) L" using i by (simp add: id_take_nth_drop)
  have H: "hblocks L = hblock ?x \<union> hblocks ?L" unfolding hblocks_def by (subst L) auto
  have srt: "sorted_wrt apart (take i L @ ?x # drop (Suc i) L)" using o(6) L by simp
  have ap: "hblock ?x \<inter> hblocks ?L = {}"
    using srt unfolding sorted_wrt_append hblocks_def by (fastforce simp: Int_commute)
  have bl: "block s ?bp = hblock ?x" using um_okD(6) [OF ok nth_mem [OF i]] by (cases ?x) (simp add: block_def)
  have "?bp \<in> {b0..<um_brk s}" using o(5) H hblock_header [of ?x] by blast
  then have bp: "um_base s < ?bp" "?bp + 1 = fst ?x" using o(2) by auto
  have "0 < um_size s ?bp" using um_okD(6) [OF ok nth_mem [OF i]] units_pos(1) by simp
  moreover have "block s ?bp \<inter> free_units s xs = {}" using bl H o(4) by blast
  ultimately obtain s' xs' where f: "free (?bp + 1) s = Some s'" "ready s' xs'" "um_base s' = um_base s" "um_brk s' = um_brk s"
    "free_units s' xs' = free_units s xs \<union> block s ?bp" "\<And>a. a \<notin> free_units s xs \<union> block s ?bp \<Longrightarrow> um_size s' a = um_size s a"
    using free_inserts [OF o(1) bp(1)] by metis
  have sz: "um_size s' (fst x - 1) = units (snd x)" if x: "x \<in> set ?L" for x
  proof -
    have xL: "x \<in> set L" using x by (auto dest: in_set_takeD in_set_dropD)
    have "fst x - 1 \<notin> block s ?bp" using x hblock_header [of x] ap bl unfolding hblocks_def by blast
    then show ?thesis using f(6) [of "fst x - 1"] um_okD(6,8) [OF ok xL] by simp
  qed
  have dis: "free_units s' xs' \<inter> hblocks ?L = {}" "free_units s' xs' \<union> hblocks ?L = {b0..<um_brk s}"
    using f(5) bl H ap o(4,5) by blast+
  have "sorted_wrt apart ?L" using srt by (simp add: sorted_wrt_append)
  then have "um_ok b0 ?L s' xs'"
    unfolding um_ok_def using f(2-4) o(2,3) sz dis by simp
  then show ?thesis using that [of s'] f(1,3) bp(2) um_ok_inv by simp
qed

lemma um_calls_keep:
  assumes "um_inv b0 L s" "\<forall>x \<in> set calls. call_ok (snd x)"
  shows "\<exists>L' s'. um_calls calls (L, s) = Some (L', s') \<and> um_inv b0 L' s' \<and> um_base s' = um_base s"
  using assms
proof (induction calls arbitrary: L s)
  case (Cons x calls)
  obtain g c where x: "x = (g, c)" by (cases x)
  have "\<exists>L1 s1. um_call x (L, s) = Some (L1, s1) \<and> um_inv b0 L1 s1 \<and> um_base s1 = um_base s"
  proof (cases c)
    case (Malloc n)
    then have "unat n \<le> 0x7FFFFFE0" using Cons.prems(2) x by simp
    then obtain r s' where "malloc g n s = Some (r, s')" "um_base s' = um_base s"
      "um_inv b0 (case r of None \<Rightarrow> L | Some ap \<Rightarrow> (ap, n) # L) s'" using malloc_keeps [OF Cons.prems(1)] by metis
    then show ?thesis using Malloc x by simp
  next
    case (Free i)
    show ?thesis
    proof (cases "i < length L")
      case True
      then obtain s' where "free (fst (L ! i)) s = Some s'" "um_base s' = um_base s" "um_inv b0 (take i L @ drop (Suc i) L) s'"
        using free_keeps [OF Cons.prems(1)] by metis
      then show ?thesis using True Free x by simp
    qed (use Free x Cons.prems(1) in simp)
  qed
  then obtain L1 s1 where s1: "um_call x (L, s) = Some (L1, s1)" "um_inv b0 L1 s1" "um_base s1 = um_base s" by blast
  then show ?case using Cons.IH [OF s1(2)] Cons.prems(2) by simp
qed simp

text \<open>What the invariant means for the bytes of the program.\<close>

lemma payload_units: "b \<in> payload x \<Longrightarrow> 0 < fst x \<Longrightarrow> b div 16 \<in> hblock x \<and> fst x \<le> b div 16"
  using units_pos(2) [of "snd x"] by (cases x) (auto simp: units_def)

lemma um_inv_payloads:
  assumes inv: "um_inv b0 L s"
  shows "sorted_wrt (\<lambda>x y. payload x \<inter> payload y = {}) L" "x \<in> set L \<Longrightarrow> payload x \<subseteq> {16 * b0..<16 * um_brk s}"
proof -
  have in_heap: "hblock y \<subseteq> {b0..<um_brk s}" "0 < fst y" if y: "y \<in> set L" for y
  proof -
    obtain xs where ok: "um_ok b0 L s xs" using inv y by (auto simp: um_inv_def split: if_splits)
    show h: "hblock y \<subseteq> {b0..<um_brk s}" using um_okD(5) [OF ok] that unfolding hblocks_def by blast
    show "0 < fst y" using h hblock_header [of y] um_okD(2) [OF ok] by (cases "fst y") auto
  qed
  have dis: "payload y \<inter> payload z = {}" if "apart y z" "y \<in> set L" "z \<in> set L" for y z
  proof (rule ccontr)
    assume "payload y \<inter> payload z \<noteq> {}"
    then obtain b where "b \<in> payload y" "b \<in> payload z" by blast
    then have "b div 16 \<in> hblock y \<inter> hblock z" using payload_units in_heap(2) that(2,3) by simp
    then show False using that(1) by simp
  qed
  have "sorted_wrt apart L" using inv by (auto simp: um_inv_def um_ok_def split: if_splits)
  then show "sorted_wrt (\<lambda>x y. payload x \<inter> payload y = {}) L"
    by (rule sorted_wrt_mono_rel [rotated]) (rule dis)
  show "payload x \<subseteq> {16 * b0..<16 * um_brk s}" if "x \<in> set L"
  proof
    fix b assume "b \<in> payload x"
    then have "b div 16 \<in> {b0..<um_brk s}" using payload_units [of b x] in_heap [OF that] by blast
    then show "b \<in> {16 * b0..<16 * um_brk s}" by auto
  qed
qed

text \<open>A free list that covers an interval is one block: free neighbours are always joined.\<close>

lemma flist_interval:
  assumes fl: "flist s xs" and all: "free_units s xs = {a..<b}" and ab: "a < b"
  shows "xs = [um_base s, a] \<and> um_size s a = b - a"
proof -
  obtain rest where xs: "xs = um_base s # rest" using flistD(1,2) [OF fl] by (cases xs) auto
  have U: "(\<Union>x \<in> set rest. block s x) = {a..<b}" using all xs flistD(3) [OF fl] by (simp add: free_units_def block_def)
  then obtain x ys where r: "rest = x # ys" using ab by (cases rest) auto
  have pos: "0 < um_size s y" if "y \<in> set rest" for y using flistD(6) [OF fl] xs that by simp
  have aft: "x + um_size s x < y" if "y \<in> set ys" for y using flistD(4) [OF fl] xs r that by (simp add: before_def)
  have "ys = []"
  proof (rule ccontr)
    assume "ys \<noteq> []"
    then obtain y where y: "y \<in> set ys" by (meson list.set_sel(1))
    have "z \<in> {a..<b}" if z: "z \<in> set rest" for z
    proof -
      have "z \<in> block s z" using pos [OF z] by (simp add: block_def)
      then show ?thesis using U z by blast
    qed
    then have "x \<in> {a..<b}" "y \<in> {a..<b}" using r y by simp_all
    then have "x + um_size s x \<in> {a..<b}" using aft [OF y] by auto
    then obtain z where "z \<in> set rest" "x + um_size s x \<in> block s z" using U by blast
    then show False using r aft [of z] by (auto simp: block_def)
  qed
  then have "{x..<x + um_size s x} = {a..<b}" using U r by (simp add: block_def)
  then show ?thesis using xs r \<open>ys = []\<close> ab atLeastLessThan_inj [of x "x + um_size s x" a b] pos [of x] by auto
qed


text \<open>The loops one round at a time, for running the allocator on concrete states.\<close>

lemma malloc_loop_round:
  "um_size s p = n \<Longrightarrow> malloc_loop g n pr p s = Some (Some (p + 1), (set_ptr pr (um_ptr s p) s)\<lparr>freep := Some pr\<rparr>)"
  "n < um_size s p \<Longrightarrow> malloc_loop g n pr p s = (case take_block n pr p s of (q, s) \<Rightarrow> Some (Some (q + 1), s))"
  "um_size s p < n \<Longrightarrow> freep s = Some p \<Longrightarrow> malloc_loop g n pr p s =
     Option.bind (morecore g n s) (\<lambda>(r, s). case r of None \<Rightarrow> Some (None, s) | Some p \<Rightarrow> malloc_loop g n p (um_ptr s p) s)"
  "um_size s p < n \<Longrightarrow> freep s \<noteq> Some p \<Longrightarrow> malloc_loop g n pr p s = malloc_loop g n p (um_ptr s p) s"
  by (subst malloc_loop.simps; auto simp: take_block_def set_size_def Let_def)+

lemma free_find_round:
  "p < bp \<Longrightarrow> bp < um_ptr s p \<or> um_ptr s p \<le> p \<Longrightarrow> free_find bp p s = Some p"
  "p < um_ptr s p \<Longrightarrow> bp \<le> p \<or> um_ptr s p \<le> bp \<Longrightarrow> free_find bp p s = free_find bp (um_ptr s p) s"
  by (subst free_find.simps; auto)+

definition um_boot :: um_state where
  "um_boot = \<lparr>um_ptr = (\<lambda>_. 0), um_size = (\<lambda>_. 0), um_base = 10, freep = None, um_brk = 100\<rparr>"




end
