(* ===== verification/Spec2Isabelle.thy ===== *)
theory Spec2Isabelle
  imports Paging_Map Vspace_Copy Console_Line Ide Fs_Path File_Inv User_Grep User_Lib Umalloc_Safe
begin

text \<open>
  A model of the xk microkernel (kernel/) and of its user programs (user/), with the properties
  that make its components correct.
\<close>

end
